(* ===== verification/Prelude.thy ===== *)
theory Prelude
  imports Main "HOL-Library.Word"
begin

unbundle bit_operations_syntax

section \<open>Shared vocabulary of the development\<close>

text \<open>
  This theory holds what every component of the model uses: the names of the machine integer
  types, the collections of simplification rules, the reading of a power-of-two ring index
  (\<open>idx & (size - 1)\<close>) as arithmetic modulo the ring size, the guarded array accesses that turn an
  out-of-range access of the program into the value \<^const>\<open>None\<close>, and generic facts on lists.
\<close>

subsection \<open>Machine integers and fallible reads\<close>

type_synonym u8 = "8 word"
type_synonym u16 = "16 word"
type_synonym u32 = "32 word"
type_synonym u64 = "64 word"
type_synonym bytes = "u8 list"

named_theorems ring_simps \<open>index arithmetic of power-of-two rings\<close>
named_theorems wire_simps \<open>byte layouts of integers and structures\<close>
named_theorems status_simps \<open>status values and wire constants\<close>

text \<open>
  A read through a pointer is defined only inside the object it points into. \<open>rd\<close> returns
  \<^const>\<open>None\<close> for a read outside the object, so that \<^const>\<open>None\<close> in a model
  is exactly an out-of-range access of the program.
\<close>

definition rd :: "'a list \<Rightarrow> nat \<Rightarrow> 'a option" where
  "rd xs i = (if i < length xs then Some (xs ! i) else None)"

text \<open>A write through a pointer, with the same convention.\<close>

definition wr :: "'a list \<Rightarrow> nat \<Rightarrow> 'a \<Rightarrow> 'a list option" where
  "wr xs i v = (if i < length xs then Some (xs[i := v]) else None)"

lemma rd_Some [simp]: "i < length xs \<Longrightarrow> rd xs i = Some (xs ! i)"
  by (simp add: rd_def)

lemma rd_None [simp]: "length xs \<le> i \<Longrightarrow> rd xs i = None"
  by (simp add: rd_def)

lemma rd_eq_Some_iff: "rd xs i = Some v \<longleftrightarrow> i < length xs \<and> v = xs ! i"
  by (auto simp: rd_def)

lemma wr_Some [simp]: "i < length xs \<Longrightarrow> wr xs i v = Some (xs[i := v])"
  by (simp add: wr_def)

lemma wr_eq_Some_iff: "wr xs i v = Some ys \<longleftrightarrow> i < length xs \<and> ys = xs[i := v]"
  by (auto simp: wr_def)

subsection \<open>Power-of-two masks\<close>

text \<open>
  \<open>is_pow2 n\<close> says that \<open>n\<close> is a power of two that a 64-bit \<open>size_t\<close> can hold. The program
  tests it with \<open>value != 0 && (value & (value - 1)) == 0\<close>.
\<close>

definition is_pow2 :: "nat \<Rightarrow> bool" where
  "is_pow2 n \<longleftrightarrow> (\<exists>k < 64. n = 2 ^ k)"

text \<open>The index of a monotonic 64-bit counter in a ring of \<open>n\<close> cells: \<open>w & (n - 1)\<close>.\<close>

definition ring_idx :: "nat \<Rightarrow> u64 \<Rightarrow> nat" where
  "ring_idx n w = unat (w AND (of_nat n - 1))"

lemma is_pow2I: "n = 2 ^ k \<Longrightarrow> k < 64 \<Longrightarrow> is_pow2 n"
  by (auto simp: is_pow2_def)

lemma is_pow2_gt0: "is_pow2 n \<Longrightarrow> 0 < n"
  by (auto simp: is_pow2_def)

lemma is_pow2_dvd: "is_pow2 n \<Longrightarrow> n dvd 2 ^ 64"
proof -
  assume "is_pow2 n"
  then obtain k where "k < 64" "n = 2 ^ k" unfolding is_pow2_def by blast
  then show ?thesis using le_imp_power_dvd [of k 64 "2 :: nat"] by simp
qed

lemma is_pow2_le: "is_pow2 n \<Longrightarrow> n \<le> 2 ^ 63"
proof -
  assume "is_pow2 n"
  then obtain k where "k < 64" "n = 2 ^ k" unfolding is_pow2_def by blast
  then show ?thesis using power_increasing [of k 63 "2 :: nat"] by simp
qed

lemma is_pow2_lt: "is_pow2 n \<Longrightarrow> n < 2 ^ 64"
  by (drule is_pow2_le) simp

lemma and_mask_mod: "unat ((w :: u64) AND (2 ^ k - 1)) = unat w mod 2 ^ k"
proof -
  have "w AND (2 ^ k - 1) = take_bit k w"
    by (simp only: take_bit_eq_mask mask_eq_exp_minus_1)
  then show ?thesis
    by (simp only: unsigned_take_bit_eq) (simp only: take_bit_eq_mod)
qed

lemma ring_idx_mod: "is_pow2 n \<Longrightarrow> ring_idx n w = unat w mod n"
  by (auto simp: is_pow2_def ring_idx_def and_mask_mod)

lemma ring_idx_less [simp]: "is_pow2 n \<Longrightarrow> ring_idx n w < n"
  by (simp add: ring_idx_mod is_pow2_gt0)

lemma unat_add_mod: "n dvd 2 ^ 64 \<Longrightarrow> unat (a + b :: u64) mod n = (unat a + unat b) mod n"
  by (simp add: unat_word_ariths mod_mod_cancel)

lemma unat_of_nat_mod: "n dvd 2 ^ 64 \<Longrightarrow> unat (of_nat i :: u64) mod n = i mod n"
  by (simp add: unat_of_nat mod_mod_cancel)

text \<open>
  A counter that has advanced by \<open>i\<close> reads the cell \<open>i\<close> places further round the ring, also
  when the 64-bit counter has wrapped around in between: the ring size divides \<open>2 ^ 64\<close>.
\<close>

lemma ring_idx_add: "is_pow2 n \<Longrightarrow> ring_idx n (w + of_nat i) = (unat w + i) mod n"
proof -
  assume n: "is_pow2 n"
  then have d: "n dvd 2 ^ 64" by (rule is_pow2_dvd)
  have "ring_idx n (w + of_nat i) = (unat w + unat (of_nat i :: u64)) mod n"
    using n unat_add_mod [OF d] by (simp only: ring_idx_mod)
  also have "\<dots> = (unat w + unat (of_nat i :: u64) mod n) mod n"
    by (simp only: mod_add_right_eq)
  also have "\<dots> = (unat w + i mod n) mod n"
    using unat_of_nat_mod [OF d] by (simp only:)
  finally show ?thesis by (simp only: mod_add_right_eq)
qed

lemma mod_add_eq_cancel:
  fixes a i j n :: nat
  assumes "i < n" "j < n"
  shows "(a + i) mod n = (a + j) mod n \<longleftrightarrow> i = j"
proof
  assume *: "(a + i) mod n = (a + j) mod n"
  have "int i mod int n = int j mod int n"
  proof -
    have "(int a + int i) mod int n = (int a + int j) mod int n"
      using * by (metis of_nat_add of_nat_mod)
    then show ?thesis
      by (metis add_diff_cancel_left' mod_diff_left_eq)
  qed
  with assms show "i = j" by (metis mod_less of_nat_eq_iff of_nat_mod)
qed simp

lemma ring_idx_inj:
  assumes "is_pow2 n" "i < n" "j < n"
  shows "ring_idx n (w + of_nat i) = ring_idx n (w + of_nat j) \<longleftrightarrow> i = j"
  using assms by (simp add: ring_idx_add mod_add_eq_cancel)

lemmas ring_facts [ring_simps] = ring_idx_add is_pow2_gt0

subsection \<open>Distances on a wrapping clock\<close>

text \<open>
  A time that is more than one step ahead of the clock is one step nearer after the clock has
  advanced, also when the clock wraps around in that step.
\<close>

lemma distance_step:
  assumes "1 < unat (r - t :: u64)" shows "unat (r - (t + 1)) = unat (r - t) - 1" and "r \<noteq> t + 1"
proof -
  have "r - t \<noteq> 0" using assms by auto
  then show "unat (r - (t + 1)) = unat (r - t) - 1"
    using unat_minus_one [of "r - t"] by (simp add: diff_diff_eq)
  show "r \<noteq> t + 1" using assms by auto
qed

lemma ucast_of_nat_unat: "(ucast (w :: 'a::len word) :: 'b::len word) = of_nat (unat w)"
  by simp

end
