(* ===== verification/Chronos_Types.thy ===== *)
theory Chronos_Types
  imports Prelude
begin

section \<open>Vocabulary types (\<open>include/chronosx/types.hpp\<close>)\<close>

text \<open>
  The constants of the header, the power-of-two test that guards every ring of the program, the
  packet actions and the statistics record that the data plane hands to the dashboard.

  \<open>PacketAction\<close> is an \<open>enum class\<close> with the fixed underlying type \<open>std::uint8_t\<close>: every byte is
  a value of it, and the control plane does produce bytes with no enumerator (it copies rules from
  the network with \<open>memcpy\<close>). It is therefore modelled as the byte itself, with one constant per
  enumerator.
\<close>

definition kCacheLineSize :: nat where "kCacheLineSize = 64"
definition kDefaultStatsQueueCapacity :: nat where "kDefaultStatsQueueCapacity = 4096"
definition kEthernetHeaderBytes :: nat where "kEthernetHeaderBytes = 14"
definition kIPv4BaseHeaderBytes :: nat where "kIPv4BaseHeaderBytes = 20"
definition kTCPBaseHeaderBytes :: nat where "kTCPBaseHeaderBytes = 20"
definition kUDPHeaderBytes :: nat where "kUDPHeaderBytes = 8"

lemmas header_sizes =
  kEthernetHeaderBytes_def kIPv4BaseHeaderBytes_def kTCPBaseHeaderBytes_def kUDPHeaderBytes_def

definition is_power_of_two :: "u64 \<Rightarrow> bool" where
  "is_power_of_two value \<longleftrightarrow> value \<noteq> 0 \<and> value AND (value - 1) = 0"

type_synonym PacketAction = u8

definition Pass :: PacketAction where "Pass = 0"
definition Drop :: PacketAction where "Drop = 1"
definition Delay :: PacketAction where "Delay = 2"
definition Corrupt :: PacketAction where "Corrupt = 3"

lemmas PacketAction_defs [status_simps] = Pass_def Drop_def Delay_def Corrupt_def

definition to_wire_value :: "PacketAction \<Rightarrow> u8" where
  "to_wire_value action = action"

record StatUpdate =
  timestamp_cycles :: u64
  su_packets_seen :: u64
  su_packets_dropped :: u64
  su_bytes_seen :: u64
  su_average_latency_ns :: u64
  su_last_action :: PacketAction
  su_reserved0 :: u8
  su_reserved1 :: u16

definition StatUpdate_init :: StatUpdate where
  "StatUpdate_init = \<lparr>timestamp_cycles = 0, su_packets_seen = 0, su_packets_dropped = 0,
     su_bytes_seen = 0, su_average_latency_ns = 0, su_last_action = Pass, su_reserved0 = 0,
     su_reserved1 = 0\<rparr>"

subsection \<open>The power-of-two test\<close>

lemma and_half_nat: "(a AND b) div 2 = (a div 2 AND b div 2 :: nat)"
proof -
  have "drop_bit 1 (a AND b) = (drop_bit 1 a AND drop_bit 1 b)" by (rule drop_bit_and)
  then show ?thesis by (simp only: drop_bit_eq_div power_one_right)
qed

lemma and_pred_eq_0_imp_pow2:
  fixes n :: nat
  shows "n \<noteq> 0 \<Longrightarrow> n AND (n - 1) = 0 \<Longrightarrow> \<exists>k. n = 2 ^ k"
proof (induction n rule: less_induct)
  case (less n)
  show ?case
  proof (cases "even n")
    case True
    then obtain m where m: "n = 2 * m" by blast
    with less.prems have m0: "m \<noteq> 0" "m < n" by auto
    have "(2 * m - 1) div 2 = m - 1" using m0 by arith
    then have "(n AND (n - 1)) div 2 = m AND (m - 1)"
      using m and_half_nat [of n "n - 1"] by simp
    with less.prems have "m AND (m - 1) = 0" by simp
    then obtain k where "m = 2 ^ k" using less.IH m0 by blast
    then have "n = 2 ^ Suc k" by (simp add: m)
    then show ?thesis by blast
  next
    case False
    then obtain m where m: "n = 2 * m + 1" using oddE by blast
    have "(n AND (n - 1)) div 2 = m" using m and_half_nat [of n "n - 1"] by simp
    with less.prems have "n = 2 ^ 0" using m by simp
    then show ?thesis by blast
  qed
qed

lemma pow2_and_pred: "(2 ^ k :: nat) AND (2 ^ k - 1) = 0"
proof -
  have "(2 ^ k :: nat) AND mask k = take_bit k (2 ^ k)" by (simp add: take_bit_eq_mask)
  also have "\<dots> = 0" by (simp add: take_bit_eq_mod)
  finally show ?thesis by (simp add: mask_eq_exp_minus_1)
qed

lemma unat_pred: "(v :: u64) \<noteq> 0 \<Longrightarrow> unat (v - 1) = unat v - 1"
  by (simp add: unat_eq_0 unat_minus_one)

lemma unat_less_2_64: "unat (v :: u64) < 2 ^ 64"
  using unsigned_less [of v] by simp

lemma is_power_of_two_unat: "is_power_of_two v \<longleftrightarrow> (\<exists>k < 64. unat v = 2 ^ k)"
proof
  assume a: "is_power_of_two v"
  then have v0: "v \<noteq> 0" and "unat (v AND (v - 1)) = 0"
    by (auto simp: is_power_of_two_def)
  then have "unat v AND (unat v - 1) = 0" by (simp only: unsigned_and_eq unat_pred [OF v0])
  then obtain k where k: "unat v = 2 ^ k" using and_pred_eq_0_imp_pow2 v0 by (metis unat_eq_0)
  with unat_less_2_64 [of v] have "k < 64" using power_less_imp_less_exp [of "2 :: nat" k 64] by simp
  with k show "\<exists>k < 64. unat v = 2 ^ k" by blast
next
  assume "\<exists>k < 64. unat v = 2 ^ k"
  then obtain k where k: "unat v = 2 ^ k" by blast
  then have v0: "v \<noteq> 0" by auto
  have "unat (v AND (v - 1)) = 0"
    using k pow2_and_pred [of k] by (simp only: unsigned_and_eq unat_pred [OF v0])
  with v0 show "is_power_of_two v" by (simp add: is_power_of_two_def unat_eq_0)
qed

text \<open>The bit trick \<open>value != 0 && (value & (value - 1)) == 0\<close>, on which the \<open>requires\<close> clauses of the
  ring buffers, the timing wheel and the frame pool rest, accepts exactly the powers of two of a
  64-bit size.\<close>

lemma is_power_of_two_correct:
  "(is_power_of_two v \<longleftrightarrow> is_pow2 (unat v)) \<and> (\<not> is_power_of_two 0)"
  by (simp add: is_power_of_two_unat is_pow2_def)

lemma is_power_of_two_of_nat:
  assumes "n < 2 ^ 64" shows "is_power_of_two (of_nat n) \<longleftrightarrow> is_pow2 n"
proof -
  have "unat (of_nat n :: u64) = n" using assms by (simp add: unat_of_nat)
  then show ?thesis by (simp add: is_power_of_two_unat is_pow2_def)
qed

end
