(* ===== verification/Bounded_Fifo.thy ===== *)
theory Bounded_Fifo
  imports Main
begin

section \<open>The contract of a bounded first-in first-out buffer\<close>

text \<open>
  Several components of the program are rings with a fixed capacity: the statistics queue between
  the data plane and the dashboard and the four rings of the simulated AF_XDP socket. This theory
  states once what a client of such a ring relies on. A provider gives its invariant, the list of
  elements it holds (oldest first), its capacity and the operations \<open>push\<close> and \<open>pop\<close>; the client
  facts below follow for every provider. The two rings of the program interpret the locale in
  their own theories.
\<close>

datatype 'a fifo_op = Push 'a | Pop

text \<open>
  A run of operations. It returns the elements that were accepted, the elements that were
  delivered, both in order, and the final state.
\<close>

fun fifo_run :: "('a \<Rightarrow> 'q \<Rightarrow> bool \<times> 'q) \<Rightarrow> ('q \<Rightarrow> 'a option \<times> 'q) \<Rightarrow> 'a fifo_op list \<Rightarrow> 'q
    \<Rightarrow> 'a list \<times> 'a list \<times> 'q" where
  "fifo_run push pop [] q = ([], [], q)"
| "fifo_run push pop (Push x # ops) q =
     (let (ok, q') = push x q; (ins, outs, q'') = fifo_run push pop ops q'
      in (if ok then x # ins else ins, outs, q''))"
| "fifo_run push pop (Pop # ops) q =
     (let (r, q') = pop q; (ins, outs, q'') = fifo_run push pop ops q'
      in (ins, (case r of None \<Rightarrow> outs | Some x \<Rightarrow> x # outs), q''))"

locale bounded_fifo =
  fixes inv :: "'q \<Rightarrow> bool"
    and contents :: "'q \<Rightarrow> 'a list"
    and cap :: "'q \<Rightarrow> nat"
    and push :: "'a \<Rightarrow> 'q \<Rightarrow> bool \<times> 'q"
    and pop :: "'q \<Rightarrow> 'a option \<times> 'q"
  assumes bounded: "inv q \<Longrightarrow> length (contents q) \<le> cap q"
    and push_room: "inv q \<Longrightarrow> length (contents q) < cap q \<Longrightarrow>
          fst (push x q) \<and> contents (snd (push x q)) = contents q @ [x]"
    and push_full: "inv q \<Longrightarrow> length (contents q) = cap q \<Longrightarrow> push x q = (False, q)"
    and push_inv: "inv q \<Longrightarrow> inv (snd (push x q))"
    and push_cap: "inv q \<Longrightarrow> cap (snd (push x q)) = cap q"
    and pop_empty: "inv q \<Longrightarrow> contents q = [] \<Longrightarrow> pop q = (None, q)"
    and pop_cons: "inv q \<Longrightarrow> contents q = x # xs \<Longrightarrow>
          fst (pop q) = Some x \<and> contents (snd (pop q)) = xs"
    and pop_inv: "inv q \<Longrightarrow> inv (snd (pop q))"
    and pop_cap: "inv q \<Longrightarrow> cap (snd (pop q)) = cap q"
begin

lemma push_accepts_iff: "inv q \<Longrightarrow> fst (push x q) \<longleftrightarrow> length (contents q) < cap q"
  using bounded [of q] push_room [of q x] push_full [of q x] by (cases "length (contents q) < cap q") auto

lemma push_contents:
  "inv q \<Longrightarrow> contents (snd (push x q)) = (if fst (push x q) then contents q @ [x] else contents q)"
  using bounded [of q] push_room [of q x] push_full [of q x] by (cases "length (contents q) < cap q") auto

lemma pop_contents:
  "inv q \<Longrightarrow> contents q = (case fst (pop q) of None \<Rightarrow> [] | Some x \<Rightarrow> [x]) @ contents (snd (pop q))"
  using pop_empty [of q] pop_cons [of q] by (cases "contents q") auto

lemma push_pop_empty:
  assumes "inv q" "contents q = []" "0 < cap q"
  shows "fst (pop (snd (push x q))) = Some x"
  using assms push_room [of q x] pop_cons [of "snd (push x q)" x "[]"] push_inv [of q x] by simp

text \<open>
  The first-in first-out law of a whole run: what was in the ring followed by what was accepted is
  what was delivered followed by what is left. Nothing is lost, duplicated or reordered.
\<close>

lemma run_fifo:
  assumes "inv q" and "fifo_run push pop ops q = (ins, outs, q')"
  shows "inv q' \<and> cap q' = cap q \<and> contents q @ ins = outs @ contents q'"
  using assms
proof (induction ops arbitrary: q ins outs)
  case Nil
  then show ?case by simp
next
  case (Cons a ops)
  show ?case
  proof (cases a)
    case (Push x)
    obtain ok q1 where p: "push x q = (ok, q1)" by fastforce
    obtain ins1 where r: "fifo_run push pop ops q1 = (ins1, outs, q')"
      and i: "ins = (if ok then x # ins1 else ins1)"
      using Cons.prems(2) by (auto simp: Push p split: prod.splits)
    have q1: "inv q1" "cap q1 = cap q" "contents q1 = (if ok then contents q @ [x] else contents q)"
      using Cons.prems(1) push_inv [of q x] push_cap [of q x] push_contents [of q x] by (auto simp: p)
    from Cons.IH [OF q1(1) r] show ?thesis using q1 i by (cases ok) auto
  next
    case Pop
    obtain res q1 where p: "pop q = (res, q1)" by fastforce
    obtain outs1 where r: "fifo_run push pop ops q1 = (ins, outs1, q')"
      and o: "outs = (case res of None \<Rightarrow> outs1 | Some x \<Rightarrow> x # outs1)"
      using Cons.prems(2) by (auto simp: Pop p split: prod.splits)
    have q1: "inv q1" "cap q1 = cap q"
      "contents q = (case res of None \<Rightarrow> [] | Some x \<Rightarrow> [x]) @ contents q1"
      using Cons.prems(1) pop_inv [of q] pop_cap [of q] pop_contents [of q] by (auto simp: p)
    from Cons.IH [OF q1(1) r] show ?thesis using q1 o by (cases res) auto
  qed
qed

end

end
