(* ===== verification/Spsc_Queue.thy ===== *)
theory Spsc_Queue
  imports Chronos_Types Bounded_Fifo
begin

section \<open>The lock-free statistics queue (\<open>include/chronosx/spsc_queue.hpp\<close>)\<close>

text \<open>
  \<open>SPSCQueue<T, Capacity>\<close> keeps two 64-bit counters that only grow (and wrap around at
  \<open>2 ^ 64\<close>) and an array of \<open>Capacity\<close> cells that is addressed by \<open>counter & (Capacity - 1)\<close>.
  This theory models one call at a time and shows that the queue is a bounded first-in first-out
  buffer for every value of the counters, in particular across their wrap-around. The interleaving
  of the two threads is the subject of theory \<open>Spsc_Concurrent\<close>.

  The template parameter \<open>Capacity\<close> is the field \<open>sq_capacity\<close>; no operation changes it.
\<close>

record 'a SPSCQueue =
  sq_capacity :: nat
  sq_head :: u64
  sq_tail :: u64
  sq_buffer :: "'a list"

definition SPSCQueue_init :: "nat \<Rightarrow> 'a \<Rightarrow> 'a SPSCQueue" where
  "SPSCQueue_init cap dflt =
     \<lparr>sq_capacity = cap, sq_head = 0, sq_tail = 0, sq_buffer = replicate cap dflt\<rparr>"

definition try_push :: "'a \<Rightarrow> 'a SPSCQueue \<Rightarrow> bool \<times> 'a SPSCQueue" where
  "try_push item q =
     (let tail = sq_tail q; head = sq_head q in
      if tail - head \<ge> of_nat (sq_capacity q) then (False, q)
      else (True, q\<lparr>sq_buffer := (sq_buffer q)[ring_idx (sq_capacity q) tail := item],
                    sq_tail := tail + 1\<rparr>))"

definition try_pop :: "'a SPSCQueue \<Rightarrow> 'a option \<times> 'a SPSCQueue" where
  "try_pop q =
     (let head = sq_head q; tail = sq_tail q in
      if head = tail then (None, q)
      else (Some (sq_buffer q ! ring_idx (sq_capacity q) head), q\<lparr>sq_head := head + 1\<rparr>))"

definition size_approx :: "'a SPSCQueue \<Rightarrow> u64" where
  "size_approx q = sq_tail q - sq_head q"

definition empty_approx :: "'a SPSCQueue \<Rightarrow> bool" where
  "empty_approx q \<longleftrightarrow> size_approx q = 0"

definition full_approx :: "'a SPSCQueue \<Rightarrow> bool" where
  "full_approx q \<longleftrightarrow> size_approx q \<ge> of_nat (sq_capacity q)"

subsection \<open>Invariant and abstraction\<close>

text \<open>
  The invariant: the capacity is a power of two, the array has that many cells and the distance of
  the counters, taken modulo \<open>2 ^ 64\<close>, is at most the capacity.
\<close>

definition spsc_inv :: "'a SPSCQueue \<Rightarrow> bool" where
  "spsc_inv q \<longleftrightarrow> is_pow2 (sq_capacity q) \<and> length (sq_buffer q) = sq_capacity q \<and>
     unat (sq_tail q - sq_head q) \<le> sq_capacity q"

text \<open>The elements of the queue, oldest first.\<close>

definition spsc_contents :: "'a SPSCQueue \<Rightarrow> 'a list" where
  "spsc_contents q =
     map (\<lambda>i. sq_buffer q ! ring_idx (sq_capacity q) (sq_head q + of_nat i))
       [0..<unat (sq_tail q - sq_head q)]"

lemma spsc_inv_init: "is_pow2 cap \<Longrightarrow> spsc_inv (SPSCQueue_init cap d)"
  by (simp add: spsc_inv_def SPSCQueue_init_def)

lemma spsc_contents_init [simp]: "spsc_contents (SPSCQueue_init cap d) = []"
  by (simp add: spsc_contents_def SPSCQueue_init_def)

lemma sq_capacity_init [simp]: "sq_capacity (SPSCQueue_init cap d) = cap"
  by (simp add: SPSCQueue_init_def)

lemma length_spsc_contents [simp]: "length (spsc_contents q) = unat (sq_tail q - sq_head q)"
  by (simp add: spsc_contents_def)

lemma unat_cap: "is_pow2 n \<Longrightarrow> unat (of_nat n :: u64) = n"
  using is_pow2_lt [of n] by (simp add: unat_of_nat)

text \<open>The test of the source on the wrapped counters is the test on the number of elements.\<close>

lemma spsc_full_iff:
  "spsc_inv q \<Longrightarrow> sq_tail q - sq_head q \<ge> of_nat (sq_capacity q) \<longleftrightarrow>
     length (spsc_contents q) = sq_capacity q"
  by (auto simp: spsc_inv_def word_le_nat_alt unat_cap)

lemma spsc_empty_iff: "sq_head q = sq_tail q \<longleftrightarrow> spsc_contents q = []"
proof -
  have "sq_head q = sq_tail q \<longleftrightarrow> sq_tail q - sq_head q = 0" by (metis eq_iff_diff_eq_0)
  also have "\<dots> \<longleftrightarrow> length (spsc_contents q) = 0" by (simp add: unat_eq_0)
  finally show ?thesis by (simp only: length_0_conv)
qed

lemma unat_succ: "unat (w :: u64) < n \<Longrightarrow> n < 2 ^ 64 \<Longrightarrow> unat (w + 1) = unat w + 1"
  by (simp add: unat_word_ariths)

lemma diff_succ_tail: "(t :: u64) + 1 - h = (t - h) + 1"
  by simp

lemma nth_update_other_cell:
  assumes "is_pow2 n" "i < k" "k < n" "w = h + of_nat k"
  shows "ring_idx n (h + of_nat i) \<noteq> ring_idx n w"
  using assms ring_idx_inj [of n i k h] by simp

lemma try_push_room:
  assumes inv: "spsc_inv q" and room: "length (spsc_contents q) < sq_capacity q"
  shows "fst (try_push x q)" and "spsc_inv (snd (try_push x q))"
    and "spsc_contents (snd (try_push x q)) = spsc_contents q @ [x]"
proof -
  let ?n = "sq_capacity q" and ?d = "sq_tail q - sq_head q"
  have n: "is_pow2 ?n" and len: "length (sq_buffer q) = ?n" using inv by (auto simp: spsc_inv_def)
  have d: "unat ?d < ?n" using room by simp
  have push: "try_push x q = (True, q\<lparr>sq_buffer := (sq_buffer q)[ring_idx ?n (sq_tail q) := x],
      sq_tail := sq_tail q + 1\<rparr>)"
    using spsc_full_iff [OF inv] room by (simp add: try_push_def Let_def)
  have d1: "unat (sq_tail q + 1 - sq_head q) = unat ?d + 1"
    using unat_succ [OF d is_pow2_lt [OF n]] by (simp only: diff_succ_tail)
  have t: "sq_tail q = sq_head q + of_nat (unat ?d)" by simp
  show "fst (try_push x q)" by (simp add: push)
  show "spsc_inv (snd (try_push x q))" using d1 d n len by (simp add: push spsc_inv_def)
  have "ring_idx ?n (sq_tail q) \<noteq> ring_idx ?n (sq_head q + of_nat i)" if "i < unat ?d" for i
    using nth_update_other_cell [OF n that d t] by (rule not_sym)
  then show "spsc_contents (snd (try_push x q)) = spsc_contents q @ [x]"
    using d1 n len by (simp add: push spsc_contents_def)
qed

lemma try_pop_cons:
  assumes inv: "spsc_inv q" and cont: "spsc_contents q = x # xs"
  shows "fst (try_pop q) = Some x" and "spsc_inv (snd (try_pop q))"
    and "spsc_contents (snd (try_pop q)) = xs"
proof -
  let ?n = "sq_capacity q" and ?d = "sq_tail q - sq_head q"
  have n: "is_pow2 ?n" using inv by (auto simp: spsc_inv_def)
  have ne: "sq_head q \<noteq> sq_tail q" using cont spsc_empty_iff [of q] by auto
  then have d0: "?d \<noteq> 0" by simp
  have pop: "try_pop q = (Some (sq_buffer q ! ring_idx ?n (sq_head q)), q\<lparr>sq_head := sq_head q + 1\<rparr>)"
    using ne by (simp add: try_pop_def Let_def)
  have d1: "unat (sq_tail q - (sq_head q + 1)) = unat ?d - 1"
    using unat_pred [OF d0] by (simp add: diff_diff_eq)
  have dS: "unat ?d = Suc (unat ?d - 1)" using d0 unat_eq_0 [of ?d] by arith
  have "spsc_contents q = sq_buffer q ! ring_idx ?n (sq_head q) #
      map (\<lambda>i. sq_buffer q ! ring_idx ?n (sq_head q + of_nat (Suc i))) [0..<unat ?d - 1]"
    unfolding spsc_contents_def by (subst dS) (simp del: upt_Suc add: map_upt_Suc)
  with cont have x: "x = sq_buffer q ! ring_idx ?n (sq_head q)"
    and xs: "xs = map (\<lambda>i. sq_buffer q ! ring_idx ?n (sq_head q + of_nat (Suc i))) [0..<unat ?d - 1]"
    by simp_all
  show "fst (try_pop q) = Some x" by (simp add: pop x)
  show "spsc_inv (snd (try_pop q))" using inv d1 by (auto simp: pop spsc_inv_def)
  show "spsc_contents (snd (try_pop q)) = xs"
    using d1 by (simp add: pop spsc_contents_def xs add.assoc)
qed

lemma try_push_full:
  "spsc_inv q \<Longrightarrow> length (spsc_contents q) = sq_capacity q \<Longrightarrow> try_push x q = (False, q)"
  using spsc_full_iff [of q] by (simp add: try_push_def)

lemma try_pop_empty: "spsc_contents q = [] \<Longrightarrow> try_pop q = (None, q)"
  using spsc_empty_iff [of q] by (simp add: try_pop_def)

lemma spsc_bounded: "spsc_inv q \<Longrightarrow> length (spsc_contents q) \<le> sq_capacity q"
  by (simp add: spsc_inv_def)

lemma try_push_inv: "spsc_inv q \<Longrightarrow> spsc_inv (snd (try_push x q))"
  using try_push_room(2) [of q x] try_push_full [of q x] spsc_bounded [of q] le_neq_implies_less by fastforce

lemma try_pop_inv: "spsc_inv q \<Longrightarrow> spsc_inv (snd (try_pop q))"
  by (cases "spsc_contents q") (auto simp: try_pop_empty try_pop_cons)

lemma spsc_capacity_const [simp]:
  "sq_capacity (snd (try_push x q)) = sq_capacity q" "sq_capacity (snd (try_pop q)) = sq_capacity q"
  by (simp_all add: try_push_def try_pop_def Let_def)

interpretation spsc: bounded_fifo spsc_inv spsc_contents sq_capacity try_push try_pop
  by unfold_locales
    (auto simp: spsc_bounded try_push_room try_push_full try_push_inv try_pop_empty try_pop_cons
      try_pop_inv simp del: length_spsc_contents)

subsection \<open>Properties of the queue\<close>

text \<open>\<open>try_push\<close> accepts an element exactly when fewer than \<open>Capacity\<close> elements are queued,
  appends it at the end of the queue, and otherwise changes nothing; the counters may be anywhere,
  in particular about to wrap around.\<close>

lemma try_push_refines:
  assumes "spsc_inv q"
  shows "(case try_push x q of (ok, q') \<Rightarrow> spsc_inv q' \<and> sq_capacity q' = sq_capacity q \<and>
     (ok \<longleftrightarrow> length (spsc_contents q) < sq_capacity q) \<and>
     spsc_contents q' = (if ok then spsc_contents q @ [x] else spsc_contents q) \<and>
     (ok \<or> q' = q))"
  using spsc.push_accepts_iff [OF assms, of x] spsc.push_contents [OF assms, of x]
    spsc.push_inv [OF assms, of x] spsc_capacity_const(1) [of x q] try_push_full [OF assms, of x]
    spsc_bounded [OF assms]
  by (cases "try_push x q"; cases "length (spsc_contents q) < sq_capacity q")
    (auto simp del: length_spsc_contents)

text \<open>The queue of the witnesses: four cells, counters two steps before the 64-bit wrap-around.\<close>

definition wrap_queue :: "nat SPSCQueue" where
  "wrap_queue = \<lparr>sq_capacity = 4, sq_head = - 2, sq_tail = 1, sq_buffer = [30, 99, 10, 20]\<rparr>"

lemma wrap_queue_inv: "spsc_inv wrap_queue"
  by (simp add: spsc_inv_def wrap_queue_def is_pow2I [of 4 2])

text \<open>\<open>try_pop\<close> returns and removes the oldest element, and returns nothing and changes nothing
  exactly when the queue is empty.\<close>

lemma try_pop_refines:
  assumes "spsc_inv q"
  shows "(case try_pop q of (r, q') \<Rightarrow> spsc_inv q' \<and> sq_capacity q' = sq_capacity q \<and>
     (case spsc_contents q of [] \<Rightarrow> r = None \<and> q' = q
      | x # xs \<Rightarrow> r = Some x \<and> spsc_contents q' = xs))"
  using assms try_pop_empty [of q] try_pop_cons [OF assms] spsc_capacity_const(2) [of q]
  by (cases "spsc_contents q"; cases "try_pop q") auto

text \<open>Over any sequence of pushes and pops on a new queue, the delivered elements followed by
  the queued ones are exactly the accepted elements, in order, and never more than \<open>Capacity\<close> are
  queued: nothing is lost, duplicated or reordered.\<close>

lemma spsc_run_fifo:
  assumes "is_pow2 cap" and "fifo_run try_push try_pop ops (SPSCQueue_init cap d) = (ins, outs, q')"
  shows "ins = outs @ spsc_contents q' \<and> length (spsc_contents q') \<le> cap"
  using spsc.run_fifo [OF spsc_inv_init [OF assms(1)] assms(2)] spsc.bounded [of q']
  by simp

end
