(* ===== verification/Spsc_Concurrent.thy ===== *)
theory Spsc_Concurrent
  imports Spsc_Queue
begin

section \<open>Two threads on the statistics queue\<close>

text \<open>
  One producer thread runs \<open>try_push\<close> and one consumer thread runs \<open>try_pop\<close>, interleaved at the
  granularity of the individual loads and stores of \<open>spsc_queue.hpp\<close>. Each thread has a program
  counter that holds the local variables of the call it is in.

  Memory orders. Each counter is written by one thread only, so that thread's relaxed load of its
  own counter is exact. The acquire load of the other thread's counter may return \<^emph>\<open>any\<close> value
  the counter has had since the newest value this thread has already seen: that is what coherence of
  a single atomic variable allows, and sequentially consistent interleaving is the special case in
  which the load returns the newest value. The release stores of \<open>tail_\<close> and \<open>head_\<close> order the
  cell accesses before them, so a cell is read with the contents it had when the counter value that
  covers it was published; the absence of a race on cells, which makes a single shared array an
  adequate model of them, is itself a theorem below.

  The fields \<open>g_head\<close> and \<open>g_tail\<close> count the stores to the two counters without wrapping around,
  \<open>g_seen_head\<close> and \<open>g_seen_tail\<close> are the newest values of the other thread's counter that
  each thread has loaded, and \<open>g_pushed\<close> and \<open>g_popped\<close> record the completed calls; the program has
  none of these fields and no step depends on them except through the admissible loads.
\<close>

datatype 'a producer_pc =
    P_Idle
  | P_Tail 'a u64 \<comment> \<open>\<open>tail\<close> loaded\<close>
  | P_Head 'a u64 u64 \<comment> \<open>\<open>tail\<close> and \<open>head\<close> loaded\<close>
  | P_Stored 'a u64 \<comment> \<open>cell written, \<open>tail_\<close> not yet published\<close>

datatype 'a consumer_pc =
    C_Idle
  | C_Head u64
  | C_Tail u64 u64
  | C_Read u64 'a \<comment> \<open>cell read, \<open>head_\<close> not yet published\<close>

record 'a spsc_sys =
  cs_capacity :: nat
  cs_head :: u64
  cs_tail :: u64
  cs_buffer :: "'a list"
  cs_producer :: "'a producer_pc"
  cs_consumer :: "'a consumer_pc"
  g_head :: nat
  g_tail :: nat
  g_seen_head :: nat
  g_seen_tail :: nat
  g_pushed :: "'a list"
  g_popped :: "'a list"

definition spsc_sys_init :: "nat \<Rightarrow> 'a \<Rightarrow> 'a spsc_sys" where
  "spsc_sys_init cap d = \<lparr>cs_capacity = cap, cs_head = 0, cs_tail = 0, cs_buffer = replicate cap d,
     cs_producer = P_Idle, cs_consumer = C_Idle, g_head = 0, g_tail = 0, g_seen_head = 0,
     g_seen_tail = 0, g_pushed = [], g_popped = []\<rparr>"

inductive producer_step :: "'a spsc_sys \<Rightarrow> 'a spsc_sys \<Rightarrow> bool" where
  push_load_tail: "cs_producer s = P_Idle \<Longrightarrow>
     producer_step s (s\<lparr>cs_producer := P_Tail item (cs_tail s)\<rparr>)"
| push_load_head: "cs_producer s = P_Tail item tail \<Longrightarrow> g_seen_head s \<le> h \<Longrightarrow> h \<le> g_head s \<Longrightarrow>
     producer_step s (s\<lparr>cs_producer := P_Head item tail (of_nat h), g_seen_head := h\<rparr>)"
| push_full: "cs_producer s = P_Head item tail head \<Longrightarrow> tail - head \<ge> of_nat (cs_capacity s) \<Longrightarrow>
     producer_step s (s\<lparr>cs_producer := P_Idle\<rparr>)"
| push_write: "cs_producer s = P_Head item tail head \<Longrightarrow> \<not> tail - head \<ge> of_nat (cs_capacity s) \<Longrightarrow>
     producer_step s (s\<lparr>cs_buffer := (cs_buffer s)[ring_idx (cs_capacity s) tail := item],
       cs_producer := P_Stored item tail\<rparr>)"
| push_publish: "cs_producer s = P_Stored item tail \<Longrightarrow>
     producer_step s (s\<lparr>cs_tail := tail + 1, cs_producer := P_Idle, g_tail := g_tail s + 1,
       g_pushed := g_pushed s @ [item]\<rparr>)"

inductive consumer_step :: "'a spsc_sys \<Rightarrow> 'a spsc_sys \<Rightarrow> bool" where
  pop_load_head: "cs_consumer s = C_Idle \<Longrightarrow>
     consumer_step s (s\<lparr>cs_consumer := C_Head (cs_head s)\<rparr>)"
| pop_load_tail: "cs_consumer s = C_Head head \<Longrightarrow> g_seen_tail s \<le> t \<Longrightarrow> t \<le> g_tail s \<Longrightarrow>
     consumer_step s (s\<lparr>cs_consumer := C_Tail head (of_nat t), g_seen_tail := t\<rparr>)"
| pop_empty: "cs_consumer s = C_Tail head tail \<Longrightarrow> head = tail \<Longrightarrow>
     consumer_step s (s\<lparr>cs_consumer := C_Idle\<rparr>)"
| pop_read: "cs_consumer s = C_Tail head tail \<Longrightarrow> head \<noteq> tail \<Longrightarrow>
     consumer_step s (s\<lparr>cs_consumer := C_Read head (cs_buffer s ! ring_idx (cs_capacity s) head)\<rparr>)"
| pop_publish: "cs_consumer s = C_Read head item \<Longrightarrow>
     consumer_step s (s\<lparr>cs_head := head + 1, cs_consumer := C_Idle, g_head := g_head s + 1,
       g_popped := g_popped s @ [item]\<rparr>)"

inductive spsc_reachable :: "nat \<Rightarrow> 'a \<Rightarrow> 'a spsc_sys \<Rightarrow> bool" for cap d where
  start: "spsc_reachable cap d (spsc_sys_init cap d)"
| producer: "spsc_reachable cap d s \<Longrightarrow> producer_step s t \<Longrightarrow> spsc_reachable cap d t"
| consumer: "spsc_reachable cap d s \<Longrightarrow> consumer_step s t \<Longrightarrow> spsc_reachable cap d t"

subsection \<open>The inductive invariant\<close>

definition producer_ok :: "'a spsc_sys \<Rightarrow> bool" where
  "producer_ok s \<longleftrightarrow> (case cs_producer s of
      P_Idle \<Rightarrow> True
    | P_Tail item tail \<Rightarrow> tail = of_nat (g_tail s)
    | P_Head item tail head \<Rightarrow> tail = of_nat (g_tail s) \<and> head = of_nat (g_seen_head s)
    | P_Stored item tail \<Rightarrow> tail = of_nat (g_tail s) \<and> g_tail s < g_seen_head s + cs_capacity s \<and>
        cs_buffer s ! (g_tail s mod cs_capacity s) = item)"

definition consumer_ok :: "'a spsc_sys \<Rightarrow> bool" where
  "consumer_ok s \<longleftrightarrow> (case cs_consumer s of
      C_Idle \<Rightarrow> True
    | C_Head head \<Rightarrow> head = of_nat (g_head s)
    | C_Tail head tail \<Rightarrow> head = of_nat (g_head s) \<and> tail = of_nat (g_seen_tail s)
    | C_Read head item \<Rightarrow> head = of_nat (g_head s) \<and> g_head s < g_seen_tail s \<and>
        item = g_pushed s ! g_head s)"

definition shared_ok :: "'a spsc_sys \<Rightarrow> bool" where
  "shared_ok s \<longleftrightarrow> is_pow2 (cs_capacity s) \<and> length (cs_buffer s) = cs_capacity s \<and>
     cs_head s = of_nat (g_head s) \<and> cs_tail s = of_nat (g_tail s) \<and>
     g_seen_head s \<le> g_head s \<and> g_head s \<le> g_seen_tail s \<and> g_seen_tail s \<le> g_tail s \<and>
     g_tail s \<le> g_seen_head s + cs_capacity s \<and>
     length (g_pushed s) = g_tail s \<and> g_popped s = take (g_head s) (g_pushed s) \<and>
     (\<forall>i. g_head s \<le> i \<and> i < g_tail s \<longrightarrow> cs_buffer s ! (i mod cs_capacity s) = g_pushed s ! i)"

definition spsc_sys_inv :: "'a spsc_sys \<Rightarrow> bool" where
  "spsc_sys_inv s \<longleftrightarrow> shared_ok s \<and> producer_ok s \<and> consumer_ok s"

lemmas spsc_sys_defs = spsc_sys_inv_def shared_ok_def producer_ok_def consumer_ok_def

lemma spsc_sys_inv_init: "is_pow2 cap \<Longrightarrow> spsc_sys_inv (spsc_sys_init cap d)"
  by (simp add: spsc_sys_defs spsc_sys_init_def)

lemma ring_idx_of_nat: "is_pow2 n \<Longrightarrow> ring_idx n (of_nat i) = i mod n"
  using ring_idx_add [of n 0 i] by simp

text \<open>Distances of at most the capacity survive the passage to wrapped counters.\<close>

lemma wrapped_distance:
  assumes "is_pow2 n" "a \<le> b" "b \<le> a + n"
  shows "unat (of_nat b - of_nat a :: u64) = b - a"
proof -
  have "b - a < 2 ^ 64" using assms is_pow2_lt [of n] by linarith
  moreover have "(of_nat b - of_nat a :: u64) = of_nat (b - a)" using assms by simp
  ultimately show ?thesis by (simp add: unat_of_nat)
qed

lemma wrapped_full_iff:
  assumes "is_pow2 n" "a \<le> b" "b \<le> a + n"
  shows "(of_nat b - of_nat a :: u64) \<ge> of_nat n \<longleftrightarrow> b = a + n"
  using wrapped_distance [OF assms] assms by (auto simp: word_le_nat_alt unat_cap)

lemma wrapped_eq_iff:
  assumes "is_pow2 n" "a \<le> b" "b \<le> a + n"
  shows "(of_nat a :: u64) = of_nat b \<longleftrightarrow> a = b"
proof
  assume "(of_nat a :: u64) = of_nat b"
  then have "unat (of_nat b - of_nat a :: u64) = 0" by simp
  then show "a = b" using wrapped_distance [OF assms] assms(2) by simp
qed simp

lemma mod_distinct_cells:
  assumes "is_pow2 n" "a \<le> i" "i < j" "j < a + n"
  shows "i mod n \<noteq> j mod n"
  using mod_add_eq_cancel [of "i - a" n "j - a" a] assms by auto

text \<open>What each thread's assertion depends on: the other thread keeps it.\<close>

lemma consumer_ok_frame:
  assumes "cs_consumer t = cs_consumer s" "g_head t = g_head s" "g_seen_tail t = g_seen_tail s"
    and "\<And>i. i < g_seen_tail s \<Longrightarrow> g_pushed t ! i = g_pushed s ! i"
  shows "consumer_ok s \<Longrightarrow> consumer_ok t"
  by (cases "cs_consumer s") (simp_all add: consumer_ok_def assms)

lemma producer_ok_frame:
  assumes "cs_producer t = cs_producer s" "g_tail t = g_tail s" "g_seen_head t = g_seen_head s"
    and "cs_capacity t = cs_capacity s" "cs_buffer t = cs_buffer s"
  shows "producer_ok s \<Longrightarrow> producer_ok t"
  by (cases "cs_producer s") (simp_all add: producer_ok_def assms)

lemma shared_ok_order:
  "shared_ok s \<Longrightarrow> g_seen_head s \<le> g_head s \<and> g_head s \<le> g_seen_tail s \<and> g_seen_tail s \<le> g_tail s \<and>
     g_tail s \<le> g_seen_head s + cs_capacity s"
  by (simp add: shared_ok_def)

lemma shared_ok_write:
  assumes "shared_ok s" "g_tail s < g_seen_head s + cs_capacity s"
  shows "shared_ok (s\<lparr>cs_buffer := (cs_buffer s)[g_tail s mod cs_capacity s := item], cs_producer := p\<rparr>)"
proof -
  have "g_tail s mod cs_capacity s \<noteq> i mod cs_capacity s" if "g_head s \<le> i" "i < g_tail s" for i
    using mod_distinct_cells [OF _ that, of "cs_capacity s"] assms by (auto simp: shared_ok_def)
  then show ?thesis using assms by (simp add: shared_ok_def)
qed

lemma shared_ok_publish_tail:
  assumes "shared_ok s" "g_tail s < g_seen_head s + cs_capacity s"
    and "cs_buffer s ! (g_tail s mod cs_capacity s) = item"
  shows "shared_ok (s\<lparr>cs_tail := of_nat (g_tail s) + 1, cs_producer := p, g_tail := g_tail s + 1,
    g_pushed := g_pushed s @ [item]\<rparr>)"
  using assms by (auto simp: shared_ok_def nth_append less_Suc_eq)

lemma shared_ok_publish_head:
  assumes "shared_ok s" "g_head s < g_seen_tail s" "item = g_pushed s ! g_head s"
  shows "shared_ok (s\<lparr>cs_head := of_nat (g_head s) + 1, cs_consumer := c, g_head := g_head s + 1,
    g_popped := g_popped s @ [item]\<rparr>)"
  using assms by (auto simp: shared_ok_def take_Suc_conv_app_nth)

lemma producer_step_inv:
  assumes "producer_step s t" "shared_ok s" "producer_ok s" "consumer_ok s"
  shows "shared_ok t \<and> producer_ok t \<and> consumer_ok t"
proof -
  have len: "length (g_pushed s) = g_tail s" and n: "is_pow2 (cs_capacity s)"
    and buf: "length (cs_buffer s) = cs_capacity s"
    using assms(2) by (auto simp: shared_ok_def)
  note ord = shared_ok_order [OF assms(2)]
  have c: "consumer_ok t"
    using assms(1) by cases (rule consumer_ok_frame [OF _ _ _ _ assms(4)], use len ord in
      \<open>auto simp: nth_append\<close>)+
  show ?thesis
    using assms(1)
  proof cases
    case (push_write item tail head)
    then have t: "tail = of_nat (g_tail s)" and room: "g_tail s < g_seen_head s + cs_capacity s"
      using assms(3) ord wrapped_full_iff [OF n, of "g_seen_head s" "g_tail s"]
      by (auto simp: producer_ok_def)
    show ?thesis using c shared_ok_write [OF assms(2) room] room n t buf is_pow2_gt0 [OF n]
      by (simp add: push_write(1) ring_idx_of_nat producer_ok_def)
  next
    case (push_publish item tail)
    then show ?thesis using c shared_ok_publish_tail [OF assms(2)] assms(3) by (simp add: producer_ok_def)
  qed (use c assms(2,3) ord in \<open>auto simp: producer_ok_def shared_ok_def\<close>)
qed

lemma consumer_step_inv:
  assumes "consumer_step s t" "shared_ok s" "producer_ok s" "consumer_ok s"
  shows "shared_ok t \<and> producer_ok t \<and> consumer_ok t"
proof -
  have n: "is_pow2 (cs_capacity s)" using assms(2) by (auto simp: shared_ok_def)
  note ord = shared_ok_order [OF assms(2)]
  have p: "producer_ok t"
    using assms(1) by cases (rule producer_ok_frame [OF _ _ _ _ _ assms(3)], simp_all)+
  show ?thesis
    using assms(1)
  proof cases
    case (pop_read head tail)
    then have h: "head = of_nat (g_head s)" and "g_head s \<noteq> g_seen_tail s"
      using assms(4) by (auto simp: consumer_ok_def)
    then have ne: "g_head s < g_seen_tail s" using ord by simp
    have "cs_buffer s ! (g_head s mod cs_capacity s) = g_pushed s ! g_head s"
      using assms(2) ne by (auto simp: shared_ok_def)
    then show ?thesis
      using p assms(2) ne n h by (simp add: pop_read(1) consumer_ok_def shared_ok_def ring_idx_of_nat)
  next
    case (pop_publish head item)
    then show ?thesis using p shared_ok_publish_head [OF assms(2)] assms(4) by (simp add: consumer_ok_def)
  qed (use p assms(2,4) ord in \<open>auto simp: consumer_ok_def shared_ok_def\<close>)
qed

lemma step_capacity:
  "producer_step s t \<Longrightarrow> cs_capacity t = cs_capacity s"
  "consumer_step s t \<Longrightarrow> cs_capacity t = cs_capacity s"
  by (erule producer_step.cases, simp_all) (erule consumer_step.cases, simp_all)

lemma spsc_reachable_inv: "spsc_reachable cap d s \<Longrightarrow> is_pow2 cap \<Longrightarrow> spsc_sys_inv s \<and> cs_capacity s = cap"
proof (induction rule: spsc_reachable.induct)
  case start
  then show ?case by (simp add: spsc_sys_inv_init) (simp add: spsc_sys_init_def)
next
  case (producer s t)
  then show ?case using producer_step_inv [of s t] step_capacity(1) [of s t] by (simp add: spsc_sys_inv_def)
next
  case (consumer s t)
  then show ?case using consumer_step_inv [of s t] step_capacity(2) [of s t] by (simp add: spsc_sys_inv_def)
qed

inductive_cases producer_from_tail: "producer_step s t"
inductive_cases consumer_from_head: "consumer_step s t"

subsection \<open>Safety and progress of the two threads\<close>

text \<open>C1: In every interleaving of the two threads, with arbitrarily stale acquire loads, the elements
  delivered by \<open>try_pop\<close> are a prefix of the elements accepted by \<open>try_push\<close>, in order, and at most
  \<open>Capacity\<close> accepted elements are undelivered.\<close>

theorem spsc_concurrent_fifo:
  assumes "is_pow2 cap" and "spsc_reachable cap d s"
  shows "g_popped s = take (length (g_popped s)) (g_pushed s) \<and>
    length (g_pushed s) \<le> length (g_popped s) + cap"
  using spsc_reachable_inv [OF assms(2,1)] by (auto simp: spsc_sys_inv_def shared_ok_def)

text \<open>C4: There is no data race on a cell: when the producer is about to write a cell and the consumer
  is about to read one, they are different cells.\<close>

theorem spsc_no_data_race:
  assumes "is_pow2 cap" and "spsc_reachable cap d s"
    and "cs_producer s = P_Head item tail head'" and "\<not> tail - head' \<ge> of_nat cap"
    and "cs_consumer s = C_Tail head tail'" and "head \<noteq> tail'"
  shows "ring_idx cap tail \<noteq> ring_idx cap head"
proof -
  have sh: "shared_ok s" and pr: "producer_ok s" and co: "consumer_ok s" and cap: "cs_capacity s = cap"
    using spsc_reachable_inv [OF assms(2,1)] by (auto simp: spsc_sys_inv_def)
  note ord = shared_ok_order [OF sh]
  have t: "tail = of_nat (g_tail s)" and h': "head' = of_nat (g_seen_head s)"
    using pr assms(3) by (auto simp: producer_ok_def)
  have h: "head = of_nat (g_head s)" and ne: "g_head s \<noteq> g_seen_tail s"
    using co assms(5,6) by (auto simp: consumer_ok_def)
  have "g_tail s < g_seen_head s + cap"
    using wrapped_full_iff [OF assms(1), of "g_seen_head s" "g_tail s"] assms(4) ord cap t h' by auto
  then have "g_head s mod cap \<noteq> g_tail s mod cap"
    using mod_distinct_cells [OF assms(1), of "g_head s" "g_head s" "g_tail s"] ord ne by simp
  then show ?thesis using t h assms(1) by (simp add: ring_idx_of_nat)
qed

text \<open>The number of steps a thread still needs to finish the call it is in.\<close>

definition producer_rank :: "'a spsc_sys \<Rightarrow> nat" where
  "producer_rank s = (case cs_producer s of P_Idle \<Rightarrow> 0 | P_Tail _ _ \<Rightarrow> 3 | P_Head _ _ _ \<Rightarrow> 2 | P_Stored _ _ \<Rightarrow> 1)"

definition consumer_rank :: "'a spsc_sys \<Rightarrow> nat" where
  "consumer_rank s = (case cs_consumer s of C_Idle \<Rightarrow> 0 | C_Head _ \<Rightarrow> 3 | C_Tail _ _ \<Rightarrow> 2 | C_Read _ _ \<Rightarrow> 1)"

lemma producer_enabled: "shared_ok s \<Longrightarrow> \<exists>t. producer_step s t"
  using shared_ok_order [of s]
  by (cases "cs_producer s") (blast intro: producer_step.intros)+

lemma consumer_enabled: "shared_ok s \<Longrightarrow> \<exists>t. consumer_step s t"
  using shared_ok_order [of s]
  by (cases "cs_consumer s") (blast intro: consumer_step.intros)+

lemma producer_step_rank: "producer_step s t \<Longrightarrow> cs_producer s \<noteq> P_Idle \<Longrightarrow>
    producer_rank t < producer_rank s \<and> consumer_rank t = consumer_rank s"
  by (erule producer_from_tail) (simp_all add: producer_rank_def consumer_rank_def)

lemma consumer_step_rank: "consumer_step s t \<Longrightarrow> cs_consumer s \<noteq> C_Idle \<Longrightarrow>
    consumer_rank t < consumer_rank s \<and> producer_rank t = producer_rank s"
  by (erule consumer_from_head) (simp_all add: producer_rank_def consumer_rank_def)


subsection \<open>A concrete interleaving\<close>

text \<open>
  On a queue with two cells the producer has pushed 7, has loaded both counters for its next push, and
  the consumer has loaded both counters for its first pop.
\<close>

definition busy_sys :: "nat spsc_sys" where
  "busy_sys = \<lparr>cs_capacity = 2, cs_head = 0, cs_tail = 1, cs_buffer = [7, 0],
     cs_producer = P_Head 8 1 0, cs_consumer = C_Tail 0 1, g_head = 0, g_tail = 1, g_seen_head = 0,
     g_seen_tail = 1, g_pushed = [7], g_popped = []\<rparr>"

lemma two_is_pow2: "is_pow2 2"
  by (rule is_pow2I [of _ 1]) simp_all

lemma busy_sys_reachable: "spsc_reachable 2 0 busy_sys"
proof -
  let ?s0 = "spsc_sys_init 2 (0 :: nat)"
  let ?s1 = "?s0\<lparr>cs_producer := P_Tail 7 0\<rparr>"
  let ?s2 = "?s1\<lparr>cs_producer := P_Head 7 0 0\<rparr>"
  let ?s3 = "?s2\<lparr>cs_buffer := [7, 0], cs_producer := P_Stored 7 0\<rparr>"
  let ?s4 = "?s3\<lparr>cs_tail := 1, cs_producer := P_Idle, g_tail := 1, g_pushed := [7]\<rparr>"
  let ?s5 = "?s4\<lparr>cs_producer := P_Tail 8 1\<rparr>"
  let ?s6 = "?s5\<lparr>cs_producer := P_Head 8 1 0\<rparr>"
  let ?s7 = "?s6\<lparr>cs_consumer := C_Head 0\<rparr>"
  note simps = spsc_sys_init_def numeral_2_eq_2 ring_idx_def
  have "spsc_reachable 2 0 ?s1"
    using spsc_reachable.producer [OF spsc_reachable.start push_load_tail [of ?s0 7]] by (simp add: simps)
  then have "spsc_reachable 2 0 ?s2"
    using spsc_reachable.producer [OF _ push_load_head [of ?s1 7 0 0]] by (simp add: simps)
  then have "spsc_reachable 2 0 ?s3"
    using spsc_reachable.producer [OF _ push_write [of ?s2 7 0 0]] by (simp add: simps)
  then have "spsc_reachable 2 0 ?s4"
    using spsc_reachable.producer [OF _ push_publish [of ?s3 7 0]] by (simp add: simps)
  then have "spsc_reachable 2 0 ?s5"
    using spsc_reachable.producer [OF _ push_load_tail [of ?s4 8]] by (simp add: simps)
  then have "spsc_reachable 2 0 ?s6"
    using spsc_reachable.producer [OF _ push_load_head [of ?s5 8 1 0]] by (simp add: simps)
  then have "spsc_reachable 2 0 ?s7"
    using spsc_reachable.consumer [OF _ pop_load_head [of ?s6]] by (simp add: simps)
  then show ?thesis
    using spsc_reachable.consumer [OF _ pop_load_tail [of ?s7 0 1]] by (simp add: simps busy_sys_def)
qed

lemma spsc_concurrent_fifo_witness:
  "g_popped busy_sys = take (length (g_popped busy_sys)) (g_pushed busy_sys) \<and>
   length (g_pushed busy_sys) = 1"
  using spsc_concurrent_fifo [OF two_is_pow2 busy_sys_reachable] by (simp add: busy_sys_def)

lemma spsc_no_data_race_witness: "ring_idx 2 1 \<noteq> ring_idx 2 0"
  by (rule spsc_no_data_race [OF two_is_pow2 busy_sys_reachable, of 8 1 0 0 1])
    (simp_all add: busy_sys_def word_le_nat_alt)


end
