(* ===== verification/Wire_Words.thy ===== *)
theory Wire_Words
  imports Prelude
begin

section \<open>Integers as bytes\<close>

text \<open>
  The parser, the control protocol and the structures copied into messages all take integers apart
  into bytes and put them together again. This theory has the byte lists of a word in both orders
  (\<open>be\<close>: most significant byte first, \<open>le\<close>: least significant first), the words assembled from bytes,
  and the round trips between them.
\<close>

definition be16 :: "u8 \<Rightarrow> u8 \<Rightarrow> u16" where
  "be16 b0 b1 = push_bit 8 (ucast b0) OR ucast b1"

definition be32 :: "u8 \<Rightarrow> u8 \<Rightarrow> u8 \<Rightarrow> u8 \<Rightarrow> u32" where
  "be32 b0 b1 b2 b3 = push_bit 24 (ucast b0) OR push_bit 16 (ucast b1) OR push_bit 8 (ucast b2) OR ucast b3"

definition byte_of :: "nat \<Rightarrow> 'a::len word \<Rightarrow> u8" where
  "byte_of k w = ucast (drop_bit (8 * k) w)"

definition be16_bytes :: "u16 \<Rightarrow> bytes" where
  "be16_bytes w = [byte_of 1 w, byte_of 0 w]"

definition be32_bytes :: "u32 \<Rightarrow> bytes" where
  "be32_bytes w = [byte_of 3 w, byte_of 2 w, byte_of 1 w, byte_of 0 w]"

lemma length_be_bytes [simp]: "length (be16_bytes w) = 2" "length (be32_bytes v) = 4"
  by (simp_all add: be16_bytes_def be32_bytes_def)

lemma bit_byte_of [bit_simps]: "bit (byte_of k (w :: 'a::len word)) n \<longleftrightarrow> n < 8 \<and> bit w (8 * k + n)"
  by (auto simp: byte_of_def bit_simps bit_imp_le_length)

lemma less_8_cases: "n < (8::nat) \<Longrightarrow> n \<in> {0,1,2,3,4,5,6,7}"
  by auto

lemma bit_be16: "bit (be16 b0 b1) n \<longleftrightarrow> (if n < 8 then bit b1 n else n < 16 \<and> bit b0 (n - 8))"
  using bit_imp_le_length [of b1 n] bit_imp_le_length [of b0 "n - 8"]
  by (auto simp: be16_def bit_simps)

lemma bit_be32: "bit (be32 b0 b1 b2 b3) n \<longleftrightarrow>
   (if n < 8 then bit b3 n else if n < 16 then bit b2 (n - 8)
    else if n < 24 then bit b1 (n - 16) else n < 32 \<and> bit b0 (n - 24))"
  using bit_imp_le_length [of b3 n] bit_imp_le_length [of b2 "n - 8"] bit_imp_le_length [of b1 "n - 16"]
    bit_imp_le_length [of b0 "n - 24"]
  by (auto simp: be32_def bit_simps)

lemma be16_byte_of [simp]: "be16 (byte_of (Suc 0) w) (byte_of 0 w) = w"
  by (rule bit_word_eqI) (auto simp: bit_be16 bit_byte_of)

lemma be32_byte_of [simp]: "be32 (byte_of 3 w) (byte_of 2 w) (byte_of (Suc 0) w) (byte_of 0 w) = w"
  by (rule bit_word_eqI) (auto simp: bit_be32 bit_byte_of)

lemma byte_of_be16 [simp]: "byte_of 0 (be16 b0 b1) = b1" "byte_of (Suc 0) (be16 b0 b1) = b0"
  by (rule bit_word_eqI; simp add: bit_be16 bit_byte_of)+

lemma byte_of_be32 [simp]:
  "byte_of 0 (be32 b0 b1 b2 b3) = b3" "byte_of (Suc 0) (be32 b0 b1 b2 b3) = b2"
  "byte_of 2 (be32 b0 b1 b2 b3) = b1" "byte_of 3 (be32 b0 b1 b2 b3) = b0"
  by (rule bit_word_eqI; simp add: bit_be32 bit_byte_of)+

definition be64_bytes :: "u64 \<Rightarrow> bytes" where
  "be64_bytes w = be32_bytes (ucast (drop_bit 32 w)) @ be32_bytes (ucast w)"

lemma length_be64_bytes [simp]: "length (be64_bytes w) = 8"
  by (simp add: be64_bytes_def)

text \<open>Masking before a narrowing conversion changes nothing.\<close>

lemma ucast_and_mask:
  assumes "LENGTH('b) \<le> n"
  shows "(ucast (w AND mask n :: 'a::len word) :: 'b::len word) = ucast w"
  using assms by (intro bit_word_eqI) (auto simp: bit_simps dest: bit_imp_le_length)

lemma ucast_and_FF [simp]:
  "(ucast (v AND 0xFF :: u16) :: u8) = ucast v" "(ucast (w AND 0xFF :: u32) :: u8) = ucast w"
  "(ucast (x AND 0xFFFFFFFF :: u64) :: u32) = ucast x"
  using ucast_and_mask [where 'b = 8 and n = 8 and w = v] ucast_and_mask [where 'b = 8 and n = 8 and w = w]
    ucast_and_mask [where 'b = 32 and n = 32 and w = x]
  by (simp_all add: mask_eq_exp_minus_1)

lemma ucast_up_inj:
  fixes a b :: "'a::len word"
  assumes "(ucast a :: 'b::len word) = ucast b" "LENGTH('a) \<le> LENGTH('b)"
  shows "a = b"
proof (rule bit_word_eqI)
  fix n assume n: "n < LENGTH('a)"
  have "bit (ucast a :: 'b word) n = bit (ucast b :: 'b word) n" using assms(1) by simp
  then show "bit a n = bit b n" using n assms(2) by (simp add: bit_ucast_iff)
qed

subsection \<open>Exclusive or\<close>

lemma xor_right_cancel: "v XOR b = w XOR b \<Longrightarrow> v = (w :: 'a::len word)"
  by (drule arg_cong [of _ _ "\<lambda>x. x XOR b"]) (simp add: xor.assoc)

lemma xor_left_cancel: "b XOR v = b XOR w \<Longrightarrow> v = (w :: 'a::len word)"
  by (drule arg_cong [of _ _ "\<lambda>x. b XOR x"]) (simp add: xor.assoc [symmetric])

lemma xor_cancel_left: "a XOR (a XOR b) = (b :: 'a::len word)"
  by (simp add: xor.assoc [symmetric])

lemma xor_eq_0D: "v XOR w = 0 \<Longrightarrow> v = (w :: 'a::len word)"
  by (drule arg_cong [of _ _ "\<lambda>x. x XOR w"]) (simp add: xor.assoc)

subsection \<open>Little-endian object representation\<close>

definition le_bytes :: "nat \<Rightarrow> 'a::len word \<Rightarrow> bytes" where
  "le_bytes n w = map (\<lambda>k. byte_of k w) [0..<n]"

fun le_val :: "bytes \<Rightarrow> 'a::len word" where
  "le_val [] = 0"
| "le_val (b # bs) = ucast b OR push_bit 8 (le_val bs)"

lemma length_le_bytes [simp]: "length (le_bytes n w) = n"
  by (simp add: le_bytes_def)

lemma bit_le_val: "bit (le_val bs :: 'a::len word) n \<longleftrightarrow> n < LENGTH('a) \<and> n div 8 < length bs \<and> bit (bs ! (n div 8)) (n mod 8)"
proof (induction bs arbitrary: n)
  case (Cons b bs)
  show ?case
  proof (cases "n < 8")
    case True
    then show ?thesis by (auto simp: bit_simps)
  next
    case False
    then have "n div 8 = Suc ((n - 8) div 8)" "n mod 8 = (n - 8) mod 8" by (simp_all add: le_div_geq le_mod_geq)
    moreover have "\<not> bit b n" using False by (auto dest: bit_imp_le_length)
    ultimately show ?thesis using False Cons.IH [of "n - 8"] by (auto simp: bit_simps)
  qed
qed simp

lemma le_val_le_bytes [simp]:
  assumes "LENGTH('a) = 8 * n"
  shows "le_val (le_bytes n w) = (w :: 'a::len word)"
proof (rule bit_word_eqI)
  fix m assume m: "m < LENGTH('a)"
  then have "m div 8 < n" using assms by auto
  moreover have "8 * (m div 8) + m mod 8 = m" by simp
  ultimately show "bit (le_val (le_bytes n w) :: 'a word) m = bit w m"
    using m by (simp add: bit_le_val le_bytes_def bit_byte_of)
qed

lemma le_bytes_le_val [simp]:
  assumes "LENGTH('a) = 8 * n" "length bs = n"
  shows "le_bytes n (le_val bs :: 'a::len word) = bs"
proof (rule nth_equalityI)
  fix i assume "i < length (le_bytes n (le_val bs :: 'a word))"
  then have i: "i < n" by simp
  show "le_bytes n (le_val bs :: 'a word) ! i = bs ! i"
  proof (rule bit_word_eqI)
    fix m assume "m < LENGTH(8)"
    then have "(8 * i + m) div 8 = i" "(8 * i + m) mod 8 = m" "8 * i + m < 8 * n" using i by auto
    then show "bit (le_bytes n (le_val bs :: 'a word) ! i) m = bit (bs ! i) m"
      using assms i \<open>m < LENGTH(8)\<close> by (simp add: le_bytes_def bit_byte_of bit_le_val)
  qed
qed (use assms in simp)

end
