(* ===== verification/Protocol.thy ===== *)
theory Protocol
  imports Chronos_Types Wire_Words "HOL-Library.Monad_Syntax"
begin

section \<open>The control protocol: framing and checksum (\<open>include/chronosx/protocol.hpp\<close>, first half)\<close>

text \<open>
  A control message is a header of 24 bytes, with its integers in big-endian order, and a payload. The
  header carries a CRC-32 over the whole message with the CRC field taken as zero. Spans are byte
  lists; every access goes through the guarded reads and writes of the prelude, so that \<open>None\<close> is an access
  outside a span. Opcodes are bytes, as a message may carry any value there.
\<close>

definition kProtocolMagic :: u16 where "kProtocolMagic = 0x4358"
definition kProtocolVersion :: u8 where "kProtocolVersion = 1"
definition kProtocolHeaderBytes :: nat where "kProtocolHeaderBytes = 24"
definition kMaxControlPayloadBytes :: nat where "kMaxControlPayloadBytes = 64 * 1024"
definition kDefaultMaxRules :: nat where "kDefaultMaxRules = 128"

type_synonym Opcode = u8

definition OpPing :: Opcode where "OpPing = 0x01"
definition OpPong :: Opcode where "OpPong = 0x02"
definition OpGetStats :: Opcode where "OpGetStats = 0x10"
definition OpStatsResponse :: Opcode where "OpStatsResponse = 0x11"
definition OpAddRule :: Opcode where "OpAddRule = 0x20"
definition OpRemoveRule :: Opcode where "OpRemoveRule = 0x21"
definition OpClearRules :: Opcode where "OpClearRules = 0x22"
definition OpListRules :: Opcode where "OpListRules = 0x23"
definition OpRulesResponse :: Opcode where "OpRulesResponse = 0x24"
definition OpError :: Opcode where "OpError = 0xFF"

lemmas Opcode_defs [status_simps] = OpPing_def OpPong_def OpGetStats_def OpStatsResponse_def OpAddRule_def
  OpRemoveRule_def OpClearRules_def OpListRules_def OpRulesResponse_def OpError_def

datatype ProtocolStatus =
  ProtocolOk | BufferTooSmall | PayloadTooLarge | InvalidMagic | InvalidVersion | TruncatedPayload
  | CrcMismatch | UnknownOpcode | InvalidPayload | RuleTableFull | RuleIndexOutOfRange

definition protocol_status_name :: "ProtocolStatus \<Rightarrow> string" where
  "protocol_status_name status = (case status of
      ProtocolOk \<Rightarrow> ''Ok''
    | BufferTooSmall \<Rightarrow> ''BufferTooSmall''
    | PayloadTooLarge \<Rightarrow> ''PayloadTooLarge''
    | InvalidMagic \<Rightarrow> ''InvalidMagic''
    | InvalidVersion \<Rightarrow> ''InvalidVersion''
    | TruncatedPayload \<Rightarrow> ''TruncatedPayload''
    | CrcMismatch \<Rightarrow> ''CrcMismatch''
    | UnknownOpcode \<Rightarrow> ''UnknownOpcode''
    | InvalidPayload \<Rightarrow> ''InvalidPayload''
    | RuleTableFull \<Rightarrow> ''RuleTableFull''
    | RuleIndexOutOfRange \<Rightarrow> ''RuleIndexOutOfRange'')"

record MessageHeader =
  mh_magic :: u16
  mh_version :: u8
  mh_opcode :: Opcode
  mh_sequence :: u32
  mh_payload_length :: u32
  mh_crc32 :: u32
  mh_timestamp_ns :: u64

definition MessageHeader_init :: MessageHeader where
  "MessageHeader_init = \<lparr>mh_magic = kProtocolMagic, mh_version = kProtocolVersion, mh_opcode = OpPing, mh_sequence = 0,
     mh_payload_length = 0, mh_crc32 = 0, mh_timestamp_ns = 0\<rparr>"

record DecodedMessage =
  dm_header :: MessageHeader
  dm_payload :: bytes

record EncodeResult =
  er_status :: ProtocolStatus
  er_bytes_written :: nat

record DecodeResult =
  dr_status :: ProtocolStatus
  dr_message :: DecodedMessage

definition DecodedMessage_init :: DecodedMessage where
  "DecodedMessage_init = \<lparr>dm_header = MessageHeader_init, dm_payload = []\<rparr>"

subsection \<open>Integers in messages\<close>

definition read_u16_be :: "bytes \<Rightarrow> nat \<Rightarrow> u16 option" where
  "read_u16_be bs offset = do {
     b0 \<leftarrow> rd bs offset; b1 \<leftarrow> rd bs (offset + 1);
     Some (push_bit 8 (ucast b0) OR ucast b1)
   }"

definition read_u32_be :: "bytes \<Rightarrow> nat \<Rightarrow> u32 option" where
  "read_u32_be bs offset = do {
     b0 \<leftarrow> rd bs offset; b1 \<leftarrow> rd bs (offset + 1); b2 \<leftarrow> rd bs (offset + 2); b3 \<leftarrow> rd bs (offset + 3);
     Some (push_bit 24 (ucast b0) OR push_bit 16 (ucast b1) OR push_bit 8 (ucast b2) OR ucast b3)
   }"

definition read_u64_be :: "bytes \<Rightarrow> nat \<Rightarrow> u64 option" where
  "read_u64_be bs offset = do {
     hi \<leftarrow> read_u32_be bs offset; lo \<leftarrow> read_u32_be bs (offset + 4);
     Some (push_bit 32 (ucast hi) OR ucast lo)
   }"

definition write_u16_be :: "bytes \<Rightarrow> nat \<Rightarrow> u16 \<Rightarrow> bytes option" where
  "write_u16_be bs offset v = do {
     bs \<leftarrow> wr bs offset (ucast (drop_bit 8 v AND 0xFF));
     wr bs (offset + 1) (ucast (v AND 0xFF))
   }"

definition write_u32_be :: "bytes \<Rightarrow> nat \<Rightarrow> u32 \<Rightarrow> bytes option" where
  "write_u32_be bs offset v = do {
     bs \<leftarrow> wr bs offset (ucast (drop_bit 24 v AND 0xFF));
     bs \<leftarrow> wr bs (offset + 1) (ucast (drop_bit 16 v AND 0xFF));
     bs \<leftarrow> wr bs (offset + 2) (ucast (drop_bit 8 v AND 0xFF));
     wr bs (offset + 3) (ucast (v AND 0xFF))
   }"

definition write_u64_be :: "bytes \<Rightarrow> nat \<Rightarrow> u64 \<Rightarrow> bytes option" where
  "write_u64_be bs offset v = do {
     bs \<leftarrow> write_u32_be bs offset (ucast (drop_bit 32 v AND 0xFFFFFFFF));
     write_u32_be bs (offset + 4) (ucast (v AND 0xFFFFFFFF))
   }"

subsection \<open>CRC-32\<close>

definition kCrc32Polynomial :: u32 where "kCrc32Polynomial = 0xEDB88320"

text \<open>One round of the inner loop of \<open>generate_crc32_table\<close>.\<close>

definition crc_step :: "u32 \<Rightarrow> u32" where
  "crc_step crc = (if crc AND 1 \<noteq> 0 then drop_bit 1 crc XOR kCrc32Polynomial else drop_bit 1 crc)"

definition generate_crc32_table :: "u32 list" where
  "generate_crc32_table = map (\<lambda>index. (crc_step ^^ 8) (of_nat index)) [0..<256]"

definition kCrc32Table :: "u32 list" where "kCrc32Table = generate_crc32_table"

fun crc32_update :: "u32 \<Rightarrow> bytes \<Rightarrow> u32" where
  "crc32_update crc [] = crc"
| "crc32_update crc (b # bs) =
     (let index = (ucast ((crc XOR ucast b) AND 0xFF) :: u8) in
      crc32_update (drop_bit 8 crc XOR kCrc32Table ! unat index) bs)"

definition crc32 :: "bytes \<Rightarrow> u32" where
  "crc32 bs =
     (let crc = 0xFFFFFFFF; crc = crc32_update crc bs in
      crc XOR 0xFFFFFFFF)"

subsection \<open>Encoding and decoding\<close>

definition write_header_without_crc :: "MessageHeader \<Rightarrow> bytes \<Rightarrow> bytes option" where
  "write_header_without_crc header out = do {
     out \<leftarrow> write_u16_be out 0 (mh_magic header);
     out \<leftarrow> wr out 2 (mh_version header);
     out \<leftarrow> wr out 3 (mh_opcode header);
     out \<leftarrow> write_u32_be out 4 (mh_sequence header);
     out \<leftarrow> write_u32_be out 8 (mh_payload_length header);
     out \<leftarrow> write_u32_be out 12 0;
     write_u64_be out 16 (mh_timestamp_ns header)
   }"

text \<open>\<open>memcpy\<close> of a byte list to an offset of a span.\<close>

definition copy_to :: "bytes \<Rightarrow> nat \<Rightarrow> bytes \<Rightarrow> bytes option" where
  "copy_to out offset src =
     (if offset + length src \<le> length out
      then Some (take offset out @ src @ drop (offset + length src) out) else None)"

text \<open>The result and the new contents of the output span; the header is written into its first bytes.\<close>

definition encode_message :: "MessageHeader \<Rightarrow> bytes \<Rightarrow> bytes \<Rightarrow> (EncodeResult \<times> bytes) option" where
  "encode_message header payload out =
     (if length payload > kMaxControlPayloadBytes then Some (\<lparr>er_status = PayloadTooLarge, er_bytes_written = 0\<rparr>, out)
      else
        let total_size = kProtocolHeaderBytes + length payload in
        if length out < total_size then Some (\<lparr>er_status = BufferTooSmall, er_bytes_written = 0\<rparr>, out)
        else do {
          let normalized = header\<lparr>mh_magic := kProtocolMagic, mh_version := kProtocolVersion,
                mh_payload_length := of_nat (length payload), mh_crc32 := 0\<rparr>;
          out \<leftarrow> write_header_without_crc normalized out;
          out \<leftarrow> (if payload \<noteq> [] then copy_to out kProtocolHeaderBytes payload else Some out);
          let computed_crc = crc32 (take total_size out);
          out \<leftarrow> write_u32_be out 12 computed_crc;
          Some (\<lparr>er_status = ProtocolOk, er_bytes_written = total_size\<rparr>, out)
        })"

definition decode_failed :: "ProtocolStatus \<Rightarrow> DecodeResult option" where
  "decode_failed status = Some \<lparr>dr_status = status, dr_message = DecodedMessage_init\<rparr>"

definition read_header :: "bytes \<Rightarrow> MessageHeader option" where
  "read_header input = do {
     magic \<leftarrow> read_u16_be input 0;
     version \<leftarrow> rd input 2;
     opcode \<leftarrow> rd input 3;
     sequence \<leftarrow> read_u32_be input 4;
     payload_length \<leftarrow> read_u32_be input 8;
     crc \<leftarrow> read_u32_be input 12;
     timestamp_ns \<leftarrow> read_u64_be input 16;
     Some \<lparr>mh_magic = magic, mh_version = version, mh_opcode = opcode, mh_sequence = sequence,
       mh_payload_length = payload_length, mh_crc32 = crc, mh_timestamp_ns = timestamp_ns\<rparr>
   }"

text \<open>The sub-span of \<open>n\<close> bytes at an offset.\<close>

definition subspan :: "bytes \<Rightarrow> nat \<Rightarrow> nat \<Rightarrow> bytes option" where
  "subspan bs offset n = (if offset + n \<le> length bs then Some (take n (drop offset bs)) else None)"

definition decode_message :: "bytes \<Rightarrow> DecodeResult option" where
  "decode_message input =
     (if length input < kProtocolHeaderBytes then decode_failed BufferTooSmall
      else do {
        header \<leftarrow> read_header input;
        if mh_magic header \<noteq> kProtocolMagic then decode_failed InvalidMagic
        else if mh_version header \<noteq> kProtocolVersion then decode_failed InvalidVersion
        else if unat (mh_payload_length header) > kMaxControlPayloadBytes then decode_failed PayloadTooLarge
        else
          let total_size = kProtocolHeaderBytes + unat (mh_payload_length header) in
          if length input < total_size then decode_failed TruncatedPayload
          else do {
            header_for_crc \<leftarrow> subspan input 0 kProtocolHeaderBytes;
            header_for_crc \<leftarrow> write_u32_be header_for_crc 12 0;
            let computed_crc = crc32_update 0xFFFFFFFF header_for_crc;
            payload \<leftarrow> subspan input kProtocolHeaderBytes (unat (mh_payload_length header));
            let computed_crc = (if mh_payload_length header > 0 then crc32_update computed_crc payload else computed_crc);
            let computed_crc = computed_crc XOR 0xFFFFFFFF;
            if computed_crc \<noteq> mh_crc32 header then decode_failed CrcMismatch
            else Some \<lparr>dr_status = ProtocolOk, dr_message = \<lparr>dm_header = header, dm_payload = payload\<rparr>\<rparr>
          }
      })"

subsection \<open>The table-driven checksum is the bitwise one\<close>

text \<open>The bit-serial definition of the reflected CRC: every byte is added to the low end of the register and
  shifted out bit by bit.\<close>

definition crc_byte :: "u32 \<Rightarrow> u8 \<Rightarrow> u32" where
  "crc_byte crc b = (crc_step ^^ 8) (crc XOR ucast b)"

abbreviation crc_bytes :: "u32 \<Rightarrow> bytes \<Rightarrow> u32" where
  "crc_bytes \<equiv> foldl crc_byte"

lemma crc_step_bit: "crc_step w = (if bit w 0 then drop_bit 1 w XOR kCrc32Polynomial else drop_bit 1 w)"
  by (simp add: crc_step_def and_one_eq bit_0 odd_iff_mod_2_eq_one)

lemma crc_step_xor: "crc_step (v XOR w) = crc_step v XOR crc_step w"
  by (cases "bit v 0"; cases "bit w 0")
    (simp_all only: crc_step_bit bit_xor_iff drop_bit_xor xor.assoc xor.left_commute xor.commute xor_cancel_left
      simp_thms if_True if_False)

lemma crc_steps_xor: "(crc_step ^^ n) (v XOR w) = (crc_step ^^ n) v XOR (crc_step ^^ n) w"
  by (induction n) (simp_all add: crc_step_xor)

lemma crc_steps_low_zero: "(\<And>i. i < n \<Longrightarrow> \<not> bit w i) \<Longrightarrow> (crc_step ^^ n) w = drop_bit n w"
proof (induction n)
  case (Suc n)
  then have "(crc_step ^^ n) w = drop_bit n w" "\<not> bit (drop_bit n w) 0" by (auto simp: bit_drop_bit_eq)
  then have "(crc_step ^^ Suc n) w = crc_step (drop_bit n w)" "crc_step (drop_bit n w) = drop_bit 1 (drop_bit n w)"
    by (simp_all add: crc_step_bit [of "drop_bit n w"])
  then show ?case by simp
qed simp

lemma length_crc_table [simp]: "length kCrc32Table = 256"
  by (simp add: kCrc32Table_def generate_crc32_table_def)

lemma crc_table_nth: "kCrc32Table ! unat (index :: u8) = (crc_step ^^ 8) (ucast index)"
proof -
  have "unat index < 256" using unsigned_less [of index] by simp
  then show ?thesis by (simp add: kCrc32Table_def generate_crc32_table_def del: funpow.simps)
qed

lemma ucast_low_byte: "(ucast (ucast (x AND 0xFF :: u32) :: u8) :: u32) = x AND mask 8"
  by (rule bit_word_eqI) (auto simp: bit_simps)

lemma crc_table_step: "drop_bit 8 crc XOR kCrc32Table ! unat (ucast ((crc XOR ucast b) AND 0xFF) :: u8) = crc_byte crc b"
proof -
  let ?x = "crc XOR ucast b"
  have split: "?x = (?x AND mask 8) XOR (?x AND NOT (mask 8))"
    by (rule bit_word_eqI) (auto simp: bit_simps)
  have "(crc_step ^^ 8) (?x AND NOT (mask 8)) = drop_bit 8 (?x AND NOT (mask 8))"
    by (rule crc_steps_low_zero) (simp add: bit_simps)
  also have "\<dots> = drop_bit 8 crc"
    by (rule bit_word_eqI) (auto simp: bit_simps dest: bit_imp_le_length)
  finally have "(crc_step ^^ 8) ?x = (crc_step ^^ 8) (?x AND mask 8) XOR drop_bit 8 crc"
    by (subst split) (simp only: crc_steps_xor)
  then show ?thesis unfolding crc_byte_def crc_table_nth ucast_low_byte by (simp only: xor.commute)
qed

lemma crc32_update_bitwise: "crc32_update crc bs = crc_bytes crc bs"
  by (induction bs arbitrary: crc) (simp_all only: crc32_update.simps foldl.simps Let_def crc_table_step)

subsection \<open>Short bursts are always detected\<close>

lemma crc_step_eq_0: "crc_step w = 0 \<Longrightarrow> w = 0"
proof (rule bit_word_eqI)
  fix n assume z: "crc_step w = 0" and n: "n < LENGTH(32)"
  have b: "bit kCrc32Polynomial 31" by (simp add: kCrc32Polynomial_def)
  have "\<not> bit (drop_bit 1 w) 31" using bit_imp_le_length [of w 32] by (auto simp: bit_drop_bit_eq)
  then have 0: "\<not> bit w 0" using z b by (auto simp: crc_step_bit bit_xor_iff dest: arg_cong [of _ _ "\<lambda>x. bit x 31"] split: if_splits)
  then have "drop_bit 1 w = 0" using z by (simp add: crc_step_bit)
  then have "\<not> bit (drop_bit 1 w) m" for m by simp
  then have "\<not> bit w (Suc m)" for m by (simp add: bit_drop_bit_eq)
  then show "bit w n = bit 0 n" using 0 by (cases n) simp_all
qed

lemma crc_step_inj: "crc_step v = crc_step w \<Longrightarrow> v = w"
proof -
  assume "crc_step v = crc_step w"
  then have "crc_step (v XOR w) = 0" by (simp add: crc_step_xor)
  then show "v = w" by (rule xor_eq_0D [OF crc_step_eq_0])
qed

lemma crc_steps_inj: "(crc_step ^^ n) v = (crc_step ^^ n) w \<Longrightarrow> v = w"
  by (induction n) (auto dest: crc_step_inj)

lemma crc_byte_inj: "crc_byte v b = crc_byte w b \<Longrightarrow> v = w"
  unfolding crc_byte_def by (rule xor_right_cancel [OF crc_steps_inj])

lemma crc_bytes_inj: "crc_bytes v bs = crc_bytes w bs \<Longrightarrow> v = w"
  by (induction bs arbitrary: v w) (auto dest: crc_byte_inj)

text \<open>Four bytes enter the register as one little-endian word.\<close>

definition le_word :: "u8 \<Rightarrow> u8 \<Rightarrow> u8 \<Rightarrow> u8 \<Rightarrow> u32" where
  "le_word b0 b1 b2 b3 = ucast b0 XOR push_bit 8 (ucast b1) XOR push_bit 16 (ucast b2) XOR push_bit 24 (ucast b3)"

lemma bit_le_word: "bit (le_word b0 b1 b2 b3) n \<longleftrightarrow>
   (if n < 8 then bit b0 n else if n < 16 then bit b1 (n - 8)
    else if n < 24 then bit b2 (n - 16) else n < 32 \<and> bit b3 (n - 24))"
  using bit_imp_le_length [of b0 n] bit_imp_le_length [of b1 "n - 8"] bit_imp_le_length [of b2 "n - 16"]
    bit_imp_le_length [of b3 "n - 24"]
  by (auto simp: le_word_def bit_simps)

lemma byte_of_le_word [simp]:
  "byte_of 0 (le_word b0 b1 b2 b3) = b0" "byte_of (Suc 0) (le_word b0 b1 b2 b3) = b1"
  "byte_of 2 (le_word b0 b1 b2 b3) = b2" "byte_of 3 (le_word b0 b1 b2 b3) = b3"
  by (rule bit_word_eqI; simp add: bit_le_word bit_byte_of)+

lemma crc_byte_shift:
  assumes "n + 8 \<le> 32"
  shows "crc_byte ((crc_step ^^ n) x) b = (crc_step ^^ (8 + n)) (x XOR push_bit n (ucast b))"
proof -
  have "(crc_step ^^ n) (push_bit n (ucast b)) = drop_bit n (push_bit n (ucast b))"
    by (rule crc_steps_low_zero) (simp add: bit_simps)
  also have "\<dots> = ucast b"
    by (rule bit_word_eqI) (use assms in \<open>auto simp: bit_simps dest: bit_imp_le_length\<close>)
  finally have "(crc_step ^^ n) (push_bit n (ucast b)) = ucast b" .
  then have "(crc_step ^^ n) x XOR ucast b = (crc_step ^^ n) (x XOR push_bit n (ucast b))" by (simp only: crc_steps_xor)
  then show ?thesis by (simp only: crc_byte_def funpow_add comp_apply)
qed

lemma crc_window: "crc_bytes s [b0, b1, b2, b3] = (crc_step ^^ 32) (s XOR le_word b0 b1 b2 b3)"
proof -
  have "crc_byte s b0 = (crc_step ^^ 8) (s XOR ucast b0)" by (simp only: crc_byte_def)
  then have "crc_bytes s [b0, b1] = (crc_step ^^ 16) (s XOR ucast b0 XOR push_bit 8 (ucast b1))"
    by (simp add: crc_byte_shift [of 8] xor.assoc del: funpow.simps)
  then have "crc_bytes s [b0, b1, b2] = (crc_step ^^ 24) (s XOR ucast b0 XOR push_bit 8 (ucast b1) XOR push_bit 16 (ucast b2))"
    by (simp add: crc_byte_shift [of 16] xor.assoc del: funpow.simps)
  then have "crc_bytes s [b0, b1, b2, b3] =
      (crc_step ^^ 32) (s XOR ucast b0 XOR push_bit 8 (ucast b1) XOR push_bit 16 (ucast b2) XOR push_bit 24 (ucast b3))"
    by (simp add: crc_byte_shift [of 24] xor.assoc del: funpow.simps)
  then show ?thesis by (simp only: le_word_def xor.assoc)
qed

lemma crc_window_inj4:
  assumes "length w = 4" "length w' = 4" "crc_bytes s w = crc_bytes s w'"
  shows "w = w'"
proof -
  obtain a0 a1 a2 a3 where w: "w = [a0, a1, a2, a3]" using assms(1) by (auto simp: length_Suc_conv numeral_eq_Suc)
  obtain b0 b1 b2 b3 where w': "w' = [b0, b1, b2, b3]" using assms(2) by (auto simp: length_Suc_conv numeral_eq_Suc)
  have "s XOR le_word a0 a1 a2 a3 = s XOR le_word b0 b1 b2 b3"
    using assms(3) unfolding w w' crc_window by (rule crc_steps_inj)
  then have e: "le_word a0 a1 a2 a3 = le_word b0 b1 b2 b3" by (rule xor_left_cancel)
  show ?thesis
    using arg_cong [OF e, of "byte_of 0"] arg_cong [OF e, of "byte_of 1"] arg_cong [OF e, of "byte_of 2"]
      arg_cong [OF e, of "byte_of 3"] by (simp add: w w')
qed

lemma crc_window_inj:
  assumes "length w = length w'" "length w \<le> 4" "crc_bytes s w = crc_bytes s w'"
  shows "w = w'"
  using crc_window_inj4 [of "w @ replicate (4 - length w) 0" "w' @ replicate (4 - length w) 0" s] assms by simp

lemma crc_burst:
  assumes "length w = length w'" "length w \<le> 4" "crc_bytes s (p @ w @ q) = crc_bytes s (p @ w' @ q)"
  shows "w = w'"
proof -
  have "crc_bytes (crc_bytes (crc_bytes s p) w) q = crc_bytes (crc_bytes (crc_bytes s p) w') q" using assms(3) by simp
  then show ?thesis by (rule crc_window_inj [OF assms(1,2) crc_bytes_inj])
qed

subsection \<open>Writes as copies, reads as bytes\<close>

lemma wr_copy: "wr bs k b = copy_to bs k [b]"
  by (auto simp: wr_def copy_to_def upd_conv_take_nth_drop)

lemma copy_to_append:
  "length src \<le> length rest \<Longrightarrow> copy_to (prefix @ rest) (length prefix) src = Some (prefix @ src @ drop (length src) rest)"
  by (simp add: copy_to_def)

lemma copy_to_twice:
  "copy_to bs k xs \<bind> (\<lambda>bs. copy_to bs (k + length xs) ys) = copy_to bs k (xs @ ys)"
  if "k + length xs + length ys \<le> length bs"
  using that by (cases xs) (auto simp: copy_to_def min_def add.commute add.left_commute)

lemma write_be_copy:
  "off + 2 \<le> length bs \<Longrightarrow> write_u16_be bs off v = copy_to bs off (be16_bytes v)"
  "off + 4 \<le> length bs \<Longrightarrow> write_u32_be bs off w = copy_to bs off (be32_bytes w)"
  "off + 8 \<le> length bs \<Longrightarrow> write_u64_be bs off x = copy_to bs off (be64_bytes x)"
proof -
  show "write_u16_be bs off v = copy_to bs off (be16_bytes v)" if "off + 2 \<le> length bs"
    using that copy_to_twice [of off "[byte_of 1 v]" "[byte_of 0 v]" bs]
    by (simp add: write_u16_be_def be16_bytes_def byte_of_def wr_copy)
  show 32: "write_u32_be bs off w = copy_to bs off (be32_bytes w)" if "off + 4 \<le> length bs" for bs off w
    using that by (simp add: write_u32_be_def be32_bytes_def byte_of_def wr_copy copy_to_def numeral_eq_Suc min_def) arith
  show "write_u64_be bs off x = copy_to bs off (be64_bytes x)" if "off + 8 \<le> length bs"
    using that copy_to_twice [of off "be32_bytes (ucast (drop_bit 32 x))" "be32_bytes (ucast x)" bs]
    by (simp add: write_u64_be_def be64_bytes_def 32 copy_to_def)
qed

lemma be_bytes_words:
  "be16_bytes v = [byte_of 1 v, byte_of 0 v]"
  "be32_bytes w = [byte_of 3 w, byte_of 2 w, byte_of 1 w, byte_of 0 w]"
  by (simp_all add: be16_bytes_def be32_bytes_def)

lemma read_be_at:
  "read_u16_be (p @ be16_bytes v @ q) (length p) = Some v"
  "read_u32_be (p @ be32_bytes w @ q) (length p) = Some w"
  "read_u64_be (p @ be64_bytes x @ q) (length p) = Some x"
proof -
  show "read_u16_be (p @ be16_bytes v @ q) (length p) = Some v"
    by (simp add: read_u16_be_def be16_bytes_def nth_append be16_def [symmetric])
  show 32: "read_u32_be (p @ be32_bytes w @ q) (length p) = Some w" for p q w
    by (simp add: read_u32_be_def be32_bytes_def nth_append be32_def [symmetric])
  have "push_bit 32 (ucast (ucast (drop_bit 32 x) :: u32)) OR ucast (ucast x :: u32) = x"
    by (rule bit_word_eqI) (auto simp: bit_simps)
  moreover have "read_u32_be (p @ be64_bytes x @ q) (length p) = Some (ucast (drop_bit 32 x))"
    using 32 [of p "ucast (drop_bit 32 x)" "be32_bytes (ucast x) @ q"] by (simp add: be64_bytes_def)
  moreover have "read_u32_be (p @ be64_bytes x @ q) (length p + 4) = Some (ucast x)"
    using 32 [of "p @ be32_bytes (ucast (drop_bit 32 x))" "ucast x" q] by (simp add: be64_bytes_def)
  ultimately show "read_u64_be (p @ be64_bytes x @ q) (length p) = Some x" by (simp add: read_u64_be_def)
qed

subsection \<open>Encoding\<close>

text \<open>The 24 bytes of a header with a given checksum.\<close>

definition header_bytes :: "MessageHeader \<Rightarrow> u32 \<Rightarrow> bytes" where
  "header_bytes h crc = be16_bytes (mh_magic h) @ [mh_version h, mh_opcode h] @ be32_bytes (mh_sequence h) @
     be32_bytes (mh_payload_length h) @ be32_bytes crc @ be64_bytes (mh_timestamp_ns h)"

lemma length_header_bytes [simp]: "length (header_bytes h crc) = 24"
  by (simp add: header_bytes_def)

text \<open>Filling a span from the front: \<open>A\<close> has been written, the rest is as before.\<close>

lemma copy_at:
  assumes "k = length A" "k + length src \<le> length out"
  shows "copy_to (A @ drop k out) k src = Some ((A @ src) @ drop (k + length src) out)"
  using assms copy_to_append [of src "drop k out" A] by (simp add: add.commute)

lemma write_at:
  assumes "k = length A"
  shows "k + 1 \<le> length out \<Longrightarrow> wr (A @ drop k out) k b = Some ((A @ [b]) @ drop (k + 1) out)"
    "k + 2 \<le> length out \<Longrightarrow> write_u16_be (A @ drop k out) k v = Some ((A @ be16_bytes v) @ drop (k + 2) out)"
    "k + 4 \<le> length out \<Longrightarrow> write_u32_be (A @ drop k out) k w = Some ((A @ be32_bytes w) @ drop (k + 4) out)"
    "k + 8 \<le> length out \<Longrightarrow> write_u64_be (A @ drop k out) k x = Some ((A @ be64_bytes x) @ drop (k + 8) out)"
  using copy_at [OF assms, of "[b]" out] copy_at [OF assms, of "be16_bytes v" out] copy_at [OF assms, of "be32_bytes w" out]
    copy_at [OF assms, of "be64_bytes x" out] assms
  by (simp_all add: wr_copy write_be_copy)

lemma write_header_without_crc_bytes:
  assumes "24 \<le> length out"
  shows "write_header_without_crc h out = Some (header_bytes h 0 @ drop 24 out)"
proof -
  have 1: "write_u16_be out 0 v = Some (be16_bytes v @ drop 2 out)" for v
    using write_at(2) [of 0 "[]" out v] assms by (simp add: numeral_2_eq_2)
  have "write_header_without_crc h out = Some (((((((be16_bytes (mh_magic h) @ [mh_version h]) @ [mh_opcode h]) @
      be32_bytes (mh_sequence h)) @ be32_bytes (mh_payload_length h)) @ be32_bytes 0) @ be64_bytes (mh_timestamp_ns h)) @ drop 24 out)"
    using assms by (simp add: write_header_without_crc_def 1 write_at del: append_assoc wr_Some)
  then show ?thesis by (simp add: header_bytes_def)
qed

definition normalized :: "MessageHeader \<Rightarrow> nat \<Rightarrow> MessageHeader" where
  "normalized h n = h\<lparr>mh_magic := kProtocolMagic, mh_version := kProtocolVersion, mh_payload_length := of_nat n, mh_crc32 := 0\<rparr>"

definition message_crc :: "MessageHeader \<Rightarrow> bytes \<Rightarrow> u32" where
  "message_crc h payload = crc32 (header_bytes (normalized h (length payload)) 0 @ payload)"

definition message_bytes :: "MessageHeader \<Rightarrow> bytes \<Rightarrow> bytes" where
  "message_bytes h payload = header_bytes (normalized h (length payload)) (message_crc h payload) @ payload"

lemma length_message_bytes [simp]: "length (message_bytes h payload) = 24 + length payload"
  by (simp add: message_bytes_def)

lemma header_bytes_crc:
  "write_u32_be (header_bytes h c @ rest) 12 crc = Some (header_bytes h crc @ rest)"
proof -
  let ?A = "be16_bytes (mh_magic h) @ [mh_version h, mh_opcode h] @ be32_bytes (mh_sequence h) @ be32_bytes (mh_payload_length h)"
  have "header_bytes h c @ rest = ?A @ drop 12 (header_bytes h c @ rest)" by (simp add: header_bytes_def be64_bytes_def be_bytes_words)
  moreover have "drop 16 (header_bytes h c @ rest) = be64_bytes (mh_timestamp_ns h) @ rest"
    by (simp add: header_bytes_def be64_bytes_def be_bytes_words)
  ultimately show ?thesis
    using write_at(3) [of 12 ?A "header_bytes h c @ rest" crc] by (simp add: header_bytes_def)
qed

lemma encode_message_ok:
  assumes "length payload \<le> kMaxControlPayloadBytes" "24 + length payload \<le> length out"
  shows "encode_message h payload out = Some (\<lparr>er_status = ProtocolOk, er_bytes_written = 24 + length payload\<rparr>,
    message_bytes h payload @ drop (24 + length payload) out)"
proof -
  let ?h = "normalized h (length payload)"
  have 1: "write_header_without_crc ?h out = Some (header_bytes ?h 0 @ drop 24 out)"
    using assms by (intro write_header_without_crc_bytes) simp
  have 2: "(if payload \<noteq> [] then copy_to (header_bytes ?h 0 @ drop 24 out) 24 payload else Some (header_bytes ?h 0 @ drop 24 out)) =
      Some (header_bytes ?h 0 @ payload @ drop (24 + length payload) out)"
    using copy_at [of 24 "header_bytes ?h 0" payload out] assms by auto
  have 3: "write_u32_be (header_bytes ?h 0 @ payload @ drop (24 + length payload) out) 12 (message_crc h payload) =
      Some (message_bytes h payload @ drop (24 + length payload) out)"
    by (simp add: header_bytes_crc message_bytes_def)
  show ?thesis
    using assms 1 2 3 by (simp add: encode_message_def Let_def kProtocolHeaderBytes_def normalized_def [symmetric] message_crc_def
        cong: if_cong)
qed

lemma encode_message_refused:
  "kMaxControlPayloadBytes < length payload \<Longrightarrow> encode_message h payload out = Some (\<lparr>er_status = PayloadTooLarge, er_bytes_written = 0\<rparr>, out)"
  "length payload \<le> kMaxControlPayloadBytes \<Longrightarrow> length out < 24 + length payload \<Longrightarrow>
     encode_message h payload out = Some (\<lparr>er_status = BufferTooSmall, er_bytes_written = 0\<rparr>, out)"
  by (simp_all add: encode_message_def Let_def kProtocolHeaderBytes_def)

subsection \<open>Decoding\<close>

lemma header_bytes_crc_field [simp]: "header_bytes (h\<lparr>mh_crc32 := c\<rparr>) = header_bytes h"
  by (simp add: header_bytes_def fun_eq_iff)

lemma read_header_bytes: "read_header (header_bytes h c @ rest) = Some (h\<lparr>mh_crc32 := c\<rparr>)"
proof -
  let ?m = "be16_bytes (mh_magic h)" and ?s = "be32_bytes (mh_sequence h)" and ?l = "be32_bytes (mh_payload_length h)"
  let ?vo = "[mh_version h, mh_opcode h]" and ?t = "be64_bytes (mh_timestamp_ns h)" and ?c = "be32_bytes c"
  have e: "header_bytes h c @ rest = ?m @ ?vo @ ?s @ ?l @ ?c @ ?t @ rest" by (simp add: header_bytes_def)
  have "read_u16_be (header_bytes h c @ rest) 0 = Some (mh_magic h)"
    using read_be_at(1) [of "[]" "mh_magic h" "?vo @ ?s @ ?l @ ?c @ ?t @ rest"] by (simp add: e)
  moreover have "rd (header_bytes h c @ rest) 2 = Some (mh_version h)" "rd (header_bytes h c @ rest) 3 = Some (mh_opcode h)"
    by (simp_all add: e be_bytes_words rd_def)
  moreover have "read_u32_be (header_bytes h c @ rest) 4 = Some (mh_sequence h)"
    using read_be_at(2) [of "?m @ ?vo" "mh_sequence h" "?l @ ?c @ ?t @ rest"] by (simp add: e numeral_eq_Suc)
  moreover have "read_u32_be (header_bytes h c @ rest) 8 = Some (mh_payload_length h)"
    using read_be_at(2) [of "?m @ ?vo @ ?s" "mh_payload_length h" "?c @ ?t @ rest"] by (simp add: e numeral_eq_Suc)
  moreover have "read_u32_be (header_bytes h c @ rest) 12 = Some c"
    using read_be_at(2) [of "?m @ ?vo @ ?s @ ?l" c "?t @ rest"] by (simp add: e numeral_eq_Suc)
  moreover have "read_u64_be (header_bytes h c @ rest) 16 = Some (mh_timestamp_ns h)"
    using read_be_at(3) [of "?m @ ?vo @ ?s @ ?l @ ?c" "mh_timestamp_ns h" rest] by (simp add: e numeral_eq_Suc)
  ultimately show ?thesis by (simp add: read_header_def)
qed

lemma decode_message_bytes:
  "decode_message (header_bytes h (mh_crc32 h) @ rest) =
    (if mh_magic h \<noteq> kProtocolMagic then decode_failed InvalidMagic
     else if mh_version h \<noteq> kProtocolVersion then decode_failed InvalidVersion
     else if kMaxControlPayloadBytes < unat (mh_payload_length h) then decode_failed PayloadTooLarge
     else if length rest < unat (mh_payload_length h) then decode_failed TruncatedPayload
     else if crc32 (header_bytes h 0 @ take (unat (mh_payload_length h)) rest) \<noteq> mh_crc32 h then decode_failed CrcMismatch
     else Some \<lparr>dr_status = ProtocolOk, dr_message = \<lparr>dm_header = h, dm_payload = take (unat (mh_payload_length h)) rest\<rparr>\<rparr>)"
proof -
  have h: "read_header (header_bytes h (mh_crc32 h) @ rest) = Some h" by (simp add: read_header_bytes)
  have w: "write_u32_be (header_bytes h (mh_crc32 h)) 12 0 = Some (header_bytes h 0)"
    using header_bytes_crc [of h "mh_crc32 h" "[]" 0] by simp
  have "(if 0 < mh_payload_length h then crc32_update c (take (unat (mh_payload_length h)) rest) else c) =
      crc32_update c (take (unat (mh_payload_length h)) rest)" for c
    by (cases "mh_payload_length h = 0") (auto simp: word_gt_0)
  moreover have "crc32 (header_bytes h 0 @ p) = crc32_update (crc32_update 0xFFFFFFFF (header_bytes h 0)) p XOR 0xFFFFFFFF" for p
    by (simp add: crc32_def crc32_update_bitwise)
  ultimately show ?thesis
    by (simp add: decode_message_def h kProtocolHeaderBytes_def Let_def subspan_def w cong: if_cong)
qed

lemma ex_be_bytes:
  "length xs = 2 \<Longrightarrow> \<exists>v. xs = be16_bytes v" "length ys = 4 \<Longrightarrow> \<exists>w. ys = be32_bytes w" "length zs = 8 \<Longrightarrow> \<exists>x. zs = be64_bytes x"
proof -
  show "\<exists>v. xs = be16_bytes v" if len: "length xs = 2"
  proof -
    obtain a b where "xs = [a, b]" using len by (auto simp: length_Suc_conv numeral_2_eq_2)
    then show ?thesis by (intro exI [of _ "be16 a b"]) (simp add: be16_bytes_def)
  qed
  show 4: "\<exists>w. ys = be32_bytes w" if len: "length ys = 4" for ys
  proof -
    obtain a b c d where "ys = [a, b, c, d]" using len by (auto simp: length_Suc_conv numeral_eq_Suc)
    then show ?thesis by (intro exI [of _ "be32 a b c d"]) (simp add: be32_bytes_def)
  qed
  show "\<exists>x. zs = be64_bytes x" if len: "length zs = 8"
  proof -
    obtain v w where "take 4 zs = be32_bytes v" "drop 4 zs = be32_bytes w" using 4 [of "take 4 zs"] 4 [of "drop 4 zs"] len by auto
    then have "zs = be32_bytes v @ be32_bytes w" by (metis append_take_drop_id)
    moreover have "ucast (drop_bit 32 (push_bit 32 (ucast v) OR ucast w :: u64)) = v" "ucast (push_bit 32 (ucast v) OR ucast w :: u64) = w"
      by (rule bit_word_eqI; auto simp: bit_simps dest: bit_imp_le_length)+
    ultimately show ?thesis by (intro exI [of _ "push_bit 32 (ucast v) OR ucast w"]) (simp add: be64_bytes_def)
  qed
qed

lemma header_bytes_surj:
  assumes "24 \<le> length input"
  obtains h where "input = header_bytes h (mh_crc32 h) @ drop 24 input"
proof -
  have len: "length (take 2 input) = 2" "length (take 4 (drop 4 input)) = 4" "length (take 4 (drop 8 input)) = 4"
    "length (take 4 (drop 12 input)) = 4" "length (take 8 (drop 16 input)) = 8" using assms by simp_all
  obtain m s l c t where p: "take 2 input = be16_bytes m" "take 4 (drop 4 input) = be32_bytes s" "take 4 (drop 8 input) = be32_bytes l"
    "take 4 (drop 12 input) = be32_bytes c" "take 8 (drop 16 input) = be64_bytes t"
    using ex_be_bytes(1) [OF len(1)] ex_be_bytes(2) [OF len(2)] ex_be_bytes(2) [OF len(3)] ex_be_bytes(2) [OF len(4)]
      ex_be_bytes(3) [OF len(5)] by metis
  have d: "drop k input = take n (drop k input) @ drop (k + n) input" for k n
    by (metis add.commute append_take_drop_id drop_drop)
  have two: "drop 2 input = input ! 2 # input ! 3 # drop 4 input"
    using assms Cons_nth_drop_Suc [of 2 input] Cons_nth_drop_Suc [of 3 input] by (simp add: numeral_eq_Suc)
  have "input = be16_bytes m @ [input ! 2, input ! 3] @ be32_bytes s @ be32_bytes l @ be32_bytes c @ be64_bytes t @ drop 24 input"
    using append_take_drop_id [of 2 input] two d [of 4 4] d [of 8 4] d [of 12 4] d [of 16 8] p by simp
  then show ?thesis
    using that [of "\<lparr>mh_magic = m, mh_version = input ! 2, mh_opcode = input ! 3, mh_sequence = s, mh_payload_length = l,
      mh_crc32 = c, mh_timestamp_ns = t\<rparr>"] by (simp add: header_bytes_def)
qed

lemma decode_message_total: "\<exists>r. decode_message input = Some r"
proof (cases "length input < 24")
  case True
  then show ?thesis by (simp add: decode_message_def decode_failed_def kProtocolHeaderBytes_def)
next
  case False
  then obtain h where "input = header_bytes h (mh_crc32 h) @ drop 24 input" using header_bytes_surj by (metis not_less)
  then show ?thesis by (metis decode_message_bytes decode_failed_def)
qed

subsection \<open>Properties\<close>

lemma header_bytes_same: "normalized h n = h\<lparr>mh_crc32 := 0\<rparr> \<Longrightarrow> header_bytes (normalized h n) c = header_bytes h c"
  by simp

lemma decode_encoded:
  assumes "length payload \<le> kMaxControlPayloadBytes"
  shows "decode_message (message_bytes h payload @ extra) = Some \<lparr>dr_status = ProtocolOk, dr_message =
    \<lparr>dm_header = (normalized h (length payload))\<lparr>mh_crc32 := message_crc h payload\<rparr>, dm_payload = payload\<rparr>\<rparr>"
proof -
  let ?h = "(normalized h (length payload))\<lparr>mh_crc32 := message_crc h payload\<rparr>"
  have "unat (of_nat (length payload) :: u32) = length payload"
    using assms by (simp add: unat_of_nat kMaxControlPayloadBytes_def)
  then have "unat (mh_payload_length ?h) = length payload" "mh_magic ?h = kProtocolMagic" "mh_version ?h = kProtocolVersion"
    by (simp_all add: normalized_def)
  then show ?thesis
    using decode_message_bytes [of ?h "payload @ extra"] assms
    by (simp add: message_bytes_def message_crc_def)
qed

text \<open>C19: Encoding and decoding are inverse: if the payload is at most 64 KiB and the output large enough, \<open>encode_message\<close>
  succeeds, writes exactly the message and nothing behind it, and \<open>decode_message\<close> recovers opcode, sequence
  number, timestamp and payload from it, whatever follows the message in the receive buffer.\<close>

theorem encode_decode_roundtrip:
  assumes "length payload \<le> kMaxControlPayloadBytes" "24 + length payload \<le> length out"
  shows "\<exists>out' r. encode_message h payload out =
      Some (\<lparr>er_status = ProtocolOk, er_bytes_written = 24 + length payload\<rparr>, out') \<and>
    length out' = length out \<and> drop (24 + length payload) out' = drop (24 + length payload) out \<and>
    decode_message (take (24 + length payload) out' @ extra) = Some r \<and> dr_status r = ProtocolOk \<and>
    dm_payload (dr_message r) = payload \<and>
    (let g = dm_header (dr_message r) in mh_opcode g = mh_opcode h \<and> mh_sequence g = mh_sequence h \<and>
       mh_timestamp_ns g = mh_timestamp_ns h \<and> unat (mh_payload_length g) = length payload)"
proof -
  have "unat (of_nat (length payload) :: u32) = length payload"
    using assms by (simp add: unat_of_nat kMaxControlPayloadBytes_def)
  then show ?thesis
    using assms by (simp add: encode_message_ok decode_encoded normalized_def Let_def)
qed

definition demo_header :: MessageHeader where
  "demo_header = MessageHeader_init\<lparr>mh_opcode := OpAddRule, mh_sequence := 7, mh_timestamp_ns := 1000\<rparr>"

theorem encode_decode_roundtrip_witness:
  "\<exists>out' r. encode_message demo_header [1, 2, 3] (replicate 30 0) =
      Some (\<lparr>er_status = ProtocolOk, er_bytes_written = 27\<rparr>, out') \<and>
    decode_message (take 27 out' @ [9, 9]) = Some r \<and> dm_payload (dr_message r) = [1, 2, 3] \<and>
    mh_sequence (dm_header (dr_message r)) = 7"
  using encode_decode_roundtrip [of "[1, 2, 3]" "replicate 30 0" demo_header "[9, 9]"]
  by (simp add: kMaxControlPayloadBytes_def demo_header_def Let_def) blast



text \<open>The bit-serial CRC-32: one message bit at a time, least significant bit of every byte first.\<close>

definition crc_bit :: "u32 \<Rightarrow> bool \<Rightarrow> u32" where
  "crc_bit crc b = (if bit crc 0 \<noteq> b then drop_bit 1 crc XOR kCrc32Polynomial else drop_bit 1 crc)"

definition message_bits :: "bytes \<Rightarrow> bool list" where
  "message_bits bs = concat (map (\<lambda>b. map (bit b) [0..<8]) bs)"

definition crc32_serial :: "bytes \<Rightarrow> u32" where
  "crc32_serial bs = foldl crc_bit 0xFFFFFFFF (message_bits bs) XOR 0xFFFFFFFF"

lemma crc_step_serial: "crc_step (x XOR ucast (y :: u8)) = crc_bit x (bit y 0) XOR ucast (drop_bit 1 y)"
proof -
  have "drop_bit 1 (ucast y :: u32) = ucast (drop_bit 1 y)"
    by (rule bit_word_eqI) (auto simp: bit_simps dest: bit_imp_le_length)
  then have "drop_bit 1 (x XOR ucast y) = drop_bit 1 x XOR ucast (drop_bit 1 y)" by (simp only: drop_bit_xor)
  moreover have "bit (x XOR ucast y) 0 \<longleftrightarrow> bit x 0 \<noteq> bit y 0" by (simp add: bit_xor_iff bit_ucast_iff)
  ultimately show ?thesis by (simp only: crc_step_bit crc_bit_def) (simp add: xor.assoc xor.commute [of "ucast _"])
qed

lemma crc_steps_serial: "(crc_step ^^ n) (x XOR ucast (y :: u8)) = foldl crc_bit x (map (bit y) [0..<n]) XOR ucast (drop_bit n y)"
proof (induction n)
  case (Suc n)
  have "(crc_step ^^ Suc n) (x XOR ucast y) = crc_step (foldl crc_bit x (map (bit y) [0..<n]) XOR ucast (drop_bit n y))"
    using Suc by simp
  also have "\<dots> = crc_bit (foldl crc_bit x (map (bit y) [0..<n])) (bit y n) XOR ucast (drop_bit (Suc n) y)"
    unfolding crc_step_serial by (simp add: bit_drop_bit_eq)
  finally show ?case by simp
qed simp

lemma crc_byte_serial: "crc_byte x y = foldl crc_bit x (map (bit y) [0..<8])"
proof -
  have "drop_bit 8 y = 0" by (rule bit_word_eqI) (auto simp: bit_drop_bit_eq dest: bit_imp_le_length)
  then show ?thesis unfolding crc_byte_def crc_steps_serial by simp
qed

lemma crc_bytes_serial: "crc_bytes x bs = foldl crc_bit x (message_bits bs)"
  by (induction bs arbitrary: x) (simp_all add: message_bits_def crc_byte_serial)

text \<open>C21: The table-driven checksum, with the table generated at compile time, computes for every byte string the
  bit-serial CRC-32 of the IEEE 802.3 polynomial (reflected, initial value and final complement all ones).\<close>

theorem crc32_table_correct: "crc32 bs = crc32_serial bs"
  by (simp add: crc32_def crc32_serial_def crc32_update_bitwise crc_bytes_serial)

lemma crc32_burst:
  assumes "length w = length w'" "length w \<le> 4" "crc32 (p @ w @ q) = crc32 (p @ w' @ q)"
  shows "w = w'"
proof -
  have "crc_bytes 0xFFFFFFFF (p @ w @ q) = crc_bytes 0xFFFFFFFF (p @ w' @ q)"
    using assms(3) unfolding crc32_def Let_def crc32_update_bitwise by (rule xor_right_cancel)
  then show ?thesis by (rule crc_burst [OF assms(1,2)])
qed

text \<open>The message with the checksum field zeroed, over which the checksum is computed.\<close>

lemma header_parts:
  "take 4 (drop 8 (header_bytes h c @ rest)) = be32_bytes (mh_payload_length h)"
  "take 4 (drop 12 (header_bytes h c @ rest)) = be32_bytes c"
  "take 12 (header_bytes h c @ rest) @ replicate 4 0 @ take (8 + n) (drop 16 (header_bytes h c @ rest)) = header_bytes h 0 @ take n rest"
  by (simp_all add: header_bytes_def be_bytes_words be64_bytes_def byte_of_def numeral_eq_Suc)

lemma decode_ok_crc:
  assumes "decode_message input = Some r" "dr_status r = ProtocolOk"
  shows "\<exists>l. take 4 (drop 8 input) = be32_bytes l \<and> 24 + unat l \<le> length input \<and> length (dm_payload (dr_message r)) = unat l \<and>
    take 4 (drop 12 input) = be32_bytes (crc32 (take 12 input @ replicate 4 0 @ take (8 + unat l) (drop 16 input)))"
proof -
  have "24 \<le> length input"
  proof (rule ccontr)
    assume "\<not> 24 \<le> length input"
    then show False using assms by (simp add: decode_message_def decode_failed_def kProtocolHeaderBytes_def) force
  qed
  then obtain h rest where h: "input = header_bytes h (mh_crc32 h) @ rest" by (rule header_bytes_surj)
  let ?n = "unat (mh_payload_length h)"
  have "?n \<le> length rest" "crc32 (header_bytes h 0 @ take ?n rest) = mh_crc32 h" "length (dm_payload (dr_message r)) = ?n"
    using assms unfolding h decode_message_bytes decode_failed_def by (auto split: if_splits)
  then show ?thesis unfolding h header_parts by (intro exI [of _ "mh_payload_length h"]) (simp add: header_parts)
qed

lemma be32_bytes_inj:
  assumes "be32_bytes v = be32_bytes w"
  shows "v = w"
proof -
  have "byte_of 3 v = byte_of 3 w" "byte_of 2 v = byte_of 2 w" "byte_of (Suc 0) v = byte_of (Suc 0) w" "byte_of 0 v = byte_of 0 w"
    using assms by (simp_all only: be_bytes_words list.inject One_nat_def)
  then have "be32 (byte_of 3 v) (byte_of 2 v) (byte_of (Suc 0) v) (byte_of 0 v) =
    be32 (byte_of 3 w) (byte_of 2 w) (byte_of (Suc 0) w) (byte_of 0 w)" by (simp only:)
  then show ?thesis by (simp only: be32_byte_of)
qed

definition zeroed :: "nat \<Rightarrow> bytes \<Rightarrow> bytes" where
  "zeroed l input = take 12 input @ replicate 4 0 @ take (8 + l) (drop 16 input)"

lemma zeroed_window:
  assumes "length p + length w \<le> 8 \<or> 16 \<le> length p" "length p + length w \<le> 24 + l"
  shows "\<exists>P Q. \<forall>v. length v = length w \<longrightarrow> zeroed l (p @ v @ q) = P @ v @ Q"
  using assms(1)
proof
  assume "length p + length w \<le> 8"
  then show ?thesis
    by (intro exI [of _ p] exI [of _ "take (12 - length p - length w) q @ replicate 4 0 @ take (8 + l) (drop (16 - length p - length w) q)"])
      (simp add: zeroed_def)
next
  assume "16 \<le> length p"
  then show ?thesis using assms(2)
    by (intro exI [of _ "take 12 p @ replicate 4 0 @ drop 16 p"] exI [of _ "take (24 + l - length p - length w) q"])
      (simp add: zeroed_def)
qed

lemma zeroed_crc_field:
  assumes "12 \<le> length p" "length p + length w \<le> 16" "length w' = length w"
  shows "zeroed l (p @ w' @ q) = zeroed l (p @ w @ q)"
  using assms by (simp add: zeroed_def)

lemma slice_outside:
  assumes "length w' = length w" "length p + length w \<le> k \<or> k + n \<le> length p"
  shows "take n (drop k (p @ w' @ q)) = take n (drop k (p @ w @ q))"
  using assms by auto



end
