(* ===== verification/Packet_Parser.thy ===== *)
theory Packet_Parser
  imports Chronos_Types Wire_Words "HOL-Library.Monad_Syntax"
begin

section \<open>The packet parser (\<open>include/chronosx/packet_parser.hpp\<close>)\<close>

text \<open>
  \<open>parse_packet\<close> reads an Ethernet frame through a pointer. The pointer is an optional byte list: \<open>None\<close>
  is the null pointer, otherwise the list holds the bytes that may be read through it. Every read
  goes through \<open>rd\<close>, which fails outside the list, so that the result \<open>None\<close> is a read out of bounds.
  Sizes and offsets are natural numbers (they stay below \<open>2 ^ 17\<close> in any sum the parser forms), header
  fields have their width.
\<close>

definition kEtherTypeIPv4 :: u16 where "kEtherTypeIPv4 = 0x0800"
definition kIPv4ProtocolTCP :: u8 where "kIPv4ProtocolTCP = 6"
definition kIPv4ProtocolUDP :: u8 where "kIPv4ProtocolUDP = 17"
definition kIPv4FragmentOffsetMask :: u16 where "kIPv4FragmentOffsetMask = 0x1FFF"

datatype ParseStatus =
  ParseOk | NullData | TooShortForEthernet | NonIPv4 | TooShortForIPv4
  | InvalidIPv4Version | InvalidIPv4HeaderLength | TruncatedIPv4Header | IPv4TotalLengthTooSmall
  | IPv4TotalLengthExceedsFrame | IPv4FragmentWithoutL4 | UnsupportedTransport | TooShortForTCP
  | InvalidTCPHeaderLength | TruncatedTCPHeader | TooShortForUDP | InvalidUDPLength | TruncatedUDPPayload

definition parse_status_name :: "ParseStatus \<Rightarrow> string" where
  "parse_status_name status = (case status of
      ParseOk \<Rightarrow> ''Ok''
    | NullData \<Rightarrow> ''NullData''
    | TooShortForEthernet \<Rightarrow> ''TooShortForEthernet''
    | NonIPv4 \<Rightarrow> ''NonIPv4''
    | TooShortForIPv4 \<Rightarrow> ''TooShortForIPv4''
    | InvalidIPv4Version \<Rightarrow> ''InvalidIPv4Version''
    | InvalidIPv4HeaderLength \<Rightarrow> ''InvalidIPv4HeaderLength''
    | TruncatedIPv4Header \<Rightarrow> ''TruncatedIPv4Header''
    | IPv4TotalLengthTooSmall \<Rightarrow> ''IPv4TotalLengthTooSmall''
    | IPv4TotalLengthExceedsFrame \<Rightarrow> ''IPv4TotalLengthExceedsFrame''
    | IPv4FragmentWithoutL4 \<Rightarrow> ''IPv4FragmentWithoutL4''
    | UnsupportedTransport \<Rightarrow> ''UnsupportedTransport''
    | TooShortForTCP \<Rightarrow> ''TooShortForTCP''
    | InvalidTCPHeaderLength \<Rightarrow> ''InvalidTCPHeaderLength''
    | TruncatedTCPHeader \<Rightarrow> ''TruncatedTCPHeader''
    | TooShortForUDP \<Rightarrow> ''TooShortForUDP''
    | InvalidUDPLength \<Rightarrow> ''InvalidUDPLength''
    | TruncatedUDPPayload \<Rightarrow> ''TruncatedUDPPayload'')"

record PacketView =
  pv_data :: "bytes option"
  pv_frame_length :: nat
  pv_status :: ParseStatus
  pv_ether_type :: u16
  pv_ipv4_protocol :: u8
  pv_ipv4_header_length :: nat
  pv_ipv4_total_length :: nat
  pv_src_ip :: u32
  pv_dst_ip :: u32
  pv_l3_offset :: nat
  pv_l4_offset :: nat
  pv_payload_offset :: nat
  pv_payload_length :: nat
  pv_tcp_header_length :: nat
  pv_src_port :: u16
  pv_dst_port :: u16

definition PacketView_init :: PacketView where
  "PacketView_init = \<lparr>pv_data = None, pv_frame_length = 0, pv_status = TooShortForEthernet, pv_ether_type = 0,
     pv_ipv4_protocol = 0, pv_ipv4_header_length = 0, pv_ipv4_total_length = 0, pv_src_ip = 0, pv_dst_ip = 0,
     pv_l3_offset = 0, pv_l4_offset = 0, pv_payload_offset = 0, pv_payload_length = 0,
     pv_tcp_header_length = 0, pv_src_port = 0, pv_dst_port = 0\<rparr>"

definition view_ok :: "PacketView \<Rightarrow> bool" where
  "view_ok v \<longleftrightarrow> pv_status v = ParseOk"

definition is_ipv4 :: "PacketView \<Rightarrow> bool" where
  "is_ipv4 v \<longleftrightarrow> pv_ether_type v = kEtherTypeIPv4"

definition is_tcp :: "PacketView \<Rightarrow> bool" where
  "is_tcp v \<longleftrightarrow> view_ok v \<and> pv_ipv4_protocol v = kIPv4ProtocolTCP"

definition is_udp :: "PacketView \<Rightarrow> bool" where
  "is_udp v \<longleftrightarrow> view_ok v \<and> pv_ipv4_protocol v = kIPv4ProtocolUDP"

text \<open>The pointer accessors; the result is what can be read through the pointer they return.\<close>

definition dst_mac :: "PacketView \<Rightarrow> bytes option" where
  "dst_mac v = (if pv_data v \<noteq> None \<and> pv_frame_length v \<ge> kEthernetHeaderBytes then pv_data v else None)"

definition src_mac :: "PacketView \<Rightarrow> bytes option" where
  "src_mac v = (if pv_data v \<noteq> None \<and> pv_frame_length v \<ge> kEthernetHeaderBytes
     then map_option (drop 6) (pv_data v) else None)"

definition payload_data :: "PacketView \<Rightarrow> bytes option" where
  "payload_data v = (if view_ok v \<and> pv_data v \<noteq> None \<and> pv_payload_offset v \<le> pv_frame_length v
     then map_option (drop (pv_payload_offset v)) (pv_data v) else None)"

definition read_be16 :: "bytes \<Rightarrow> nat \<Rightarrow> u16 option" where
  "read_be16 data offset = do {
     high \<leftarrow> rd data offset;
     low \<leftarrow> rd data (offset + 1);
     Some (push_bit 8 (ucast high) OR ucast low)
   }"

definition read_be32 :: "bytes \<Rightarrow> nat \<Rightarrow> u32 option" where
  "read_be32 data offset = do {
     b0 \<leftarrow> rd data offset;
     b1 \<leftarrow> rd data (offset + 1);
     b2 \<leftarrow> rd data (offset + 2);
     b3 \<leftarrow> rd data (offset + 3);
     Some (push_bit 24 (ucast b0) OR push_bit 16 (ucast b1) OR push_bit 8 (ucast b2) OR ucast b3)
   }"

definition ipv4_version :: "u8 \<Rightarrow> u8" where
  "ipv4_version version_ihl = drop_bit 4 version_ihl"

definition ipv4_ihl_words :: "u8 \<Rightarrow> u8" where
  "ipv4_ihl_words version_ihl = version_ihl AND 0x0F"

definition tcp_data_offset_words :: "u8 \<Rightarrow> u8" where
  "tcp_data_offset_words data_offset_reserved = drop_bit 4 data_offset_reserved"

subsection \<open>\<open>parse_packet\<close>, by layer\<close>

text \<open>The TCP branch: \<open>view\<close> has the IPv4 fields filled in.\<close>

definition parse_tcp :: "bytes \<Rightarrow> nat \<Rightarrow> PacketView \<Rightarrow> PacketView option" where
  "parse_tcp data transport_length view =
     (if transport_length < kTCPBaseHeaderBytes then Some (view\<lparr>pv_status := TooShortForTCP\<rparr>)
      else do {
        offset_byte \<leftarrow> rd data (pv_l4_offset view + 12);
        let data_offset_words = tcp_data_offset_words offset_byte;
        if data_offset_words < 5 then Some (view\<lparr>pv_status := InvalidTCPHeaderLength\<rparr>)
        else do {
          let view = view\<lparr>pv_tcp_header_length := unat data_offset_words * 4\<rparr>;
          if transport_length < pv_tcp_header_length view then Some (view\<lparr>pv_status := TruncatedTCPHeader\<rparr>)
          else do {
            src_port \<leftarrow> read_be16 data (pv_l4_offset view);
            dst_port \<leftarrow> read_be16 data (pv_l4_offset view + 2);
            Some (view\<lparr>pv_src_port := src_port, pv_dst_port := dst_port,
              pv_payload_offset := pv_l4_offset view + pv_tcp_header_length view,
              pv_payload_length := transport_length - pv_tcp_header_length view,
              pv_status := ParseOk\<rparr>)
          }
        }
      })"

text \<open>The UDP branch.\<close>

definition parse_udp :: "bytes \<Rightarrow> nat \<Rightarrow> PacketView \<Rightarrow> PacketView option" where
  "parse_udp data transport_length view =
     (if transport_length < kUDPHeaderBytes then Some (view\<lparr>pv_status := TooShortForUDP\<rparr>)
      else do {
        udp_length \<leftarrow> read_be16 data (pv_l4_offset view + 4);
        if unat udp_length < kUDPHeaderBytes then Some (view\<lparr>pv_status := InvalidUDPLength\<rparr>)
        else if unat udp_length > transport_length then Some (view\<lparr>pv_status := TruncatedUDPPayload\<rparr>)
        else do {
          src_port \<leftarrow> read_be16 data (pv_l4_offset view);
          dst_port \<leftarrow> read_be16 data (pv_l4_offset view + 2);
          Some (view\<lparr>pv_src_port := src_port, pv_dst_port := dst_port,
            pv_payload_offset := pv_l4_offset view + kUDPHeaderBytes,
            pv_payload_length := unat udp_length - kUDPHeaderBytes,
            pv_status := ParseOk\<rparr>)
        }
      })"

text \<open>From the fragment check on: \<open>view\<close> has the two IPv4 lengths filled in and checked.\<close>

definition parse_l4 :: "bytes \<Rightarrow> PacketView \<Rightarrow> PacketView option" where
  "parse_l4 data view = do {
     flags_fragment \<leftarrow> read_be16 data (pv_l3_offset view + 6);
     let fragment_offset = flags_fragment AND kIPv4FragmentOffsetMask;
     if fragment_offset \<noteq> 0 then Some (view\<lparr>pv_status := IPv4FragmentWithoutL4\<rparr>)
     else do {
       protocol \<leftarrow> rd data (pv_l3_offset view + 9);
       src_ip \<leftarrow> read_be32 data (pv_l3_offset view + 12);
       dst_ip \<leftarrow> read_be32 data (pv_l3_offset view + 16);
       let view = view\<lparr>pv_ipv4_protocol := protocol, pv_src_ip := src_ip, pv_dst_ip := dst_ip,
             pv_l4_offset := pv_l3_offset view + pv_ipv4_header_length view\<rparr>;
       let transport_length = pv_ipv4_total_length view - pv_ipv4_header_length view;
       if pv_ipv4_protocol view = kIPv4ProtocolTCP then parse_tcp data transport_length view
       else if pv_ipv4_protocol view = kIPv4ProtocolUDP then parse_udp data transport_length view
       else Some (view\<lparr>pv_status := UnsupportedTransport\<rparr>)
     }
   }"

text \<open>The IPv4 header.\<close>

definition parse_ipv4 :: "bytes \<Rightarrow> nat \<Rightarrow> PacketView \<Rightarrow> PacketView option" where
  "parse_ipv4 data len view =
     (let view = view\<lparr>pv_l3_offset := kEthernetHeaderBytes\<rparr> in
      if len < pv_l3_offset view + kIPv4BaseHeaderBytes then Some (view\<lparr>pv_status := TooShortForIPv4\<rparr>)
      else do {
        version_ihl \<leftarrow> rd data (pv_l3_offset view);
        let version = ipv4_version version_ihl;
        let ihl_words = ipv4_ihl_words version_ihl;
        if version \<noteq> 4 then Some (view\<lparr>pv_status := InvalidIPv4Version\<rparr>)
        else if ihl_words < 5 then Some (view\<lparr>pv_status := InvalidIPv4HeaderLength\<rparr>)
        else do {
          let view = view\<lparr>pv_ipv4_header_length := unat ihl_words * 4\<rparr>;
          if len < pv_l3_offset view + pv_ipv4_header_length view then Some (view\<lparr>pv_status := TruncatedIPv4Header\<rparr>)
          else do {
            total_length \<leftarrow> read_be16 data (pv_l3_offset view + 2);
            let view = view\<lparr>pv_ipv4_total_length := unat total_length\<rparr>;
            if pv_ipv4_total_length view < pv_ipv4_header_length view
            then Some (view\<lparr>pv_status := IPv4TotalLengthTooSmall\<rparr>)
            else if len < pv_l3_offset view + pv_ipv4_total_length view
            then Some (view\<lparr>pv_status := IPv4TotalLengthExceedsFrame\<rparr>)
            else parse_l4 data view
          }
        }
      })"

definition parse_packet :: "bytes option \<Rightarrow> nat \<Rightarrow> PacketView option" where
  "parse_packet pointer len =
     (let view = PacketView_init\<lparr>pv_data := pointer, pv_frame_length := len\<rparr> in
      case pointer of
        None \<Rightarrow> Some (view\<lparr>pv_status := (if len = 0 then TooShortForEthernet else NullData)\<rparr>)
      | Some data \<Rightarrow>
          if len < kEthernetHeaderBytes then Some (view\<lparr>pv_status := TooShortForEthernet\<rparr>)
          else do {
            ether_type \<leftarrow> read_be16 data 12;
            let view = view\<lparr>pv_ether_type := ether_type\<rparr>;
            if pv_ether_type view \<noteq> kEtherTypeIPv4 then Some (view\<lparr>pv_status := NonIPv4\<rparr>)
            else parse_ipv4 data len view
          })"

subsection \<open>Memory safety\<close>

lemma read_be16_Some [simp]:
  "offset + 1 < length data \<Longrightarrow> read_be16 data offset = Some (be16 (data ! offset) (data ! (offset + 1)))"
  by (simp add: read_be16_def be16_def)

lemma read_be32_Some [simp]:
  "offset + 3 < length data \<Longrightarrow> read_be32 data offset =
     Some (be32 (data ! offset) (data ! (offset + 1)) (data ! (offset + 2)) (data ! (offset + 3)))"
  by (simp add: read_be32_def be32_def)

lemma parse_tcp_safe: "pv_l4_offset view + t \<le> length data \<Longrightarrow> \<exists>v. parse_tcp data t view = Some v"
  by (simp add: parse_tcp_def Let_def kTCPBaseHeaderBytes_def)

lemma parse_udp_safe: "pv_l4_offset view + t \<le> length data \<Longrightarrow> \<exists>v. parse_udp data t view = Some v"
  by (simp add: parse_udp_def Let_def kUDPHeaderBytes_def)

lemma parse_l4_safe:
  assumes "pv_l3_offset view + pv_ipv4_total_length view \<le> length data" "20 \<le> pv_ipv4_header_length view"
    "pv_ipv4_header_length view \<le> pv_ipv4_total_length view"
  shows "\<exists>v. parse_l4 data view = Some v"
  using assms by (auto simp: parse_l4_def Let_def intro!: parse_tcp_safe parse_udp_safe)

lemma ihl_words_bounds: "\<not> ipv4_ihl_words b < 5 \<Longrightarrow> 5 \<le> unat (ipv4_ihl_words b)"
  "unat (ipv4_ihl_words b) \<le> 15"
proof -
  show "5 \<le> unat (ipv4_ihl_words b)" if "\<not> ipv4_ihl_words b < 5" using that by (simp add: word_less_nat_alt)
  have "ipv4_ihl_words b \<le> 15" unfolding ipv4_ihl_words_def by (rule word_and_le1)
  then show "unat (ipv4_ihl_words b) \<le> 15" by (simp add: word_le_nat_alt)
qed

lemma data_offset_bounds: "\<not> tcp_data_offset_words b < 5 \<Longrightarrow> 5 \<le> unat (tcp_data_offset_words b)"
  "unat (tcp_data_offset_words b) \<le> 15"
proof -
  show "5 \<le> unat (tcp_data_offset_words b)" if "\<not> tcp_data_offset_words b < 5" using that by (simp add: word_less_nat_alt)
  have "unat (tcp_data_offset_words b) = unat b div 16"
    by (simp add: tcp_data_offset_words_def drop_bit_eq_div unat_div)
  moreover have "unat b < 256" using unsigned_less [of b] by simp
  ultimately show "unat (tcp_data_offset_words b) \<le> 15" by simp
qed

lemma parse_ipv4_safe:
  assumes "len \<le> length data" shows "\<exists>v. parse_ipv4 data len view = Some v"
  using assms ihl_words_bounds [of "data ! 14"]
  by (auto simp: parse_ipv4_def Let_def header_sizes intro!: parse_l4_safe)

lemma parse_packet_safe:
  assumes "case pointer of None \<Rightarrow> True | Some data \<Rightarrow> len \<le> length data"
  shows "\<exists>v. parse_packet pointer len = Some v"
  using assms parse_ipv4_safe [of len]
  by (auto simp: parse_packet_def Let_def header_sizes split: option.splits)

subsection \<open>What an accepted packet looks like\<close>

text \<open>The IPv4 part of an accepted view: where the header is, and what its fields are.\<close>

definition ipv4_layout :: "bytes \<Rightarrow> nat \<Rightarrow> PacketView \<Rightarrow> bool" where
  "ipv4_layout data len v \<longleftrightarrow>
     pv_data v = Some data \<and> pv_frame_length v = len \<and> pv_l3_offset v = 14 \<and>
     be16 (data ! 12) (data ! 13) = kEtherTypeIPv4 \<and> pv_ether_type v = kEtherTypeIPv4 \<and>
     ipv4_version (data ! 14) = 4 \<and>
     pv_ipv4_header_length v = unat (ipv4_ihl_words (data ! 14)) * 4 \<and>
     20 \<le> pv_ipv4_header_length v \<and> pv_ipv4_header_length v \<le> 60 \<and>
     pv_ipv4_total_length v = unat (be16 (data ! 16) (data ! 17)) \<and>
     pv_ipv4_header_length v \<le> pv_ipv4_total_length v \<and> 14 + pv_ipv4_total_length v \<le> len"

text \<open>The transport part: TCP or UDP, with the payload inside the IPv4 packet.\<close>

definition transport_layout :: "bytes \<Rightarrow> PacketView \<Rightarrow> bool" where
  "transport_layout data v \<longleftrightarrow>
     be16 (data ! 20) (data ! 21) AND kIPv4FragmentOffsetMask = 0 \<and>
     pv_ipv4_protocol v = data ! 23 \<and>
     pv_src_ip v = be32 (data ! 26) (data ! 27) (data ! 28) (data ! 29) \<and>
     pv_dst_ip v = be32 (data ! 30) (data ! 31) (data ! 32) (data ! 33) \<and>
     pv_l4_offset v = 14 + pv_ipv4_header_length v \<and>
     pv_src_port v = be16 (data ! pv_l4_offset v) (data ! (pv_l4_offset v + 1)) \<and>
     pv_dst_port v = be16 (data ! (pv_l4_offset v + 2)) (data ! (pv_l4_offset v + 3)) \<and>
     (if data ! 23 = kIPv4ProtocolTCP then
        pv_tcp_header_length v = unat (tcp_data_offset_words (data ! (pv_l4_offset v + 12))) * 4 \<and>
        20 \<le> pv_tcp_header_length v \<and> pv_tcp_header_length v \<le> 60 \<and>
        pv_payload_offset v = pv_l4_offset v + pv_tcp_header_length v \<and>
        pv_payload_offset v + pv_payload_length v = 14 + pv_ipv4_total_length v
      else
        data ! 23 = kIPv4ProtocolUDP \<and> pv_tcp_header_length v = 0 \<and>
        pv_payload_offset v = pv_l4_offset v + 8 \<and>
        pv_payload_length v + 8 = unat (be16 (data ! (pv_l4_offset v + 4)) (data ! (pv_l4_offset v + 5))) \<and>
        pv_payload_offset v + pv_payload_length v \<le> 14 + pv_ipv4_total_length v)"

lemmas parser_split = Let_def bind_eq_Some_conv

lemma parse_l4_ok:
  assumes p: "parse_l4 data w = Some v" and ok: "pv_status v = ParseOk" and w: "ipv4_layout data len w"
    and b: "len \<le> length data" and st: "pv_status w \<noteq> ParseOk" "pv_tcp_header_length w = 0"
  shows "ipv4_layout data len v \<and> transport_layout data v"
proof -
  note w' = w [unfolded ipv4_layout_def]
  have l3: "pv_l3_offset w = 14" and hb: "20 \<le> pv_ipv4_header_length w"
    "pv_ipv4_header_length w \<le> pv_ipv4_total_length w" "14 + pv_ipv4_total_length w \<le> length data"
    using w' b by auto
  define u where "u = w\<lparr>pv_ipv4_protocol := data ! 23,
      pv_src_ip := be32 (data ! 26) (data ! 27) (data ! 28) (data ! 29),
      pv_dst_ip := be32 (data ! 30) (data ! 31) (data ! 32) (data ! 33),
      pv_l4_offset := 14 + pv_ipv4_header_length w\<rparr>"
  let ?t = "pv_ipv4_total_length w - pv_ipv4_header_length w"
  have frag: "be16 (data ! 20) (data ! 21) AND kIPv4FragmentOffsetMask = 0"
    and u: "(if data ! 23 = kIPv4ProtocolTCP then parse_tcp data ?t u
      else if data ! 23 = kIPv4ProtocolUDP then parse_udp data ?t u
      else Some (u\<lparr>pv_status := UnsupportedTransport\<rparr>)) = Some v"
    using p l3 hb ok by (auto simp: parse_l4_def Let_def u_def split: if_splits)
  show ?thesis
  proof (cases "data ! 23 = kIPv4ProtocolTCP")
    case True
    let ?o = "tcp_data_offset_words (data ! (26 + pv_ipv4_header_length w))"
    have t: "20 \<le> ?t" "\<not> ?o < 5" "unat ?o * 4 \<le> ?t"
      using u True ok hb by (auto simp: parse_tcp_def Let_def header_sizes u_def split: if_splits)
    have v: "v = u\<lparr>pv_tcp_header_length := unat ?o * 4,
        pv_src_port := be16 (data ! pv_l4_offset u) (data ! (pv_l4_offset u + 1)),
        pv_dst_port := be16 (data ! (pv_l4_offset u + 2)) (data ! (pv_l4_offset u + 3)),
        pv_payload_offset := pv_l4_offset u + unat ?o * 4,
        pv_payload_length := ?t - unat ?o * 4, pv_status := ParseOk\<rparr>"
      using u True t hb by (auto simp: parse_tcp_def Let_def header_sizes u_def add.commute)
    show ?thesis
      using w' t True frag data_offset_bounds [of "data ! (26 + pv_ipv4_header_length w)"]
      by (simp add: v u_def ipv4_layout_def transport_layout_def add.commute add.left_commute)
  next
    case False
    have udp: "data ! 23 = kIPv4ProtocolUDP" using u ok False by (auto split: if_splits)
    let ?n = "be16 (data ! (18 + pv_ipv4_header_length w)) (data ! (19 + pv_ipv4_header_length w))"
    have t: "8 \<le> ?t" "8 \<le> unat ?n" "unat ?n \<le> ?t"
      using u udp False ok hb by (auto simp: parse_udp_def Let_def header_sizes u_def split: if_splits)
    have v: "v = u\<lparr>pv_src_port := be16 (data ! pv_l4_offset u) (data ! (pv_l4_offset u + 1)),
        pv_dst_port := be16 (data ! (pv_l4_offset u + 2)) (data ! (pv_l4_offset u + 3)),
        pv_payload_offset := pv_l4_offset u + 8,
        pv_payload_length := unat ?n - 8, pv_status := ParseOk\<rparr>"
      using u False udp t hb by (auto simp: parse_udp_def Let_def header_sizes u_def add.commute)
    show ?thesis
      using w' t False udp frag st
      by (simp add: v u_def ipv4_layout_def transport_layout_def add.commute add.left_commute)
  qed
qed

lemma parse_ipv4_ok:
  assumes p: "parse_ipv4 data len w = Some v" and ok: "pv_status v = ParseOk" and b: "len \<le> length data"
    and w: "pv_data w = Some data" "pv_frame_length w = len" "pv_ether_type w = kEtherTypeIPv4"
      "be16 (data ! 12) (data ! 13) = kEtherTypeIPv4" "pv_status w \<noteq> ParseOk" "pv_tcp_header_length w = 0"
  shows "ipv4_layout data len v \<and> transport_layout data v"
proof -
  let ?i = "ipv4_ihl_words (data ! 14)" and ?n = "be16 (data ! 16) (data ! 17)"
  define u where "u = w\<lparr>pv_l3_offset := 14, pv_ipv4_header_length := unat ?i * 4, pv_ipv4_total_length := unat ?n\<rparr>"
  have len: "34 \<le> len" using p ok w by (auto simp: parse_ipv4_def Let_def header_sizes split: if_splits)
  have c: "ipv4_version (data ! 14) = 4" "\<not> ?i < 5" "14 + unat ?i * 4 \<le> len" "unat ?i * 4 \<le> unat ?n"
    "14 + unat ?n \<le> len" and u: "parse_l4 data u = Some v"
    using p ok w b len by (auto simp: parse_ipv4_def Let_def header_sizes u_def split: if_splits)
  have "ipv4_layout data len u"
    using c w ihl_words_bounds [of "data ! 14"] by (simp add: ipv4_layout_def u_def)
  then show ?thesis using parse_l4_ok [OF u ok _ b] w by (simp add: u_def)
qed

lemma parse_packet_ok:
  assumes p: "parse_packet (Some data) len = Some v" and ok: "pv_status v = ParseOk" and b: "len \<le> length data"
  shows "ipv4_layout data len v \<and> transport_layout data v"
proof -
  define w where "w = PacketView_init\<lparr>pv_data := Some data, pv_frame_length := len,
    pv_ether_type := be16 (data ! 12) (data ! 13)\<rparr>"
  have len: "14 \<le> len" using p ok by (auto simp: parse_packet_def Let_def header_sizes split: if_splits)
  have "be16 (data ! 12) (data ! 13) = kEtherTypeIPv4" "parse_ipv4 data len w = Some v"
    using p ok b len by (auto simp: parse_packet_def Let_def header_sizes w_def split: if_splits)
  then show ?thesis using parse_ipv4_ok [OF _ ok b, of w] by (simp add: w_def PacketView_init_def)
qed

text \<open>The frames the parser accepts, stated on the bytes.\<close>

definition l4_accepted :: "bytes \<Rightarrow> nat \<Rightarrow> nat \<Rightarrow> bool" where
  "l4_accepted data l4 t \<longleftrightarrow>
     data ! 23 = kIPv4ProtocolTCP \<and> 20 \<le> t \<and> 5 \<le> tcp_data_offset_words (data ! (l4 + 12)) \<and>
       unat (tcp_data_offset_words (data ! (l4 + 12))) * 4 \<le> t \<or>
     data ! 23 = kIPv4ProtocolUDP \<and> 8 \<le> t \<and> 8 \<le> unat (be16 (data ! (l4 + 4)) (data ! (l4 + 5))) \<and>
       unat (be16 (data ! (l4 + 4)) (data ! (l4 + 5))) \<le> t"

definition accepted :: "bytes \<Rightarrow> nat \<Rightarrow> bool" where
  "accepted data len \<longleftrightarrow>
     34 \<le> len \<and> be16 (data ! 12) (data ! 13) = kEtherTypeIPv4 \<and> ipv4_version (data ! 14) = 4 \<and>
     (let h = unat (ipv4_ihl_words (data ! 14)) * 4; n = unat (be16 (data ! 16) (data ! 17)) in
      20 \<le> h \<and> h \<le> n \<and> 14 + n \<le> len \<and> be16 (data ! 20) (data ! 21) AND kIPv4FragmentOffsetMask = 0 \<and>
      l4_accepted data (14 + h) (n - h))"

lemma protocols_differ [simp]: "kIPv4ProtocolUDP \<noteq> kIPv4ProtocolTCP" "kIPv4ProtocolTCP \<noteq> kIPv4ProtocolUDP"
  by (simp_all add: kIPv4ProtocolTCP_def kIPv4ProtocolUDP_def)

lemma parse_l4_accepts:
  assumes hb: "pv_l3_offset w = 14" "20 \<le> pv_ipv4_header_length w" "pv_ipv4_header_length w \<le> pv_ipv4_total_length w"
    "14 + pv_ipv4_total_length w \<le> length data"
    and f: "be16 (data ! 20) (data ! 21) AND kIPv4FragmentOffsetMask = 0"
    and a: "l4_accepted data (14 + pv_ipv4_header_length w) (pv_ipv4_total_length w - pv_ipv4_header_length w)"
  shows "\<exists>v. parse_l4 data w = Some v \<and> pv_status v = ParseOk"
  using a unfolding l4_accepted_def
proof (elim disjE conjE)
  assume "data ! 23 = kIPv4ProtocolTCP" "20 \<le> pv_ipv4_total_length w - pv_ipv4_header_length w"
    "5 \<le> tcp_data_offset_words (data ! (14 + pv_ipv4_header_length w + 12))"
    "unat (tcp_data_offset_words (data ! (14 + pv_ipv4_header_length w + 12))) * 4
       \<le> pv_ipv4_total_length w - pv_ipv4_header_length w"
  then show ?thesis using hb f by (auto simp: parse_l4_def parse_tcp_def Let_def header_sizes dest: leD)
next
  assume "data ! 23 = kIPv4ProtocolUDP" "8 \<le> pv_ipv4_total_length w - pv_ipv4_header_length w"
    "8 \<le> unat (be16 (data ! (14 + pv_ipv4_header_length w + 4)) (data ! (14 + pv_ipv4_header_length w + 5)))"
    "unat (be16 (data ! (14 + pv_ipv4_header_length w + 4)) (data ! (14 + pv_ipv4_header_length w + 5)))
       \<le> pv_ipv4_total_length w - pv_ipv4_header_length w"
  then show ?thesis using hb f by (simp add: parse_l4_def parse_udp_def Let_def header_sizes)
qed

lemma parse_packet_accepts:
  assumes a: "accepted data len" and b: "len \<le> length data"
  shows "\<exists>v. parse_packet (Some data) len = Some v \<and> pv_status v = ParseOk"
proof -
  note a' = a [unfolded accepted_def Let_def]
  let ?i = "ipv4_ihl_words (data ! 14)" and ?n = "be16 (data ! 16) (data ! 17)"
  define u where "u = PacketView_init\<lparr>pv_data := Some data, pv_frame_length := len,
    pv_ether_type := kEtherTypeIPv4, pv_l3_offset := 14, pv_ipv4_header_length := unat ?i * 4,
    pv_ipv4_total_length := unat ?n\<rparr>"
  have i: "\<not> ?i < 5" using a' by (simp add: word_less_nat_alt)
  have "parse_packet (Some data) len = parse_l4 data u"
    using a' i b by (simp add: parse_packet_def parse_ipv4_def Let_def header_sizes u_def)
  then show ?thesis using parse_l4_accepts [of u data] a' b by (simp add: u_def)
qed

lemma layout_accepted:
  assumes "ipv4_layout data len v" "transport_layout data v"
  shows "accepted data len"
  using assms unfolding ipv4_layout_def transport_layout_def accepted_def l4_accepted_def
  by (cases "data ! 23 = kIPv4ProtocolTCP") (auto simp: Let_def word_le_nat_alt)

subsection \<open>Building frames\<close>

text \<open>
  The wire format of IPv4 over Ethernet with TCP or UDP on top, as the standards lay it out, with IP
  and TCP options, a payload and the padding Ethernet may put behind the packet. The parser has to
  find the parts again.
\<close>

record ipv4_fields =
  if_macs :: bytes
  if_tos :: u8
  if_ident :: u16
  if_flags :: u16
  if_ttl :: u8
  if_checksum :: u16
  if_src :: u32
  if_dst :: u32
  if_options :: bytes

definition ipv4_fields_ok :: "ipv4_fields \<Rightarrow> bool" where
  "ipv4_fields_ok f \<longleftrightarrow> length (if_macs f) = 12 \<and> if_flags f AND kIPv4FragmentOffsetMask = 0 \<and>
     length (if_options f) \<le> 40 \<and> 4 dvd length (if_options f)"

definition header_words :: "nat \<Rightarrow> nat" where
  "header_words options = 5 + options div 4"

definition ipv4_frame :: "ipv4_fields \<Rightarrow> u8 \<Rightarrow> bytes \<Rightarrow> bytes" where
  "ipv4_frame f protocol l4 =
     if_macs f @ be16_bytes kEtherTypeIPv4 @
     [of_nat (64 + header_words (length (if_options f))), if_tos f] @
     be16_bytes (of_nat (20 + length (if_options f) + length l4)) @
     be16_bytes (if_ident f) @ be16_bytes (if_flags f) @ [if_ttl f, protocol] @ be16_bytes (if_checksum f) @
     be32_bytes (if_src f) @ be32_bytes (if_dst f) @ if_options f @ l4"

definition tcp_segment :: "u16 \<Rightarrow> u16 \<Rightarrow> bytes \<Rightarrow> u8 \<Rightarrow> bytes \<Rightarrow> bytes \<Rightarrow> bytes \<Rightarrow> bytes" where
  "tcp_segment sport dport seq_ack reserved rest options payload =
     be16_bytes sport @ be16_bytes dport @ seq_ack @
     [of_nat (16 * header_words (length options)) OR (reserved AND 15)] @ rest @ options @ payload"

definition udp_datagram :: "u16 \<Rightarrow> u16 \<Rightarrow> u16 \<Rightarrow> bytes \<Rightarrow> bytes" where
  "udp_datagram sport dport checksum payload =
     be16_bytes sport @ be16_bytes dport @ be16_bytes (of_nat (8 + length payload)) @ be16_bytes checksum @ payload"

lemma unat_be16_of_nat: "n < 65536 \<Longrightarrow> unat (of_nat n :: u16) = n"
  by (simp add: unat_of_nat)

lemma header_byte:
  assumes "n \<le> 15"
  shows "drop_bit 4 (of_nat (64 + n) :: u8) = 4" "(of_nat (64 + n) :: u8) AND 15 = of_nat n"
    "drop_bit 4 (of_nat (16 * n) OR (r AND 15) :: u8) = of_nat n"
proof -
  have "n \<in> {0,1,2,3,4,5,6,7,8,9,10,11,12,13,14,15}" using assms by (simp only: insert_iff empty_iff) presburger
  then show "drop_bit 4 (of_nat (64 + n) :: u8) = 4" "(of_nat (64 + n) :: u8) AND 15 = of_nat n" by auto
  have "unat (of_nat (16 * n) :: u8) = 16 * n" using assms by (simp only: unat_of_nat) simp
  moreover have "unat (of_nat n :: u8) = n" using assms by (simp add: unat_of_nat)
  ultimately have "unat (drop_bit 4 (of_nat (16 * n) :: u8)) = unat (of_nat n :: u8)"
    by (simp add: drop_bit_eq_div unat_div)
  then have "drop_bit 4 (of_nat (16 * n) :: u8) = of_nat n" by (rule unsigned_word_eqI)
  moreover have "drop_bit 4 (r AND 15) = 0"
  proof -
    have "r AND 15 \<le> 15" by (rule word_and_le1)
    then have "unat (r AND 15) \<le> 15" by (simp add: word_le_nat_alt)
    then have "unat (drop_bit 4 (r AND 15)) = 0" by (simp add: drop_bit_eq_div unat_div)
    then show ?thesis by (simp add: unat_eq_0)
  qed
  ultimately show "drop_bit 4 (of_nat (16 * n) OR (r AND 15) :: u8) = of_nat n" by (simp add: drop_bit_or)
qed

lemma ipv4_frame_fields:
  fixes f :: ipv4_fields and protocol :: u8 and l4 pad :: bytes
  assumes "ipv4_fields_ok f"
  defines "F \<equiv> ipv4_frame f protocol l4 @ pad"
  shows "be16 (F ! 12) (F ! 13) = kEtherTypeIPv4"
    "F ! 14 = of_nat (64 + header_words (length (if_options f)))"
    "be16 (F ! 16) (F ! 17) = of_nat (20 + length (if_options f) + length l4)"
    "be16 (F ! 20) (F ! 21) = if_flags f" "F ! 23 = protocol"
    "be32 (F ! 26) (F ! 27) (F ! 28) (F ! 29) = if_src f"
    "be32 (F ! 30) (F ! 31) (F ! 32) (F ! 33) = if_dst f"
    "length F = 34 + length (if_options f) + length l4 + length pad"
    "drop (34 + length (if_options f)) F = l4 @ pad"
  using assms(1)
  by (simp_all add: F_def ipv4_frame_def ipv4_fields_ok_def nth_append be16_bytes_def be32_bytes_def drop_Cons')

lemma nth_drop': "drop k F = xs \<Longrightarrow> k \<le> length F \<Longrightarrow> F ! (k + i) = xs ! i"
  by (auto simp: nth_drop)

lemma ipv4_frame_ihl:
  fixes f :: ipv4_fields and protocol :: u8 and l4 pad :: bytes
  assumes "ipv4_fields_ok f"
  defines "F \<equiv> ipv4_frame f protocol l4 @ pad"
  shows "ipv4_version (F ! 14) = 4" "unat (ipv4_ihl_words (F ! 14)) * 4 = 20 + length (if_options f)"
proof -
  let ?n = "header_words (length (if_options f))"
  have n: "?n \<le> 15" "?n * 4 = 20 + length (if_options f)"
    using assms(1) by (auto simp: ipv4_fields_ok_def header_words_def)
  have "unat (of_nat ?n :: u8) = ?n" using n(1) by (simp add: unat_of_nat)
  then show "ipv4_version (F ! 14) = 4" "unat (ipv4_ihl_words (F ! 14)) * 4 = 20 + length (if_options f)"
    using header_byte(1,2) [OF n(1)] n(2) ipv4_frame_fields(2) [OF assms(1), of protocol l4 pad]
    by (simp_all add: F_def ipv4_version_def ipv4_ihl_words_def)
qed

lemma tcp_segment_fields:
  fixes sport dport :: u16 and reserved :: u8 and seq_ack rest options payload :: bytes
  assumes "length seq_ack = 8" "length rest = 7" "length options \<le> 40" "4 dvd length options"
  defines "S \<equiv> tcp_segment sport dport seq_ack reserved rest options payload"
  shows "be16 (S ! 0) (S ! 1) = sport" "be16 (S ! 2) (S ! 3) = dport"
    "unat (tcp_data_offset_words (S ! 12)) * 4 = 20 + length options"
    "length S = 20 + length options + length payload" "drop (20 + length options) S = payload"
proof -
  let ?n = "header_words (length options)"
  have n: "?n \<le> 15" "?n * 4 = 20 + length options"
    using assms(3,4) by (auto simp: header_words_def)
  have "unat (of_nat ?n :: u8) = ?n" using n(1) by (simp add: unat_of_nat)
  moreover have "S ! 12 = of_nat (16 * ?n) OR (reserved AND 15)"
    using assms(1,2) by (simp add: S_def tcp_segment_def nth_append be16_bytes_def)
  ultimately show "unat (tcp_data_offset_words (S ! 12)) * 4 = 20 + length options"
    unfolding tcp_data_offset_words_def using header_byte(3) [OF n(1), of reserved] n(2) by metis
qed (use assms(1,2) in \<open>simp_all add: S_def tcp_segment_def nth_append be16_bytes_def drop_Cons'\<close>)

lemma udp_datagram_fields:
  fixes sport dport checksum :: u16 and payload :: bytes
  assumes "8 + length payload < 65536"
  defines "S \<equiv> udp_datagram sport dport checksum payload"
  shows "be16 (S ! 0) (S ! 1) = sport" "be16 (S ! 2) (S ! 3) = dport"
    "unat (be16 (S ! 4) (S ! 5)) = 8 + length payload"
    "length S = 8 + length payload" "drop 8 S = payload"
  using unat_be16_of_nat [OF assms(1)]
  by (simp_all add: S_def udp_datagram_def nth_append be16_bytes_def drop_Cons')

text \<open>A transport packet: a TCP segment (ports, sequence and acknowledgement numbers, reserved bits, the rest of
  the fixed header, options, payload) or a UDP datagram (ports, checksum, payload).\<close>

datatype l4_packet =
  TcpPacket u16 u16 bytes u8 bytes bytes bytes
| UdpPacket u16 u16 u16 bytes

fun l4_bytes :: "l4_packet \<Rightarrow> bytes" where
  "l4_bytes (TcpPacket sport dport seq_ack reserved rest options payload) =
     tcp_segment sport dport seq_ack reserved rest options payload"
| "l4_bytes (UdpPacket sport dport checksum payload) = udp_datagram sport dport checksum payload"

fun l4_protocol :: "l4_packet \<Rightarrow> u8" where
  "l4_protocol (TcpPacket sport dport seq_ack reserved rest options payload) = kIPv4ProtocolTCP"
| "l4_protocol (UdpPacket sport dport checksum payload) = kIPv4ProtocolUDP"

fun l4_ports :: "l4_packet \<Rightarrow> u16 \<times> u16" where
  "l4_ports (TcpPacket sport dport seq_ack reserved rest options payload) = (sport, dport)"
| "l4_ports (UdpPacket sport dport checksum payload) = (sport, dport)"

fun l4_payload :: "l4_packet \<Rightarrow> bytes" where
  "l4_payload (TcpPacket sport dport seq_ack reserved rest options payload) = payload"
| "l4_payload (UdpPacket sport dport checksum payload) = payload"

fun l4_packet_ok :: "l4_packet \<Rightarrow> bool" where
  "l4_packet_ok (TcpPacket sport dport seq_ack reserved rest options payload) \<longleftrightarrow>
     length seq_ack = 8 \<and> length rest = 7 \<and> length options \<le> 40 \<and> 4 dvd length options"
| "l4_packet_ok (UdpPacket sport dport checksum payload) \<longleftrightarrow> True"

definition wire_frame :: "ipv4_fields \<Rightarrow> l4_packet \<Rightarrow> bytes \<Rightarrow> bytes" where
  "wire_frame f p pad = ipv4_frame f (l4_protocol p) (l4_bytes p) @ pad"

lemma wire_frame_nth:
  assumes "ipv4_fields_ok f" "i < length (l4_bytes p)"
  shows "wire_frame f p pad ! (34 + length (if_options f) + i) = l4_bytes p ! i"
  using ipv4_frame_fields(8,9) [OF assms(1), of "l4_protocol p" "l4_bytes p" pad] assms(2)
    nth_drop' [of "34 + length (if_options f)" "wire_frame f p pad" "l4_bytes p @ pad" i]
  by (simp add: wire_frame_def nth_append)

lemma five_words: "20 \<le> unat (w :: u8) * 4 \<Longrightarrow> 5 \<le> w"
  by (simp add: word_le_nat_alt)

lemma wire_frame_accepted:
  assumes f: "ipv4_fields_ok f" and p: "l4_packet_ok p"
    and total: "20 + length (if_options f) + length (l4_bytes p) < 65536"
  shows "accepted (wire_frame f p pad) (length (wire_frame f p pad))"
proof -
  let ?F = "wire_frame f p pad"
  note F = ipv4_frame_fields [OF f, of "l4_protocol p" "l4_bytes p" pad, folded wire_frame_def]
  note ihl = ipv4_frame_ihl [OF f, of "l4_protocol p" "l4_bytes p" pad, folded wire_frame_def]
  note nth = wire_frame_nth [OF f, of _ p pad]
  have n: "unat (be16 (?F ! 16) (?F ! 17)) = 20 + length (if_options f) + length (l4_bytes p)"
    using unat_be16_of_nat [OF total] by (simp only: F(3))
  have "l4_accepted ?F (34 + length (if_options f)) (length (l4_bytes p))"
  proof (cases p)
    case (TcpPacket sport dport seq_ack reserved rest options payload)
    note S = tcp_segment_fields [of seq_ack rest options sport dport reserved payload]
    have "?F ! (46 + length (if_options f)) = l4_bytes p ! 12"
      using nth [of 12] S(4) p TcpPacket by (simp add: ac_simps)
    then show ?thesis
      using F(5) S(3,4) p TcpPacket five_words [of "tcp_data_offset_words (l4_bytes p ! 12)"]
      by (simp add: l4_accepted_def add.commute)
  next
    case (UdpPacket sport dport checksum payload)
    have pl: "8 + length payload < 65536" using total UdpPacket by (simp add: udp_datagram_def)
    note S = udp_datagram_fields [OF pl, of sport dport checksum]
    have "?F ! (38 + length (if_options f)) = l4_bytes p ! 4" "?F ! (39 + length (if_options f)) = l4_bytes p ! 5"
      using nth [of 4] nth [of 5] S(4) UdpPacket by (simp_all add: ac_simps)
    then show ?thesis
      using F(5) S(3,4) UdpPacket by (auto simp: l4_accepted_def ac_simps)
  qed
  then show ?thesis
    using F(1,4,8) ihl n f by (simp add: accepted_def ipv4_fields_ok_def)
qed

lemma wire_frame_parses:
  assumes f: "ipv4_fields_ok f" and p: "l4_packet_ok p"
    and total: "20 + length (if_options f) + length (l4_bytes p) < 65536"
  shows "\<exists>v. parse_packet (Some (wire_frame f p pad)) (length (wire_frame f p pad)) = Some v \<and> view_ok v \<and>
    pv_ipv4_protocol v = l4_protocol p \<and> pv_src_ip v = if_src f \<and> pv_dst_ip v = if_dst f \<and>
    (pv_src_port v, pv_dst_port v) = l4_ports p \<and> pv_payload_length v = length (l4_payload p) \<and>
    payload_data v = Some (l4_payload p @ pad)"
proof -
  let ?F = "wire_frame f p pad" and ?l4 = "34 + length (if_options f)"
  note F = ipv4_frame_fields [OF f, of "l4_protocol p" "l4_bytes p" pad, folded wire_frame_def]
  note ihl = ipv4_frame_ihl [OF f, of "l4_protocol p" "l4_bytes p" pad, folded wire_frame_def]
  note nth = wire_frame_nth [OF f, of _ p pad]
  have n: "unat (be16 (?F ! 16) (?F ! 17)) = 20 + length (if_options f) + length (l4_bytes p)"
    using unat_be16_of_nat [OF total] by (simp only: F(3))
  obtain v where v: "parse_packet (Some ?F) (length ?F) = Some v" "pv_status v = ParseOk"
    using parse_packet_accepts [OF wire_frame_accepted [OF f p total]] by auto
  have L: "ipv4_layout ?F (length ?F) v" "transport_layout ?F v" using parse_packet_ok [OF v] by simp_all
  have l4: "pv_l4_offset v = ?l4" "pv_ipv4_total_length v = 20 + length (if_options f) + length (l4_bytes p)"
    using L ihl(2) n by (auto simp: ipv4_layout_def transport_layout_def)
  have d: "drop (?l4 + k) ?F = drop k (l4_bytes p @ pad)" for k
    using F(9) by (metis add.commute drop_drop)
  have base: "pv_data v = Some ?F" "pv_frame_length v = length ?F" "pv_ipv4_protocol v = l4_protocol p"
    "pv_src_ip v = if_src f" "pv_dst_ip v = if_dst f"
    using L F(5,6,7) by (auto simp: ipv4_layout_def transport_layout_def)
  have ports: "pv_src_port v = be16 (?F ! ?l4) (?F ! (?l4 + 1))"
    "pv_dst_port v = be16 (?F ! (?l4 + 2)) (?F ! (?l4 + 3))"
    using L(2) l4(1) unfolding transport_layout_def by auto
  have "(pv_src_port v, pv_dst_port v) = l4_ports p \<and> pv_payload_length v = length (l4_payload p) \<and>
    pv_payload_offset v \<le> length ?F \<and> drop (pv_payload_offset v) ?F = l4_payload p @ pad"
  proof (cases p)
    case (TcpPacket sport dport seq_ack reserved rest options payload)
    note S = tcp_segment_fields [of seq_ack rest options sport dport reserved payload]
    have ok: "length seq_ack = 8" "length rest = 7" "length options \<le> 40" "4 dvd length options"
      using p TcpPacket by simp_all
    have b: "?F ! ?l4 = l4_bytes p ! 0" "?F ! (?l4 + 1) = l4_bytes p ! 1" "?F ! (?l4 + 2) = l4_bytes p ! 2"
      "?F ! (?l4 + 3) = l4_bytes p ! 3" "?F ! (?l4 + 12) = l4_bytes p ! 12"
      using nth [of 0] nth [of 1] nth [of 2] nth [of 3] nth [of 12] S(4) [OF ok] TcpPacket by simp_all
    have o: "pv_payload_offset v = ?l4 + (20 + length options)"
      "pv_payload_offset v + pv_payload_length v = 14 + pv_ipv4_total_length v"
      using L(2) l4(1) b(5) S(3) [OF ok] F(5) TcpPacket unfolding transport_layout_def by auto
    show ?thesis
      using o l4(2) ports b S(1,2,4,5) [OF ok] d [of "20 + length options"] F(8) TcpPacket by simp
  next
    case (UdpPacket sport dport checksum payload)
    have pl: "8 + length payload < 65536" using total UdpPacket by (simp add: udp_datagram_def)
    note S = udp_datagram_fields [OF pl, of sport dport checksum]
    have b: "?F ! ?l4 = l4_bytes p ! 0" "?F ! (?l4 + 1) = l4_bytes p ! 1" "?F ! (?l4 + 2) = l4_bytes p ! 2"
      "?F ! (?l4 + 3) = l4_bytes p ! 3" "?F ! (?l4 + 4) = l4_bytes p ! 4" "?F ! (?l4 + 5) = l4_bytes p ! 5"
      using nth [of 0] nth [of 1] nth [of 2] nth [of 3] nth [of 4] nth [of 5] S(4) UdpPacket by simp_all
    have o: "pv_payload_offset v = ?l4 + 8" "pv_payload_length v + 8 = 8 + length payload"
      using L(2) l4(1) b(5,6) S(3) F(5) UdpPacket unfolding transport_layout_def by auto
    show ?thesis
      using o ports b S(1,2,4,5) d [of 8] F(8) UdpPacket by simp
  qed
  then show ?thesis using v base by (auto simp: view_ok_def payload_data_def)
qed

subsection \<open>Properties\<close>

text \<open>C8: The parser is memory safe. Given a null pointer or a pointer to at least \<open>length\<close> readable bytes, whatever
  they are, \<open>parse_packet\<close> returns a view and never reads outside them; a null pointer is never accepted;
  and the payload an accepted view points to lies within the frame.\<close>

theorem parse_packet_memory_safe:
  assumes "\<And>data. pointer = Some data \<Longrightarrow> len \<le> length data"
  shows "\<exists>v. parse_packet pointer len = Some v \<and> (view_ok v \<longrightarrow> pointer \<noteq> None \<and>
     (\<exists>payload. payload_data v = Some payload \<and> pv_payload_length v \<le> length payload \<and>
        pv_payload_offset v + pv_payload_length v \<le> len))"
proof -
  obtain v where v: "parse_packet pointer len = Some v"
    using parse_packet_safe [of len pointer] assms by (cases pointer) auto
  show ?thesis
  proof (cases pointer)
    case None
    then show ?thesis using v by (auto simp: parse_packet_def view_ok_def Let_def split: if_splits)
  next
    case (Some data)
    have b: "len \<le> length data" using assms Some by simp
    have "\<exists>payload. payload_data v = Some payload \<and> pv_payload_length v \<le> length payload \<and>
        pv_payload_offset v + pv_payload_length v \<le> len" if ok: "view_ok v"
    proof -
      have L: "ipv4_layout data len v" "transport_layout data v"
        using parse_packet_ok [of data len v] v ok b Some by (simp_all add: view_ok_def)
      have e: "pv_payload_offset v + pv_payload_length v \<le> len"
        using L unfolding ipv4_layout_def transport_layout_def by (auto split: if_splits)
      then show ?thesis using L(1) ok b by (auto simp: payload_data_def ipv4_layout_def)
    qed
    then show ?thesis using v Some by simp
  qed
qed

definition demo_fields :: ipv4_fields where
  "demo_fields = \<lparr>if_macs = replicate 12 0xAA, if_tos = 0, if_ident = 7, if_flags = 0x4000, if_ttl = 64,
     if_checksum = 0, if_src = 0x0A000001, if_dst = 0x0A000002, if_options = replicate 4 1\<rparr>"

definition demo_udp :: l4_packet where
  "demo_udp = UdpPacket 5000 9090 0 [1, 2, 3]"

definition demo_tcp :: l4_packet where
  "demo_tcp = TcpPacket 80 4242 (replicate 8 0) 3 (replicate 7 0) (replicate 4 1) [9, 8]"

lemma demo_ok:
  "ipv4_fields_ok demo_fields" "l4_packet_ok demo_tcp" "l4_packet_ok demo_udp"
  "20 + length (if_options demo_fields) + length (l4_bytes demo_tcp) < 65536"
  "20 + length (if_options demo_fields) + length (l4_bytes demo_udp) < 65536"
  by (simp_all add: ipv4_fields_ok_def demo_fields_def demo_tcp_def demo_udp_def tcp_segment_def udp_datagram_def
      kIPv4FragmentOffsetMask_def)

theorem parse_packet_memory_safe_witness:
  "\<exists>v. parse_packet (Some (wire_frame demo_fields demo_udp [0, 0])) (length (wire_frame demo_fields demo_udp [0, 0])) = Some v \<and>
     view_ok v \<and> (\<exists>payload. payload_data v = Some payload \<and> pv_payload_length v \<le> length payload)"
proof -
  let ?F = "wire_frame demo_fields demo_udp [0, 0]"
  obtain v where "parse_packet (Some ?F) (length ?F) = Some v" "view_ok v"
    using wire_frame_parses [OF demo_ok(1,3,5), of "[0, 0]"] by blast
  then show ?thesis using parse_packet_memory_safe [of "Some ?F" "length ?F"] by auto
qed

text \<open>C10: The parser accepts exactly the well-formed frames: an IPv4 Ethernet frame whose lengths are consistent,
  that is not a later fragment, and that carries a complete TCP or UDP header. Every field of the accepted
  view is then the corresponding big-endian field of the frame, and header, payload and packet nest.\<close>

theorem parse_packet_accepts_iff:
  assumes "len \<le> length data" and "parse_packet (Some data) len = Some v"
  shows "(view_ok v \<longleftrightarrow> accepted data len) \<and> (view_ok v \<longrightarrow> ipv4_layout data len v \<and> transport_layout data v)"
  using assms parse_packet_ok [OF assms(2) _ assms(1)] parse_packet_accepts [OF _ assms(1)] layout_accepted [of data len v]
  unfolding view_ok_def by (metis option.inject)

theorem parse_packet_accepts_iff_witness:
  "\<exists>v. parse_packet (Some (wire_frame demo_fields demo_tcp [])) (length (wire_frame demo_fields demo_tcp [])) = Some v \<and>
     view_ok v \<and> transport_layout (wire_frame demo_fields demo_tcp []) v"
proof -
  let ?F = "wire_frame demo_fields demo_tcp []"
  obtain v where "parse_packet (Some ?F) (length ?F) = Some v" "view_ok v"
    using wire_frame_parses [OF demo_ok(1,2,4), of "[]"] by blast
  then show ?thesis using parse_packet_accepts_iff [of "length ?F" ?F v] by auto
qed

text \<open>C9: Every TCP segment or UDP datagram put into an IPv4 Ethernet frame, with any IP and TCP options, any
  payload that fits the 16-bit total length and any padding behind it, is parsed back to the same
  addresses, protocol, ports and payload.\<close>

theorem parse_packet_roundtrip:
  assumes "ipv4_fields_ok f" "l4_packet_ok p" "20 + length (if_options f) + length (l4_bytes p) < 65536"
  shows "\<exists>v. parse_packet (Some (wire_frame f p pad)) (length (wire_frame f p pad)) = Some v \<and> view_ok v \<and>
    pv_ipv4_protocol v = l4_protocol p \<and> pv_src_ip v = if_src f \<and> pv_dst_ip v = if_dst f \<and>
    (pv_src_port v, pv_dst_port v) = l4_ports p \<and> pv_payload_length v = length (l4_payload p) \<and>
    payload_data v = Some (l4_payload p @ pad)"
  using wire_frame_parses [OF assms] .

theorem parse_packet_roundtrip_witness:
  "\<exists>v. parse_packet (Some (wire_frame demo_fields demo_tcp [7])) (length (wire_frame demo_fields demo_tcp [7])) = Some v \<and>
     pv_src_ip v = 0x0A000001 \<and> pv_dst_port v = 4242 \<and> payload_data v = Some [9, 8, 7]"
proof -
  from parse_packet_roundtrip [OF demo_ok(1,2,4), of "[7]"] show ?thesis
    by (auto simp: demo_fields_def demo_tcp_def)
qed

end
