(* ===== verification/Chaos_Engine.thy ===== *)
theory Chaos_Engine
  imports Packet_Parser
begin

section \<open>The chaos engine (\<open>include/chronosx/chaos_engine.hpp\<close>)\<close>

text \<open>
  The engine decides the fate of a parsed packet from a list of rules: the first rule that matches is
  applied when a roll between 0 and 9999, taken from a hash of the packet, is below its probability.
  All fields keep their width and the hash is computed modulo \<open>2 ^ 64\<close>. The hash of the packet reads the
  payload through the pointer of the view, so it and the decisions that use it are partial: \<open>None\<close> is a
  read outside the frame.
\<close>

definition kProbabilityScale :: u16 where "kProbabilityScale = 10000"

record ChaosRule =
  cr_seed :: u64
  cr_delay_ns :: u64
  cr_id :: u32
  cr_src_ip :: u32
  cr_dst_ip :: u32
  cr_src_port :: u16
  cr_dst_port :: u16
  cr_probability :: u16
  cr_protocol :: u8
  cr_action :: PacketAction
  cr_enabled :: u8
  cr_reserved :: "u8 \<times> u8 \<times> u8"

definition ChaosRule_init :: ChaosRule where
  "ChaosRule_init = \<lparr>cr_seed = 0, cr_delay_ns = 0, cr_id = 0, cr_src_ip = 0, cr_dst_ip = 0, cr_src_port = 0,
     cr_dst_port = 0, cr_probability = 0, cr_protocol = 0, cr_action = Pass, cr_enabled = 1, cr_reserved = (0, 0, 0)\<rparr>"

record ChaosDecision =
  cd_hash :: u64
  cd_delay_ns :: u64
  cd_rule_id :: u32
  cd_roll :: u16
  cd_action :: PacketAction
  cd_matched_rule :: u8

definition matched :: "ChaosDecision \<Rightarrow> bool" where
  "matched d \<longleftrightarrow> cd_matched_rule d \<noteq> 0"

definition should_forward :: "ChaosDecision \<Rightarrow> bool" where
  "should_forward d \<longleftrightarrow> cd_action d \<noteq> Drop"

definition should_drop :: "ChaosDecision \<Rightarrow> bool" where
  "should_drop d \<longleftrightarrow> cd_action d = Drop"

definition should_delay :: "ChaosDecision \<Rightarrow> bool" where
  "should_delay d \<longleftrightarrow> cd_action d = Delay"

definition should_corrupt :: "ChaosDecision \<Rightarrow> bool" where
  "should_corrupt d \<longleftrightarrow> cd_action d = Corrupt"

definition clamp_probability :: "u16 \<Rightarrow> u16" where
  "clamp_probability probability = (if probability > kProbabilityScale then kProbabilityScale else probability)"

definition rule_is_enabled :: "ChaosRule \<Rightarrow> bool" where
  "rule_is_enabled rule \<longleftrightarrow> cr_enabled rule \<noteq> 0"

definition action_forwards :: "PacketAction \<Rightarrow> bool" where
  "action_forwards action \<longleftrightarrow> action \<noteq> Drop"

definition rule_matches_packet :: "ChaosRule \<Rightarrow> PacketView \<Rightarrow> bool" where
  "rule_matches_packet rule packet \<longleftrightarrow>
     (if \<not> rule_is_enabled rule \<or> \<not> view_ok packet then False
      else if cr_src_ip rule \<noteq> 0 \<and> cr_src_ip rule \<noteq> pv_src_ip packet then False
      else if cr_dst_ip rule \<noteq> 0 \<and> cr_dst_ip rule \<noteq> pv_dst_ip packet then False
      else if cr_src_port rule \<noteq> 0 \<and> cr_src_port rule \<noteq> pv_src_port packet then False
      else if cr_dst_port rule \<noteq> 0 \<and> cr_dst_port rule \<noteq> pv_dst_port packet then False
      else if cr_protocol rule \<noteq> 0 \<and> cr_protocol rule \<noteq> pv_ipv4_protocol packet then False
      else True)"

definition kFnvOffsetBasis :: u64 where "kFnvOffsetBasis = 14695981039346656037"
definition kFnvPrime :: u64 where "kFnvPrime = 1099511628211"

definition fnv1a_byte :: "u64 \<Rightarrow> u8 \<Rightarrow> u64" where
  "fnv1a_byte hash v = (hash XOR ucast v) * kFnvPrime"

definition fnv1a_u16 :: "u64 \<Rightarrow> u16 \<Rightarrow> u64" where
  "fnv1a_u16 hash v =
     (let hash = fnv1a_byte hash (ucast (drop_bit 8 v AND 0xFF)) in
      fnv1a_byte hash (ucast (v AND 0xFF)))"

definition fnv1a_u32 :: "u64 \<Rightarrow> u32 \<Rightarrow> u64" where
  "fnv1a_u32 hash v =
     (let hash = fnv1a_byte hash (ucast (drop_bit 24 v AND 0xFF));
          hash = fnv1a_byte hash (ucast (drop_bit 16 v AND 0xFF));
          hash = fnv1a_byte hash (ucast (drop_bit 8 v AND 0xFF)) in
      fnv1a_byte hash (ucast (v AND 0xFF)))"

definition fnv1a_u64 :: "u64 \<Rightarrow> u64 \<Rightarrow> u64" where
  "fnv1a_u64 hash v =
     (let hash = fnv1a_u32 hash (ucast (drop_bit 32 v AND 0xFFFFFFFF)) in
      fnv1a_u32 hash (ucast (v AND 0xFFFFFFFF)))"

definition avalanche64 :: "u64 \<Rightarrow> u64" where
  "avalanche64 v =
     (let v = v XOR drop_bit 33 v;
          v = v * 0xff51afd7ed558ccd;
          v = v XOR drop_bit 33 v;
          v = v * 0xc4ceb9fe1a85ec53 in
      v XOR drop_bit 33 v)"

text \<open>The loop over the payload: \<open>n\<close> bytes, from position \<open>index\<close> on.\<close>

fun hash_payload :: "u64 \<Rightarrow> bytes \<Rightarrow> nat \<Rightarrow> nat \<Rightarrow> u64 option" where
  "hash_payload hash payload index 0 = Some hash"
| "hash_payload hash payload index (Suc n) = do {
     b \<leftarrow> rd payload index;
     hash_payload (fnv1a_byte hash b) payload (index + 1) n
   }"

definition stable_packet_hash :: "ChaosRule \<Rightarrow> PacketView \<Rightarrow> u64 option" where
  "stable_packet_hash rule packet = do {
     let hash = kFnvOffsetBasis;
     let hash = fnv1a_u64 hash (cr_seed rule);
     let hash = fnv1a_u32 hash (pv_src_ip packet);
     let hash = fnv1a_u32 hash (pv_dst_ip packet);
     let hash = fnv1a_u16 hash (pv_src_port packet);
     let hash = fnv1a_u16 hash (pv_dst_port packet);
     let hash = fnv1a_byte hash (pv_ipv4_protocol packet);
     let hash = fnv1a_u64 hash (of_nat (pv_payload_length packet));
     hash \<leftarrow> (case payload_data packet of
        None \<Rightarrow> Some hash
      | Some payload \<Rightarrow> hash_payload hash payload 0 (pv_payload_length packet));
     Some (avalanche64 hash)
   }"

definition stable_flow_hash :: "ChaosRule \<Rightarrow> PacketView \<Rightarrow> u64" where
  "stable_flow_hash rule packet =
     (let hash = kFnvOffsetBasis;
          hash = fnv1a_u64 hash (cr_seed rule);
          hash = fnv1a_u32 hash (pv_src_ip packet);
          hash = fnv1a_u32 hash (pv_dst_ip packet);
          hash = fnv1a_u16 hash (pv_src_port packet);
          hash = fnv1a_u16 hash (pv_dst_port packet);
          hash = fnv1a_byte hash (pv_ipv4_protocol packet);
          hash = fnv1a_u64 hash (of_nat (pv_payload_length packet)) in
      avalanche64 hash)"

definition pass_decision :: ChaosDecision where
  "pass_decision = \<lparr>cd_hash = 0, cd_delay_ns = 0, cd_rule_id = 0, cd_roll = 0, cd_action = Pass, cd_matched_rule = 0\<rparr>"

definition pass_from_rule :: "ChaosRule \<Rightarrow> u64 \<Rightarrow> u16 \<Rightarrow> ChaosDecision" where
  "pass_from_rule rule hash roll = \<lparr>cd_hash = hash, cd_delay_ns = 0, cd_rule_id = cr_id rule, cd_roll = roll,
     cd_action = Pass, cd_matched_rule = 1\<rparr>"

definition applied_decision :: "ChaosRule \<Rightarrow> u64 \<Rightarrow> u16 \<Rightarrow> ChaosDecision" where
  "applied_decision rule hash roll = \<lparr>cd_hash = hash,
     cd_delay_ns = (if cr_action rule = Delay then cr_delay_ns rule else 0),
     cd_rule_id = cr_id rule, cd_roll = roll, cd_action = cr_action rule, cd_matched_rule = 1\<rparr>"

definition decide_for_rule :: "ChaosRule \<Rightarrow> PacketView \<Rightarrow> ChaosDecision option" where
  "decide_for_rule rule packet =
     (let probability = clamp_probability (cr_probability rule) in
      if cr_action rule = Pass \<or> probability = 0 then Some (pass_from_rule rule 0 0)
      else if probability = kProbabilityScale then Some (applied_decision rule 0 0)
      else do {
        hash \<leftarrow> stable_packet_hash rule packet;
        let roll = ucast (hash mod ucast kProbabilityScale);
        if roll \<ge> probability then Some (pass_from_rule rule hash roll)
        else Some (applied_decision rule hash roll)
      })"

definition decide_for_rule_fast :: "ChaosRule \<Rightarrow> PacketView \<Rightarrow> ChaosDecision" where
  "decide_for_rule_fast rule packet =
     (let probability = clamp_probability (cr_probability rule) in
      if cr_action rule = Pass \<or> probability = 0 then pass_from_rule rule 0 0
      else if probability = kProbabilityScale then applied_decision rule 0 0
      else
        let hash = stable_flow_hash rule packet;
            roll = ucast (hash mod ucast kProbabilityScale) in
        if roll \<ge> probability then pass_from_rule rule hash roll
        else applied_decision rule hash roll)"

fun decide_packet :: "PacketView \<Rightarrow> ChaosRule list \<Rightarrow> ChaosDecision option" where
  "decide_packet packet [] = Some pass_decision"
| "decide_packet packet (rule # rules) =
     (if rule_matches_packet rule packet then decide_for_rule rule packet else decide_packet packet rules)"

fun decide_packet_fast :: "PacketView \<Rightarrow> ChaosRule list \<Rightarrow> ChaosDecision" where
  "decide_packet_fast packet [] = pass_decision"
| "decide_packet_fast packet (rule # rules) =
     (if rule_matches_packet rule packet then decide_for_rule_fast rule packet else decide_packet_fast packet rules)"

subsection \<open>The hash is FNV-1a of a byte string\<close>

abbreviation fnv1a :: "u64 \<Rightarrow> bytes \<Rightarrow> u64" where
  "fnv1a \<equiv> foldl fnv1a_byte"

lemma fnv1a_words:
  "fnv1a_u16 h v = fnv1a h (be16_bytes v)" "fnv1a_u32 h w = fnv1a h (be32_bytes w)"
  "fnv1a_u64 h x = fnv1a h (be64_bytes x)"
  by (simp_all add: fnv1a_u16_def fnv1a_u32_def fnv1a_u64_def be16_bytes_def be32_bytes_def be64_bytes_def byte_of_def Let_def)

lemma hash_payload_fnv1a:
  "index + n \<le> length payload \<Longrightarrow> hash_payload h payload index n = Some (fnv1a h (take n (drop index payload)))"
proof (induction n arbitrary: h index)
  case (Suc n)
  then have "drop index payload = payload ! index # drop (index + 1) payload" by (simp add: Cons_nth_drop_Suc)
  then show ?case using Suc by simp
qed simp

text \<open>The bytes that enter the flow hash and the packet hash.\<close>

definition flow_bytes :: "ChaosRule \<Rightarrow> PacketView \<Rightarrow> bytes" where
  "flow_bytes rule packet =
     be64_bytes (cr_seed rule) @ be32_bytes (pv_src_ip packet) @ be32_bytes (pv_dst_ip packet) @
     be16_bytes (pv_src_port packet) @ be16_bytes (pv_dst_port packet) @ [pv_ipv4_protocol packet] @
     be64_bytes (of_nat (pv_payload_length packet))"

definition payload_bytes :: "PacketView \<Rightarrow> bytes" where
  "payload_bytes packet = (case payload_data packet of None \<Rightarrow> [] | Some payload \<Rightarrow> take (pv_payload_length packet) payload)"

text \<open>A view whose payload may be read: what the parser returns.\<close>

definition view_readable :: "PacketView \<Rightarrow> bool" where
  "view_readable packet \<longleftrightarrow> (\<forall>payload. payload_data packet = Some payload \<longrightarrow> pv_payload_length packet \<le> length payload)"

lemma stable_flow_hash_fnv1a: "stable_flow_hash rule packet = avalanche64 (fnv1a kFnvOffsetBasis (flow_bytes rule packet))"
  by (simp add: stable_flow_hash_def flow_bytes_def fnv1a_words Let_def)

lemma stable_packet_hash_fnv1a:
  assumes "view_readable packet"
  shows "stable_packet_hash rule packet =
    Some (avalanche64 (fnv1a kFnvOffsetBasis (flow_bytes rule packet @ payload_bytes packet)))"
proof (cases "payload_data packet")
  case None
  then show ?thesis by (simp add: stable_packet_hash_def flow_bytes_def payload_bytes_def fnv1a_words Let_def)
next
  case (Some payload)
  then have "pv_payload_length packet \<le> length payload" using assms by (simp add: view_readable_def)
  then show ?thesis
    using Some by (simp add: stable_packet_hash_def flow_bytes_def payload_bytes_def fnv1a_words Let_def hash_payload_fnv1a)
qed

lemma parsed_view_readable:
  assumes "parse_packet (Some data) len = Some v" "len \<le> length data"
  shows "view_readable v"
  unfolding view_readable_def
proof (intro allI impI)
  fix payload assume p: "payload_data v = Some payload"
  then have "pv_status v = ParseOk" by (auto simp: payload_data_def view_ok_def split: if_splits)
  then have "ipv4_layout data len v \<and> transport_layout data v" using parse_packet_ok assms by blast
  then have "pv_data v = Some data" "pv_payload_offset v + pv_payload_length v \<le> length data"
    using assms(2) unfolding ipv4_layout_def transport_layout_def by (auto split: if_splits)
  then show "pv_payload_length v \<le> length payload" using p by (auto simp: payload_data_def split: if_splits)
qed

subsection \<open>The hash separates packets that differ in one byte\<close>

lemma xorshift33_inverse: "(let w = v XOR drop_bit 33 v in w XOR drop_bit 33 w) = (v :: u64)"
proof -
  have "\<not> bit v (66 + n)" for n using bit_imp_le_length [of v "66 + n"] by auto
  then have "drop_bit 66 v = 0" by (intro bit_word_eqI) (simp add: bit_drop_bit_eq)
  then have "drop_bit 33 (v XOR drop_bit 33 v) = drop_bit 33 v" by (simp add: drop_bit_xor)
  then show ?thesis by (simp add: Let_def xor.assoc)
qed

lemma xorshift33_inj: "v XOR drop_bit 33 v = w XOR drop_bit 33 w \<Longrightarrow> v = (w :: u64)"
  using xorshift33_inverse [of v] xorshift33_inverse [of w] by (simp add: Let_def)

lemma odd_mult_inj:
  fixes c d v w :: u64
  assumes "c * d = 1" "v * c = w * c" shows "v = w"
proof -
  have "v * (c * d) = w * (c * d)" using assms(2) by (simp only: mult.assoc [symmetric])
  then show ?thesis using assms(1) by simp
qed

lemma avalanche64_inj: "avalanche64 v = avalanche64 w \<Longrightarrow> v = w"
proof -
  assume e: "avalanche64 v = avalanche64 w"
  have c1: "(0xff51afd7ed558ccd :: u64) * 0x4f74430c22a54005 = 1" by simp
  have c2: "(0xc4ceb9fe1a85ec53 :: u64) * 0x9cb4b2f8129337db = 1" by simp
  let ?x = "\<lambda>v :: u64. v XOR drop_bit 33 v"
  have "?x (?x (?x v * 0xff51afd7ed558ccd) * 0xc4ceb9fe1a85ec53) = ?x (?x (?x w * 0xff51afd7ed558ccd) * 0xc4ceb9fe1a85ec53)"
    using e by (simp only: avalanche64_def Let_def)
  then have "?x (?x v * 0xff51afd7ed558ccd) = ?x (?x w * 0xff51afd7ed558ccd)"
    by (rule odd_mult_inj [OF c2 xorshift33_inj])
  then show "v = w" by (rule xorshift33_inj [OF odd_mult_inj [OF c1 xorshift33_inj]])
qed

lemma fnv1a_byte_inj: "fnv1a_byte h b = fnv1a_byte h' b' \<Longrightarrow> h XOR ucast b = h' XOR ucast b'"
proof -
  assume e: "fnv1a_byte h b = fnv1a_byte h' b'"
  have c: "(1099511628211 :: u64) * 0xce965057aff6957b = 1" by simp
  show ?thesis using e unfolding fnv1a_byte_def kFnvPrime_def by (rule odd_mult_inj [OF c])
qed

lemma fnv1a_inj_state: "fnv1a h bs = fnv1a h' bs \<Longrightarrow> h = h'"
proof (induction bs arbitrary: h h')
  case (Cons b bs)
  have "fnv1a_byte h b = fnv1a_byte h' b" by (rule Cons.IH) (use Cons.prems in simp)
  then show ?case by (rule xor_right_cancel [OF fnv1a_byte_inj])
qed simp

lemma fnv1a_single_byte:
  assumes "i < length bs" "b \<noteq> bs ! i"
  shows "fnv1a h (bs[i := b]) \<noteq> fnv1a h bs"
proof
  let ?g = "fnv1a h (take i bs)"
  assume "fnv1a h (bs[i := b]) = fnv1a h bs"
  then have "fnv1a (fnv1a_byte ?g b) (drop (Suc i) bs) = fnv1a (fnv1a_byte ?g (bs ! i)) (drop (Suc i) bs)"
    using assms(1) by (subst (asm) (2) id_take_nth_drop [OF assms(1)]) (simp add: upd_conv_take_nth_drop)
  then have "fnv1a_byte ?g b = fnv1a_byte ?g (bs ! i)" by (rule fnv1a_inj_state)
  then have "(ucast b :: u64) = ucast (bs ! i)" by (rule xor_left_cancel [OF fnv1a_byte_inj])
  then have "b = bs ! i" by (rule ucast_up_inj) simp
  then show False using assms(2) by simp
qed

subsection \<open>What a rule decides\<close>

text \<open>Both variants apply the rule by the same test; they differ in the hash that gives the roll.\<close>

definition decide_by :: "ChaosRule \<Rightarrow> u64 \<Rightarrow> ChaosDecision" where
  "decide_by rule hash =
     (let roll = hash mod 10000 in
      if cr_action rule = Pass \<or> cr_probability rule = 0 then pass_from_rule rule 0 0
      else if cr_probability rule \<ge> 10000 then applied_decision rule 0 0
      else if unat (cr_probability rule) \<le> unat roll then pass_from_rule rule hash (ucast roll)
      else applied_decision rule hash (ucast roll))"

lemma unat_roll: "unat (ucast (hash mod 10000 :: u64) :: u16) = unat hash mod 10000"
proof -
  have "unat (hash mod 10000) = unat hash mod 10000" by (simp add: unat_mod_distrib)
  moreover have "unat hash mod 10000 < 65536" using mod_less_divisor [of 10000 "unat hash"] by linarith
  ultimately show ?thesis by (simp only: ucast_of_nat_unat unat_of_nat) simp
qed

lemma clamp_cases:
  "clamp_probability p = 0 \<longleftrightarrow> p = 0" "clamp_probability p = kProbabilityScale \<longleftrightarrow> p \<ge> 10000"
  "p < 10000 \<Longrightarrow> clamp_probability p = p"
  by (auto simp: clamp_probability_def kProbabilityScale_def)

lemma roll_test:
  "p < 10000 \<Longrightarrow> (ucast (hash mod ucast kProbabilityScale) \<ge> clamp_probability p) \<longleftrightarrow> unat p \<le> unat (hash mod 10000 :: u64)"
  using unat_roll [of hash] by (simp add: clamp_cases kProbabilityScale_def word_le_nat_alt unat_mod_distrib)

lemma decide_for_rule_fast_by: "decide_for_rule_fast rule packet = decide_by rule (stable_flow_hash rule packet)"
proof (cases "cr_probability rule \<ge> 10000")
  case False
  then have p: "cr_probability rule < 10000" by simp
  then show ?thesis
    using roll_test [OF p, of "stable_flow_hash rule packet"]
    by (simp add: decide_for_rule_fast_def decide_by_def Let_def clamp_cases(1,2)) (simp add: kProbabilityScale_def)
qed (simp add: decide_for_rule_fast_def decide_by_def Let_def clamp_cases)

lemma decide_for_rule_by:
  assumes "stable_packet_hash rule packet = Some hash"
  shows "decide_for_rule rule packet = Some (decide_by rule hash)"
proof (cases "cr_probability rule \<ge> 10000")
  case False
  then have p: "cr_probability rule < 10000" by simp
  then show ?thesis
    using roll_test [OF p, of hash] assms
    by (simp add: decide_for_rule_def decide_by_def Let_def clamp_cases(1,2)) (simp add: kProbabilityScale_def)
qed (simp add: decide_for_rule_def decide_by_def Let_def clamp_cases)

lemma decide_by_facts:
  "cd_action (decide_by rule hash) = (if unat (cd_roll (decide_by rule hash)) < unat (cr_probability rule) then cr_action rule else Pass)"
  "unat (cd_roll (decide_by rule hash)) < 10000"
  "cd_rule_id (decide_by rule hash) = cr_id rule" "matched (decide_by rule hash)"
  "cd_delay_ns (decide_by rule hash) = (if cd_action (decide_by rule hash) = Delay then cr_delay_ns rule else 0)"
  "cr_action rule \<noteq> Pass \<Longrightarrow> cr_probability rule \<noteq> 0 \<Longrightarrow> cr_probability rule < 10000 \<Longrightarrow>
     cd_hash (decide_by rule hash) = hash \<and> unat (cd_roll (decide_by rule hash)) = unat hash mod 10000"
proof -
  have pd: "Pass \<noteq> Delay" by (simp add: PacketAction_defs)
  have p0: "cr_probability rule \<noteq> 0 \<Longrightarrow> 0 < unat (cr_probability rule)" by (simp add: unat_gt_0)
  note d = decide_by_def Let_def pass_from_rule_def applied_decision_def unat_roll
  show "cd_action (decide_by rule hash) = (if unat (cd_roll (decide_by rule hash)) < unat (cr_probability rule) then cr_action rule else Pass)"
    using p0 by (auto simp: d unat_mod_distrib not_le)
  show "unat (cd_roll (decide_by rule hash)) < 10000" by (simp add: d)
  show "cd_rule_id (decide_by rule hash) = cr_id rule" by (simp add: d)
  show "matched (decide_by rule hash)" by (simp add: d matched_def)
  show "cd_delay_ns (decide_by rule hash) = (if cd_action (decide_by rule hash) = Delay then cr_delay_ns rule else 0)"
    using pd by (auto simp: d)
  show "cd_hash (decide_by rule hash) = hash \<and> unat (cd_roll (decide_by rule hash)) = unat hash mod 10000"
    if "cr_action rule \<noteq> Pass" "cr_probability rule \<noteq> 0" "cr_probability rule < 10000"
    using that by (simp add: d not_le [symmetric])
qed

lemma decide_packet_fast_find:
  "decide_packet_fast packet rules = (case find (\<lambda>r. rule_matches_packet r packet) rules of
     None \<Rightarrow> pass_decision | Some r \<Rightarrow> decide_by r (stable_flow_hash r packet))"
  by (induction rules) (simp_all add: decide_for_rule_fast_by)

lemma decide_packet_find:
  assumes "view_readable packet"
  shows "decide_packet packet rules = (case find (\<lambda>r. rule_matches_packet r packet) rules of
     None \<Rightarrow> Some pass_decision | Some r \<Rightarrow> Some (decide_by r
       (avalanche64 (fnv1a kFnvOffsetBasis (flow_bytes r packet @ payload_bytes packet)))))"
  by (induction rules) (simp_all add: decide_for_rule_by [OF stable_packet_hash_fnv1a [OF assms]])

subsection \<open>Properties\<close>

text \<open>What a decision has to be: nothing happens to a packet no rule matches; otherwise the first matching
  rule is applied exactly when the roll, a number below 10000, is below its probability.\<close>

definition decision_spec :: "ChaosRule list \<Rightarrow> PacketView \<Rightarrow> ChaosDecision \<Rightarrow> bool" where
  "decision_spec rules packet d \<longleftrightarrow>
     (case find (\<lambda>r. rule_matches_packet r packet) rules of
        None \<Rightarrow> d = pass_decision
      | Some r \<Rightarrow> matched d \<and> cd_rule_id d = cr_id r \<and> unat (cd_roll d) < 10000 \<and>
          cd_action d = (if unat (cd_roll d) < unat (cr_probability r) then cr_action r else Pass) \<and>
          cd_delay_ns d = (if cd_action d = Delay then cr_delay_ns r else 0))"

lemma decide_by_spec:
  "find (\<lambda>r. rule_matches_packet r packet) rules = Some r \<Longrightarrow> decision_spec rules packet (decide_by r hash)"
  unfolding decision_spec_def using decide_by_facts(1-5) [of r hash] by simp

lemma not_ok_no_match: "\<not> view_ok packet \<Longrightarrow> find (\<lambda>r. rule_matches_packet r packet) rules = None"
  by (simp add: find_None_iff rule_matches_packet_def)

text \<open>C11: For every packet the parser returns and every list of rules, both decision procedures return a decision
  (the payload is only read inside the frame) and both follow the specification: first matching rule,
  applied exactly when the roll is below its probability, so never at probability 0 and always from
  10000 on; a delay only with the action \<open>Delay\<close>. A packet that was not parsed is always passed unmatched.\<close>

theorem decide_packet_meets_spec:
  assumes "len \<le> length data" "parse_packet (Some data) len = Some packet"
  shows "(\<exists>d. decide_packet packet rules = Some d \<and> decision_spec rules packet d) \<and>
    decision_spec rules packet (decide_packet_fast packet rules) \<and>
    (\<not> view_ok packet \<longrightarrow> decide_packet packet rules = Some pass_decision \<and>
       decide_packet_fast packet rules = pass_decision)"
proof -
  have r: "view_readable packet" using parsed_view_readable [OF assms(2,1)] .
  show ?thesis
    using not_ok_no_match [of packet rules] decide_by_spec [of packet rules]
    by (cases "find (\<lambda>r. rule_matches_packet r packet) rules")
      (auto simp: decide_packet_find [OF r] decide_packet_fast_find decision_spec_def)
qed

definition drop_half :: ChaosRule where
  "drop_half = ChaosRule_init\<lparr>cr_id := 7, cr_dst_port := 9090, cr_probability := 5000, cr_action := Drop\<rparr>"

abbreviation demo_frame :: "bytes \<Rightarrow> bytes" where
  "demo_frame payload \<equiv> wire_frame demo_fields (UdpPacket 5000 9090 0 payload) []"

lemma demo_frame_parses:
  assumes "length payload \<le> 100"
  obtains v where "parse_packet (Some (demo_frame payload)) (length (demo_frame payload)) = Some v" "view_ok v"
    "pv_ipv4_protocol v = 17" "pv_src_ip v = 0x0A000001" "pv_dst_ip v = 0x0A000002" "pv_src_port v = 5000"
    "pv_dst_port v = 9090" "pv_payload_length v = length payload" "payload_data v = Some payload"
  using wire_frame_parses [OF demo_ok(1), of "UdpPacket 5000 9090 0 payload" "[]"] assms
  by (auto simp: kIPv4ProtocolUDP_def udp_datagram_def demo_fields_def)

theorem decide_packet_meets_spec_witness:
  "\<exists>packet d. parse_packet (Some (demo_frame [1])) (length (demo_frame [1])) = Some packet \<and>
     decide_packet packet [drop_half] = Some d \<and> decision_spec [drop_half] packet d"
proof -
  obtain v where v: "parse_packet (Some (demo_frame [1])) (length (demo_frame [1])) = Some v"
    by (rule demo_frame_parses [of "[1]"]) simp
  show ?thesis using decide_packet_meets_spec [OF _ v, of "[drop_half]"] v by auto
qed

text \<open>Raising the probability of a rule never spares a packet: a packet the rule acts on at probability \<open>p\<close> is
  acted on in the same way at every probability \<open>q \<ge> p\<close>, since the roll does not depend on the probability.\<close>

lemma decision_monotone:
  assumes "p \<le> q" "cd_action (decide_for_rule_fast (rule\<lparr>cr_probability := p\<rparr>) packet) = cr_action rule"
  shows "cd_action (decide_for_rule_fast (rule\<lparr>cr_probability := q\<rparr>) packet) = cr_action rule \<and>
    cd_delay_ns (decide_for_rule_fast (rule\<lparr>cr_probability := q\<rparr>) packet) =
    cd_delay_ns (decide_for_rule_fast (rule\<lparr>cr_probability := p\<rparr>) packet)"
proof -
  have h: "stable_flow_hash (rule\<lparr>cr_probability := x\<rparr>) packet = stable_flow_hash rule packet" for x
    by (simp add: stable_flow_hash_def)
  have "p \<noteq> 0 \<or> cr_action rule = Pass" using assms(2)
    by (auto simp: decide_for_rule_fast_by decide_by_def pass_from_rule_def)
  then show ?thesis
    using assms by (auto simp: decide_for_rule_fast_by h decide_by_def Let_def pass_from_rule_def applied_decision_def
        word_le_nat_alt split: if_splits)
qed

text \<open>C12: The packet hash separates near packets: for one rule, two packets whose hashed bytes (seed, addresses,
  ports, protocol, payload length, payload) differ in exactly one byte never have the same hash.\<close>

theorem packet_hash_separates:
  assumes "view_readable v" "view_readable w"
    and "i < length (flow_bytes r v @ payload_bytes v)" "b \<noteq> (flow_bytes r v @ payload_bytes v) ! i"
    and "flow_bytes r w @ payload_bytes w = (flow_bytes r v @ payload_bytes v)[i := b]"
  shows "stable_packet_hash r v \<noteq> stable_packet_hash r w"
proof
  assume "stable_packet_hash r v = stable_packet_hash r w"
  then have "avalanche64 (fnv1a kFnvOffsetBasis (flow_bytes r v @ payload_bytes v)) =
      avalanche64 (fnv1a kFnvOffsetBasis ((flow_bytes r v @ payload_bytes v)[i := b]))"
    using assms(5) by (simp only: stable_packet_hash_fnv1a [OF assms(1)] stable_packet_hash_fnv1a [OF assms(2)] option.inject)
  then have "fnv1a kFnvOffsetBasis (flow_bytes r v @ payload_bytes v) =
      fnv1a kFnvOffsetBasis ((flow_bytes r v @ payload_bytes v)[i := b])" by (rule avalanche64_inj)
  then show False using fnv1a_single_byte [OF assms(3,4), of kFnvOffsetBasis] by (simp only:)
qed

theorem packet_hash_separates_witness:
  "\<exists>v w. parse_packet (Some (demo_frame [1, 2])) (length (demo_frame [1, 2])) = Some v \<and>
     parse_packet (Some (demo_frame [1, 3])) (length (demo_frame [1, 3])) = Some w \<and>
     stable_packet_hash drop_half v \<noteq> stable_packet_hash drop_half w"
proof -
  obtain v where v: "parse_packet (Some (demo_frame [1, 2])) (length (demo_frame [1, 2])) = Some v"
    "pv_ipv4_protocol v = 17" "pv_src_ip v = 0x0A000001" "pv_dst_ip v = 0x0A000002" "pv_src_port v = 5000"
    "pv_dst_port v = 9090" "pv_payload_length v = 2" "payload_data v = Some [1, 2]"
    by (rule demo_frame_parses [of "[1, 2]"]) simp_all
  obtain w where w: "parse_packet (Some (demo_frame [1, 3])) (length (demo_frame [1, 3])) = Some w"
    "pv_ipv4_protocol w = 17" "pv_src_ip w = 0x0A000001" "pv_dst_ip w = 0x0A000002" "pv_src_port w = 5000"
    "pv_dst_port w = 9090" "pv_payload_length w = 2" "payload_data w = Some [1, 3]"
    by (rule demo_frame_parses [of "[1, 3]"]) simp_all
  have len: "length (flow_bytes drop_half v) = 29" by (simp add: flow_bytes_def)
  have "flow_bytes drop_half w = flow_bytes drop_half v" using v w by (simp add: flow_bytes_def)
  then show ?thesis
    using packet_hash_separates [OF parsed_view_readable [OF v(1)] parsed_view_readable [OF w(1)], of 30 drop_half 3] v w len
    by (simp add: payload_bytes_def nth_append list_update_append)
qed

text \<open>The fate of a packet is a function of its flow, the rules and its payload length: two packets with the same
  addresses, ports, protocol and payload length get the same decision on the data path, whatever their
  payloads are, when they arrive and whatever was decided before.\<close>

lemma fast_decision_deterministic:
  assumes "view_ok v = view_ok w" "pv_src_ip v = pv_src_ip w" "pv_dst_ip v = pv_dst_ip w"
    "pv_src_port v = pv_src_port w" "pv_dst_port v = pv_dst_port w" "pv_ipv4_protocol v = pv_ipv4_protocol w"
    "pv_payload_length v = pv_payload_length w"
  shows "decide_packet_fast v rules = decide_packet_fast w rules"
proof -
  have "rule_matches_packet r v = rule_matches_packet r w" "stable_flow_hash r v = stable_flow_hash r w" for r
    using assms by (simp_all add: rule_matches_packet_def stable_flow_hash_def)
  then show ?thesis by (simp add: decide_packet_fast_find split: option.splits)
qed

text \<open>C13: The flow alone does not decide the fate of a packet: there are two packets of one flow, with payloads of
  two and of three bytes, such that one rule passes the first and drops the second, because the
  payload length is part of the flow hash.\<close>

theorem flow_fate_depends_on_length:
  "\<exists>v w. parse_packet (Some (demo_frame [0, 0])) (length (demo_frame [0, 0])) = Some v \<and>
     parse_packet (Some (demo_frame [0, 0, 0])) (length (demo_frame [0, 0, 0])) = Some w \<and> view_ok v \<and> view_ok w \<and>
     (pv_src_ip v, pv_dst_ip v, pv_src_port v, pv_dst_port v, pv_ipv4_protocol v) =
     (pv_src_ip w, pv_dst_ip w, pv_src_port w, pv_dst_port w, pv_ipv4_protocol w) \<and>
     cd_action (decide_packet_fast v [drop_half]) = Pass \<and> cd_action (decide_packet_fast w [drop_half]) = Drop"
proof -
  define u where "u n = PacketView_init\<lparr>pv_status := ParseOk, pv_src_ip := 0x0A000001, pv_dst_ip := 0x0A000002,
    pv_src_port := 5000, pv_dst_port := 9090, pv_ipv4_protocol := 17, pv_payload_length := n\<rparr>" for n
  obtain v where v: "parse_packet (Some (demo_frame [0, 0])) (length (demo_frame [0, 0])) = Some v" "view_ok v"
    "pv_ipv4_protocol v = 17" "pv_src_ip v = 0x0A000001" "pv_dst_ip v = 0x0A000002" "pv_src_port v = 5000"
    "pv_dst_port v = 9090" "pv_payload_length v = 2"
    by (rule demo_frame_parses [of "[0, 0]"]) simp_all
  obtain w where w: "parse_packet (Some (demo_frame [0, 0, 0])) (length (demo_frame [0, 0, 0])) = Some w" "view_ok w"
    "pv_ipv4_protocol w = 17" "pv_src_ip w = 0x0A000001" "pv_dst_ip w = 0x0A000002" "pv_src_port w = 5000"
    "pv_dst_port w = 9090" "pv_payload_length w = 3"
    by (rule demo_frame_parses [of "[0, 0, 0]"]) simp_all
  have m: "rule_matches_packet drop_half v" "rule_matches_packet drop_half w"
    using v w by (simp_all add: rule_matches_packet_def rule_is_enabled_def drop_half_def ChaosRule_init_def)
  have h: "stable_flow_hash drop_half v = stable_flow_hash drop_half (u 2)"
    "stable_flow_hash drop_half w = stable_flow_hash drop_half (u 3)"
    using v w by (simp_all add: stable_flow_hash_def u_def)
  have "cd_action (decide_by drop_half (stable_flow_hash drop_half (u 2))) = Pass"
    "cd_action (decide_by drop_half (stable_flow_hash drop_half (u 3))) = Drop"
    unfolding u_def by code_simp+
  then show ?thesis using v w m h by (simp add: decide_for_rule_fast_by)
qed

end
