(* ===== verification/Rule_Store.thy ===== *)
theory Rule_Store
  imports Main
begin

section \<open>The contract of a bounded rule store\<close>

text \<open>
  What the request dispatcher relies on: a store holds a list of rules of bounded length, to which a rule is
  appended, from which one is removed by position, and which is cleared; a full store and a position out of range
  are refused without a change. The rule table interprets the locale.
\<close>

datatype 'r edit = Add 'r | Remove nat | Clear

fun list_edit :: "nat \<Rightarrow> 'r edit \<Rightarrow> 'r list \<Rightarrow> 'r list" where
  "list_edit n (Add r) rs = (if length rs < n then rs @ [r] else rs)"
| "list_edit n (Remove i) rs = take i rs @ drop (Suc i) rs"
| "list_edit n Clear rs = []"

fun edit_result :: "'s \<Rightarrow> 's \<Rightarrow> 's \<Rightarrow> nat \<Rightarrow> 'r edit \<Rightarrow> 'r list \<Rightarrow> 's" where
  "edit_result ok full bad_index n (Add r) rs = (if length rs < n then ok else full)"
| "edit_result ok full bad_index n (Remove i) rs = (if i < length rs then ok else bad_index)"
| "edit_result ok full bad_index n Clear rs = ok"

fun store_edit :: "('r \<Rightarrow> 't \<Rightarrow> ('s \<times> 't) option) \<Rightarrow> (nat \<Rightarrow> 't \<Rightarrow> ('s \<times> 't) option) \<Rightarrow> ('t \<Rightarrow> 't option) \<Rightarrow> 's
    \<Rightarrow> 'r edit \<Rightarrow> 't \<Rightarrow> ('s \<times> 't) option" where
  "store_edit add remove clear ok (Add r) t = add r t"
| "store_edit add remove clear ok (Remove i) t = remove i t"
| "store_edit add remove clear ok Clear t = map_option (Pair ok) (clear t)"

fun store_run :: "('r \<Rightarrow> 't \<Rightarrow> ('s \<times> 't) option) \<Rightarrow> (nat \<Rightarrow> 't \<Rightarrow> ('s \<times> 't) option) \<Rightarrow> ('t \<Rightarrow> 't option) \<Rightarrow> 's
    \<Rightarrow> 'r edit list \<Rightarrow> 't \<Rightarrow> 't option" where
  "store_run add remove clear ok [] t = Some t"
| "store_run add remove clear ok (e # es) t =
     (case store_edit add remove clear ok e t of
        None \<Rightarrow> None
      | Some (s, t') \<Rightarrow> store_run add remove clear ok es t')"

locale rule_store =
  fixes inv :: "'t \<Rightarrow> bool"
    and abs :: "'t \<Rightarrow> 'r list"
    and cap :: "'t \<Rightarrow> nat"
    and add :: "'r \<Rightarrow> 't \<Rightarrow> ('s \<times> 't) option"
    and remove :: "nat \<Rightarrow> 't \<Rightarrow> ('s \<times> 't) option"
    and clear :: "'t \<Rightarrow> 't option"
    and ok :: 's and full :: 's and bad_index :: 's
  assumes bounded: "inv t \<Longrightarrow> length (abs t) \<le> cap t"
    and add_room: "inv t \<Longrightarrow> length (abs t) < cap t \<Longrightarrow>
          \<exists>t'. add r t = Some (ok, t') \<and> inv t' \<and> cap t' = cap t \<and> abs t' = abs t @ [r]"
    and add_full: "inv t \<Longrightarrow> length (abs t) = cap t \<Longrightarrow> add r t = Some (full, t)"
    and remove_in: "inv t \<Longrightarrow> i < length (abs t) \<Longrightarrow>
          \<exists>t'. remove i t = Some (ok, t') \<and> inv t' \<and> cap t' = cap t \<and> abs t' = take i (abs t) @ drop (Suc i) (abs t)"
    and remove_out: "inv t \<Longrightarrow> length (abs t) \<le> i \<Longrightarrow> remove i t = Some (bad_index, t)"
    and clear_all: "inv t \<Longrightarrow> \<exists>t'. clear t = Some t' \<and> inv t' \<and> cap t' = cap t \<and> abs t' = []"
begin

lemma edit_refines:
  assumes "inv t"
  shows "\<exists>t'. store_edit add remove clear ok e t = Some (edit_result ok full bad_index (cap t) e (abs t), t') \<and>
    inv t' \<and> cap t' = cap t \<and> abs t' = list_edit (cap t) e (abs t)"
proof (cases e)
  case (Add r)
  then show ?thesis using add_room [OF assms, of r] add_full [OF assms, of r] bounded [OF assms] assms
    by (cases "length (abs t) < cap t") auto
next
  case (Remove i)
  then show ?thesis using remove_in [OF assms, of i] remove_out [OF assms, of i] assms
    by (cases "i < length (abs t)") auto
next
  case Clear
  then show ?thesis using clear_all [OF assms] by auto
qed

lemma run_refines:
  "inv t \<Longrightarrow> \<exists>t'. store_run add remove clear ok es t = Some t' \<and> inv t' \<and> cap t' = cap t \<and>
     abs t' = fold (list_edit (cap t)) es (abs t)"
proof (induction es arbitrary: t)
  case (Cons e es)
  from edit_refines [OF Cons.prems, of e] obtain t1 where t1:
    "store_edit add remove clear ok e t = Some (edit_result ok full bad_index (cap t) e (abs t), t1)"
    "inv t1" "cap t1 = cap t" "abs t1 = list_edit (cap t) e (abs t)" by blast
  with Cons.IH [OF t1(2)] show ?case by auto
qed simp

end

end
