(* ===== verification/Control_Core.thy ===== *)
theory Control_Core
  imports Protocol Chaos_Engine Rule_Store
begin

section \<open>Rule table and request dispatch (\<open>include/chronosx/protocol.hpp\<close>, second half)\<close>

text \<open>
  The rule table is an array with a fill count, and \<open>ControlCore::handle\<close> decodes a request, changes the
  table or reads the statistics, and encodes the response into a span of the caller. A handler returns its
  result, the new contents of the response span and the new state; \<open>None\<close> is an access outside an
  array or a span.

  Rules and statistics travel as the object representation of the structures, copied with \<open>memcpy\<close>. The
  layout is that of the static assertions of the headers on a little-endian machine: 40 bytes without padding
  for \<open>ChaosRule\<close>; 44 bytes and 4 bytes of padding for \<open>StatUpdate\<close>, whose value the language leaves
  open and which is therefore an argument of the handlers.
\<close>

subsection \<open>The rule table\<close>

record RuleTable =
  rt_rules :: "ChaosRule list"
  rt_count :: nat

definition RuleTable_init :: "nat \<Rightarrow> RuleTable" where
  "RuleTable_init MaxRules = \<lparr>rt_rules = replicate MaxRules ChaosRule_init, rt_count = 0\<rparr>"

definition rule_capacity :: "RuleTable \<Rightarrow> nat" where
  "rule_capacity t = length (rt_rules t)"

definition add_entry :: "ChaosRule \<Rightarrow> RuleTable \<Rightarrow> (ProtocolStatus \<times> RuleTable) option" where
  "add_entry rule t =
     (if rt_count t \<ge> rule_capacity t then Some (RuleTableFull, t)
      else do {
        rules \<leftarrow> wr (rt_rules t) (rt_count t) rule;
        Some (ProtocolOk, t\<lparr>rt_rules := rules, rt_count := rt_count t + 1\<rparr>)
      })"

function shift_down :: "nat \<Rightarrow> nat \<Rightarrow> ChaosRule list \<Rightarrow> ChaosRule list option" where
  "shift_down current n rules =
     (if current < n then do {
        r \<leftarrow> rd rules current;
        rules \<leftarrow> wr rules (current - 1) r;
        shift_down (current + 1) n rules
      } else Some rules)"
  by pat_completeness auto
termination by (relation "measure (\<lambda>(current, n, rules). n - current)") auto

definition remove_at :: "nat \<Rightarrow> RuleTable \<Rightarrow> (ProtocolStatus \<times> RuleTable) option" where
  "remove_at index t =
     (if index \<ge> rt_count t then Some (RuleIndexOutOfRange, t)
      else do {
        rules \<leftarrow> shift_down (index + 1) (rt_count t) (rt_rules t);
        rules \<leftarrow> wr rules (rt_count t - 1) ChaosRule_init;
        Some (ProtocolOk, t\<lparr>rt_rules := rules, rt_count := rt_count t - 1\<rparr>)
      })"

function clear_from :: "nat \<Rightarrow> nat \<Rightarrow> ChaosRule list \<Rightarrow> ChaosRule list option" where
  "clear_from index n rules =
     (if index < n then do {
        rules \<leftarrow> wr rules index ChaosRule_init;
        clear_from (index + 1) n rules
      } else Some rules)"
  by pat_completeness auto
termination by (relation "measure (\<lambda>(index, n, rules). n - index)") auto

definition clear_rules :: "RuleTable \<Rightarrow> RuleTable option" where
  "clear_rules t = do {
     rules \<leftarrow> clear_from 0 (rt_count t) (rt_rules t);
     Some (t\<lparr>rt_rules := rules, rt_count := 0\<rparr>)
   }"

definition table_rules :: "RuleTable \<Rightarrow> ChaosRule list" where
  "table_rules t = take (rt_count t) (rt_rules t)"

subsection \<open>Object representations\<close>

definition rule_bytes :: "ChaosRule \<Rightarrow> bytes" where
  "rule_bytes r = le_bytes 8 (cr_seed r) @ le_bytes 8 (cr_delay_ns r) @ le_bytes 4 (cr_id r) @
     le_bytes 4 (cr_src_ip r) @ le_bytes 4 (cr_dst_ip r) @ le_bytes 2 (cr_src_port r) @ le_bytes 2 (cr_dst_port r) @
     le_bytes 2 (cr_probability r) @ [cr_protocol r, cr_action r, cr_enabled r] @
     (case cr_reserved r of (a, b, c) \<Rightarrow> [a, b, c])"

text \<open>\<open>memcpy\<close> of the 40 bytes of a message into a rule.\<close>

definition rule_of_bytes :: "bytes \<Rightarrow> ChaosRule option" where
  "rule_of_bytes bs =
     (if length bs = 40 then Some
        \<lparr>cr_seed = le_val (take 8 bs), cr_delay_ns = le_val (take 8 (drop 8 bs)), cr_id = le_val (take 4 (drop 16 bs)),
         cr_src_ip = le_val (take 4 (drop 20 bs)), cr_dst_ip = le_val (take 4 (drop 24 bs)),
         cr_src_port = le_val (take 2 (drop 28 bs)), cr_dst_port = le_val (take 2 (drop 30 bs)),
         cr_probability = le_val (take 2 (drop 32 bs)), cr_protocol = bs ! 34, cr_action = bs ! 35, cr_enabled = bs ! 36,
         cr_reserved = (bs ! 37, bs ! 38, bs ! 39)\<rparr>
      else None)"

type_synonym padding = "u8 \<times> u8 \<times> u8 \<times> u8"

definition stat_bytes :: "padding \<Rightarrow> StatUpdate \<Rightarrow> bytes" where
  "stat_bytes pad s = le_bytes 8 (timestamp_cycles s) @ le_bytes 8 (su_packets_seen s) @ le_bytes 8 (su_packets_dropped s) @
     le_bytes 8 (su_bytes_seen s) @ le_bytes 8 (su_average_latency_ns s) @ [su_last_action s, su_reserved0 s] @
     le_bytes 2 (su_reserved1 s) @ (case pad of (a, b, c, d) \<Rightarrow> [a, b, c, d])"

subsection \<open>Dispatch\<close>

record ControlResponse =
  cp_status :: ProtocolStatus
  cp_opcode :: Opcode
  cp_bytes_written :: nat

record ControlCore =
  rule_table :: RuleTable
  latest_stats :: StatUpdate
  have_stats :: bool

definition ControlCore_init :: "nat \<Rightarrow> ControlCore" where
  "ControlCore_init MaxRules = \<lparr>rule_table = RuleTable_init MaxRules, latest_stats = StatUpdate_init, have_stats = False\<rparr>"

definition response_header :: "Opcode \<Rightarrow> u32 \<Rightarrow> MessageHeader" where
  "response_header opcode sequence = MessageHeader_init\<lparr>mh_opcode := opcode, mh_sequence := sequence\<rparr>"

definition encode_payload :: "Opcode \<Rightarrow> u32 \<Rightarrow> bytes \<Rightarrow> bytes \<Rightarrow> (ControlResponse \<times> bytes) option" where
  "encode_payload opcode sequence payload response = do {
     (encoded, response) \<leftarrow> encode_message (response_header opcode sequence) payload response;
     Some (\<lparr>cp_status = er_status encoded, cp_opcode = opcode, cp_bytes_written = er_bytes_written encoded\<rparr>, response)
   }"

definition encode_empty :: "Opcode \<Rightarrow> u32 \<Rightarrow> bytes \<Rightarrow> (ControlResponse \<times> bytes) option" where
  "encode_empty opcode sequence response = do {
     (encoded, response) \<leftarrow> encode_message (response_header opcode sequence) [] response;
     Some (\<lparr>cp_status = er_status encoded, cp_opcode = opcode, cp_bytes_written = er_bytes_written encoded\<rparr>, response)
   }"

text \<open>The bytes of a status name, as \<open>reinterpret_cast\<close> sees them.\<close>

definition name_bytes :: "string \<Rightarrow> bytes" where
  "name_bytes s = map (\<lambda>c. of_nat (of_char c)) s"

definition encode_error :: "ProtocolStatus \<Rightarrow> u32 \<Rightarrow> bytes \<Rightarrow> (ControlResponse \<times> bytes) option" where
  "encode_error status sequence response = do {
     (encoded, response) \<leftarrow> encode_message (response_header OpError sequence) (name_bytes (protocol_status_name status)) response;
     Some (\<lparr>cp_status = status, cp_opcode = OpError, cp_bytes_written = er_bytes_written encoded\<rparr>, response)
   }"

definition handle_get_stats :: "padding \<Rightarrow> u32 \<Rightarrow> bytes \<Rightarrow> ControlCore \<Rightarrow> (ControlResponse \<times> bytes) option" where
  "handle_get_stats pad sequence response c =
     encode_payload OpStatsResponse sequence (stat_bytes pad (if have_stats c then latest_stats c else StatUpdate_init)) response"

text \<open>A result of a handler together with the state it leaves.\<close>

definition with_core :: "ControlCore \<Rightarrow> (ControlResponse \<times> bytes) option \<Rightarrow> (ControlResponse \<times> bytes \<times> ControlCore) option" where
  "with_core c res = do { (resp, out) \<leftarrow> res; Some (resp, out, c) }"

definition handle_add_rule :: "DecodedMessage \<Rightarrow> bytes \<Rightarrow> ControlCore \<Rightarrow> (ControlResponse \<times> bytes \<times> ControlCore) option" where
  "handle_add_rule message response c =
     (if length (dm_payload message) \<noteq> 40
      then with_core c (encode_error InvalidPayload (mh_sequence (dm_header message)) response)
      else do {
        rule \<leftarrow> rule_of_bytes (dm_payload message);
        (status, table) \<leftarrow> add_entry rule (rule_table c);
        if status \<noteq> ProtocolOk
        then with_core (c\<lparr>rule_table := table\<rparr>) (encode_error status (mh_sequence (dm_header message)) response)
        else with_core (c\<lparr>rule_table := table\<rparr>) (encode_empty OpPong (mh_sequence (dm_header message)) response)
      })"

definition handle_remove_rule :: "DecodedMessage \<Rightarrow> bytes \<Rightarrow> ControlCore \<Rightarrow> (ControlResponse \<times> bytes \<times> ControlCore) option" where
  "handle_remove_rule message response c =
     (if length (dm_payload message) \<noteq> 4
      then with_core c (encode_error InvalidPayload (mh_sequence (dm_header message)) response)
      else do {
        index \<leftarrow> read_u32_be (dm_payload message) 0;
        (status, table) \<leftarrow> remove_at (unat index) (rule_table c);
        if status \<noteq> ProtocolOk
        then with_core (c\<lparr>rule_table := table\<rparr>) (encode_error status (mh_sequence (dm_header message)) response)
        else with_core (c\<lparr>rule_table := table\<rparr>) (encode_empty OpPong (mh_sequence (dm_header message)) response)
      })"

definition handle_list_rules :: "u32 \<Rightarrow> bytes \<Rightarrow> ControlCore \<Rightarrow> (ControlResponse \<times> bytes) option" where
  "handle_list_rules sequence response c =
     encode_payload OpRulesResponse sequence (concat (map rule_bytes (table_rules (rule_table c)))) response"

definition handle :: "padding \<Rightarrow> bytes \<Rightarrow> bytes \<Rightarrow> ControlCore \<Rightarrow> (ControlResponse \<times> bytes \<times> ControlCore) option" where
  "handle pad request response c = do {
     decoded \<leftarrow> decode_message request;
     if dr_status decoded \<noteq> ProtocolOk then with_core c (encode_error (dr_status decoded) 0 response)
     else
       let message = dr_message decoded;
           opcode = mh_opcode (dm_header message);
           sequence = mh_sequence (dm_header message)
       in if opcode = OpPing then with_core c (encode_empty OpPong sequence response)
          else if opcode = OpGetStats then with_core c (handle_get_stats pad sequence response c)
          else if opcode = OpAddRule then handle_add_rule message response c
          else if opcode = OpRemoveRule then handle_remove_rule message response c
          else if opcode = OpClearRules then do {
            table \<leftarrow> clear_rules (rule_table c);
            with_core (c\<lparr>rule_table := table\<rparr>) (encode_empty OpPong sequence response)
          }
          else if opcode = OpListRules then with_core c (handle_list_rules sequence response c)
          else with_core c (encode_error UnknownOpcode sequence response)
   }"

definition publish_stats :: "StatUpdate \<Rightarrow> ControlCore \<Rightarrow> ControlCore" where
  "publish_stats update c = c\<lparr>latest_stats := update, have_stats := True\<rparr>"

declare shift_down.simps [simp del] clear_from.simps [simp del]

subsection \<open>The table is a bounded list\<close>

text \<open>The entries behind the count are default rules: a removed rule is not left in memory.\<close>

definition table_inv :: "RuleTable \<Rightarrow> bool" where
  "table_inv t \<longleftrightarrow> rt_count t \<le> rule_capacity t \<and>
     rt_rules t = table_rules t @ replicate (rule_capacity t - rt_count t) ChaosRule_init"

lemma table_inv_cases:
  assumes "table_inv t"
  obtains xs k where "rt_rules t = xs @ replicate k ChaosRule_init" "rt_count t = length xs" "table_rules t = xs"
    "rule_capacity t = length xs + k"
proof (rule that)
  show "rt_rules t = table_rules t @ replicate (rule_capacity t - rt_count t) ChaosRule_init" using assms by (simp only: table_inv_def)
  show "rt_count t = length (table_rules t)" "rule_capacity t = length (table_rules t) + (rule_capacity t - rt_count t)"
    using assms by (simp_all add: table_inv_def table_rules_def rule_capacity_def)
qed simp

lemma table_invI:
  "rt_rules t = xs @ replicate k ChaosRule_init \<Longrightarrow> rt_count t = length xs \<Longrightarrow>
     table_inv t \<and> table_rules t = xs \<and> rule_capacity t = length xs + k"
  by (simp add: table_inv_def table_rules_def rule_capacity_def)

lemma wr_at: "wr (A @ x # Z) (length A) v = Some (A @ v # Z)"
  by simp

lemma shift_down_list:
  "shift_down (length A + 1) (length A + 1 + length B) (A @ x # B @ Z) = Some (A @ B @ last (x # B) # Z)"
proof (induction B arbitrary: A x)
  case (Cons b B)
  have "rd (A @ x # (b # B) @ Z) (length A + 1) = Some b" by (simp add: nth_append)
  moreover have "wr (A @ x # (b # B) @ Z) (length A) b = Some ((A @ [b]) @ b # B @ Z)" by (simp add: list_update_append)
  ultimately show ?case using Cons.IH [of "A @ [b]" b] by (subst shift_down.simps) simp
qed (simp add: shift_down.simps)

lemma clear_from_list:
  "clear_from (length A) (length A + length B) (A @ B @ Z) = Some (A @ replicate (length B) ChaosRule_init @ Z)"
proof (induction B arbitrary: A)
  case (Cons b B)
  have "wr (A @ (b # B) @ Z) (length A) ChaosRule_init = Some ((A @ [ChaosRule_init]) @ B @ Z)" by (simp add: list_update_append)
  then show ?case using Cons.IH [of "A @ [ChaosRule_init]"] by (subst clear_from.simps) simp
qed (simp add: clear_from.simps)

interpretation rt: rule_store table_inv table_rules rule_capacity add_entry remove_at clear_rules ProtocolOk RuleTableFull RuleIndexOutOfRange
proof unfold_locales
  fix t r i assume inv: "table_inv t"
  then obtain xs k where t: "rt_rules t = xs @ replicate k ChaosRule_init" "rt_count t = length xs" "table_rules t = xs"
    "rule_capacity t = length xs + k" by (rule table_inv_cases)
  show "length (table_rules t) \<le> rule_capacity t" using t by simp
  show "add_entry r t = Some (RuleTableFull, t)" if "length (table_rules t) = rule_capacity t"
    using that t by (simp add: add_entry_def)
  show "remove_at i t = Some (RuleIndexOutOfRange, t)" if "length (table_rules t) \<le> i"
    using that t by (simp add: remove_at_def)
  show "\<exists>t'. add_entry r t = Some (ProtocolOk, t') \<and> table_inv t' \<and> rule_capacity t' = rule_capacity t \<and> table_rules t' = table_rules t @ [r]"
    if room: "length (table_rules t) < rule_capacity t"
  proof -
    obtain k' where k: "k = Suc k'" using room t by (cases k) auto
    let ?t = "t\<lparr>rt_rules := (xs @ [r]) @ replicate k' ChaosRule_init, rt_count := length (xs @ [r])\<rparr>"
    have "add_entry r t = Some (ProtocolOk, ?t)" using t k by (simp add: add_entry_def list_update_append)
    then show ?thesis using table_invI [of ?t "xs @ [r]" k'] t k by simp
  qed
  show "\<exists>t'. remove_at i t = Some (ProtocolOk, t') \<and> table_inv t' \<and> rule_capacity t' = rule_capacity t \<and>
      table_rules t' = take i (table_rules t) @ drop (Suc i) (table_rules t)" if i: "i < length (table_rules t)"
  proof -
    let ?A = "take i xs" and ?B = "drop (Suc i) xs" and ?Z = "replicate k ChaosRule_init"
    have xs: "xs = ?A @ xs ! i # ?B" "length ?A = i" using i t by (simp_all add: id_take_nth_drop)
    let ?t = "t\<lparr>rt_rules := (?A @ ?B) @ replicate (Suc k) ChaosRule_init, rt_count := length (?A @ ?B)\<rparr>"
    have n: "length xs = i + 1 + length ?B" using i t by simp
    have "shift_down (i + 1) (length xs) (xs @ ?Z) = Some (?A @ ?B @ last (xs ! i # ?B) # ?Z)"
      using shift_down_list [of ?A ?B "xs ! i" ?Z] xs n by (metis append_Cons append_assoc)
    moreover have "wr (?A @ ?B @ last (xs ! i # ?B) # ?Z) (length xs - 1) ChaosRule_init =
        Some ((?A @ ?B) @ replicate (Suc k) ChaosRule_init)"
      using wr_at [of "?A @ ?B" "last (xs ! i # ?B)" ?Z ChaosRule_init] i t by simp
    ultimately have "remove_at i t = Some (ProtocolOk, ?t)" using t i by (simp add: remove_at_def)
    then show ?thesis using table_invI [of ?t "?A @ ?B" "Suc k"] t i by simp
  qed
  show "\<exists>t'. clear_rules t = Some t' \<and> table_inv t' \<and> rule_capacity t' = rule_capacity t \<and> table_rules t' = []"
  proof -
    let ?t = "t\<lparr>rt_rules := [] @ replicate (length xs + k) ChaosRule_init, rt_count := length ([] :: ChaosRule list)\<rparr>"
    have "clear_rules t = Some ?t"
      using clear_from_list [of "[]" xs "replicate k ChaosRule_init"] t by (simp add: clear_rules_def replicate_add)
    then show ?thesis using table_invI [of ?t "[]" "length xs + k"] t by simp
  qed
qed

lemma RuleTable_init_inv [simp]: "table_inv (RuleTable_init n)" "table_rules (RuleTable_init n) = []" "rule_capacity (RuleTable_init n) = n"
  using table_invI [of "RuleTable_init n" "[]" n] by (simp_all add: RuleTable_init_def)

subsection \<open>Object representations are faithful\<close>

lemma length_rule_bytes [simp]: "length (rule_bytes r) = 40"
  by (simp add: rule_bytes_def split: prod.split)

lemma rule_of_bytes_bytes [simp]: "rule_of_bytes (rule_bytes r) = Some r"
proof -
  obtain a b c where r: "cr_reserved r = (a, b, c)" by (cases "cr_reserved r")
  show ?thesis by (simp add: rule_of_bytes_def) (simp add: rule_bytes_def r nth_append)
qed

lemma rule_bytes_of_bytes:
  assumes "rule_of_bytes bs = Some r"
  shows "rule_bytes r = bs"
proof -
  have len: "length bs = 40" using assms by (auto simp: rule_of_bytes_def split: if_splits)
  have split: "drop k bs = take n (drop k bs) @ drop (k + n) bs" for k n
    by (metis add.commute append_take_drop_id drop_drop)
  have tail: "drop 34 bs = [bs ! 34, bs ! 35, bs ! 36, bs ! 37, bs ! 38, bs ! 39]"
    using len by (simp add: Cons_nth_drop_Suc [symmetric] numeral_eq_Suc)
  have "rule_bytes r = take 8 bs @ take 8 (drop 8 bs) @ take 4 (drop 16 bs) @ take 4 (drop 20 bs) @ take 4 (drop 24 bs) @
    take 2 (drop 28 bs) @ take 2 (drop 30 bs) @ take 2 (drop 32 bs) @ drop 34 bs"
    using assms len by (auto simp: rule_of_bytes_def rule_bytes_def tail)
  also have "\<dots> = bs"
    using split [of 0 8] split [of 8 8] split [of 16 4] split [of 20 4] split [of 24 4] split [of 28 2] split [of 30 2] split [of 32 2]
    by simp
  finally show ?thesis .
qed

lemma length_stat_bytes [simp]: "length (stat_bytes pad s) = 48"
  by (simp add: stat_bytes_def split: prod.split)

lemma length_rules_bytes [simp]: "length (concat (map rule_bytes rs)) = 40 * length rs"
  by (induction rs) simp_all

lemma name_length: "length (name_bytes (protocol_status_name st)) \<le> 19"
  by (cases st) (simp_all add: name_bytes_def protocol_status_name_def)

subsection \<open>What a request does\<close>

text \<open>The specification: a request edits the list of rules or reads from the state, and has a reply (status, opcode, payload).\<close>

definition request_edit :: "Opcode \<Rightarrow> bytes \<Rightarrow> ProtocolStatus + ChaosRule edit" where
  "request_edit opcode payload =
     (if opcode = OpAddRule then (case rule_of_bytes payload of None \<Rightarrow> Inl InvalidPayload | Some r \<Rightarrow> Inr (Add r))
      else if opcode = OpRemoveRule then
        (case payload of [b0, b1, b2, b3] \<Rightarrow> Inr (Remove (unat (be32 b0 b1 b2 b3))) | _ \<Rightarrow> Inl InvalidPayload)
      else if opcode = OpClearRules then Inr Clear
      else Inl UnknownOpcode)"

type_synonym reply = "ProtocolStatus \<times> Opcode \<times> bytes"

definition error_reply :: "ProtocolStatus \<Rightarrow> reply" where
  "error_reply st = (st, OpError, name_bytes (protocol_status_name st))"

definition pong :: reply where
  "pong = (ProtocolOk, OpPong, [])"

definition spec_request :: "nat \<Rightarrow> bytes \<Rightarrow> Opcode \<Rightarrow> bytes \<Rightarrow> ChaosRule list \<Rightarrow> reply \<times> ChaosRule list" where
  "spec_request n stats opcode payload rs =
     (if opcode = OpPing then (pong, rs)
      else if opcode = OpGetStats then ((ProtocolOk, OpStatsResponse, stats), rs)
      else if opcode = OpListRules then ((ProtocolOk, OpRulesResponse, concat (map rule_bytes rs)), rs)
      else case request_edit opcode payload of
        Inl st \<Rightarrow> (error_reply st, rs)
      | Inr e \<Rightarrow>
          let st = edit_result ProtocolOk RuleTableFull RuleIndexOutOfRange n e rs
          in (if st = ProtocolOk then pong else error_reply st, list_edit n e rs))"

definition core_inv :: "ControlCore \<Rightarrow> bool" where
  "core_inv c \<longleftrightarrow> table_inv (rule_table c)"

definition core_rules :: "ControlCore \<Rightarrow> ChaosRule list" where
  "core_rules c = table_rules (rule_table c)"

definition core_stats :: "ControlCore \<Rightarrow> StatUpdate" where
  "core_stats c = (if have_stats c then latest_stats c else StatUpdate_init)"

text \<open>A reply as it is written into the response span.\<close>

definition sent :: "reply \<Rightarrow> u32 \<Rightarrow> bytes \<Rightarrow> ControlResponse \<times> bytes" where
  "sent rep sequence response = (case rep of (st, op, payload) \<Rightarrow>
     (\<lparr>cp_status = st, cp_opcode = op, cp_bytes_written = 24 + length payload\<rparr>,
      message_bytes (response_header op sequence) payload @ drop (24 + length payload) response))"

lemma encode_payload_sent:
  "length payload \<le> kMaxControlPayloadBytes \<Longrightarrow> 24 + length payload \<le> length response \<Longrightarrow>
     encode_payload op sequence payload response = Some (sent (ProtocolOk, op, payload) sequence response)"
  by (simp add: encode_payload_def encode_message_ok sent_def)

lemma encode_empty_sent:
  "24 \<le> length response \<Longrightarrow> encode_empty op sequence response = Some (sent (ProtocolOk, op, []) sequence response)"
  by (simp add: encode_empty_def encode_message_ok sent_def)

lemma encode_error_sent:
  "43 \<le> length response \<Longrightarrow> encode_error st sequence response = Some (sent (error_reply st) sequence response)"
  using name_length [of st] by (simp add: encode_error_def encode_message_ok sent_def error_reply_def kMaxControlPayloadBytes_def)

lemma with_core_Some [simp]: "with_core c (Some res) = Some (fst res, snd res, c)"
  by (simp add: with_core_def case_prod_beta)

lemma four_bytes: "length xs = 4 \<Longrightarrow> \<exists>b0 b1 b2 b3. xs = [b0, b1, b2, b3]"
  by (auto simp: length_Suc_conv numeral_eq_Suc)

lemma request_edit_remove:
  "request_edit OpRemoveRule payload =
     (if length payload = 4 then Inr (Remove (unat (be32 (payload ! 0) (payload ! 1) (payload ! 2) (payload ! 3)))) else Inl InvalidPayload)"
proof (cases "length payload = 4")
  case True
  then show ?thesis using four_bytes [OF True] by (auto simp: request_edit_def Opcode_defs)
next
  case False
  then show ?thesis by (auto simp: request_edit_def Opcode_defs split: list.split)
qed

lemma read_u32_be_four: "length xs = 4 \<Longrightarrow> read_u32_be xs 0 = Some (be32 (xs ! 0) (xs ! 1) (xs ! 2) (xs ! 3))"
  by (simp add: read_u32_be_def be32_def numeral_2_eq_2)

text \<open>The three requests that edit the table, in terms of the edit of the rule store.\<close>

abbreviation table_edit :: "ChaosRule edit \<Rightarrow> RuleTable \<Rightarrow> (ProtocolStatus \<times> RuleTable) option" where
  "table_edit \<equiv> store_edit add_entry remove_at clear_rules ProtocolOk"

lemma handle_edit:
  assumes dec: "decode_message request = Some r" "dr_status r = ProtocolOk"
    and m: "mh_opcode (dm_header (dr_message r)) = op" "mh_sequence (dm_header (dr_message r)) = sequence" "dm_payload (dr_message r) = payload"
    and e: "request_edit op payload = Inr e" "table_edit e (rule_table c) = Some (st, t')"
    and room: "43 \<le> length response"
  shows "handle pad request response c =
    Some (fst (sent (if st = ProtocolOk then pong else error_reply st) sequence response),
      snd (sent (if st = ProtocolOk then pong else error_reply st) sequence response), c\<lparr>rule_table := t'\<rparr>)"
proof -
  consider (add) rule where "op = OpAddRule" "length payload = 40" "rule_of_bytes payload = Some rule" "e = Add rule"
    | (remove) "op = OpRemoveRule" "length payload = 4" "e = Remove (unat (be32 (payload ! 0) (payload ! 1) (payload ! 2) (payload ! 3)))"
    | (clear) "op = OpClearRules" "e = Clear"
    using e(1) request_edit_remove [of payload]
    by (auto simp: request_edit_def rule_of_bytes_def split: if_splits option.splits)
  then show ?thesis
  proof cases
    case add
    then show ?thesis using dec m e(2) room
      by (simp add: handle_def handle_add_rule_def encode_error_sent encode_empty_sent pong_def Opcode_defs)
  next
    case remove
    then show ?thesis using dec m e(2) room
      by (simp add: handle_def handle_remove_rule_def read_u32_be_four encode_error_sent encode_empty_sent pong_def Opcode_defs)
  next
    case clear
    then show ?thesis using dec m e(2) room
      by (auto simp: handle_def encode_error_sent encode_empty_sent pong_def Opcode_defs)
  qed
qed

lemma handle_refuse:
  assumes dec: "decode_message request = Some r" "dr_status r = ProtocolOk"
    and m: "mh_opcode (dm_header (dr_message r)) = op" "mh_sequence (dm_header (dr_message r)) = sequence" "dm_payload (dr_message r) = payload"
    and e: "request_edit op payload = Inl st" "op \<notin> {OpPing, OpGetStats, OpListRules}"
    and room: "43 \<le> length response"
  shows "handle pad request response c = Some (fst (sent (error_reply st) sequence response), snd (sent (error_reply st) sequence response), c)"
proof -
  consider (add) "op = OpAddRule" "length payload \<noteq> 40" "st = InvalidPayload"
    | (remove) "op = OpRemoveRule" "length payload \<noteq> 4" "st = InvalidPayload"
    | (unknown) "op \<notin> {OpAddRule, OpRemoveRule, OpClearRules}" "st = UnknownOpcode"
    using e(1) request_edit_remove [of payload]
    by (auto simp: request_edit_def rule_of_bytes_def split: if_splits option.splits)
  then show ?thesis
    using dec m e(2) room
    by cases (simp_all add: handle_def handle_add_rule_def handle_remove_rule_def encode_error_sent Opcode_defs)
qed

lemma handle_refines_spec:
  assumes inv: "core_inv c" and cap: "rule_capacity (rule_table c) = n" "40 * n \<le> kMaxControlPayloadBytes"
    and room: "24 + 40 * n \<le> length response" "72 \<le> length response"
    and dec: "decode_message request = Some r" "dr_status r = ProtocolOk"
    and m: "mh_opcode (dm_header (dr_message r)) = op" "mh_sequence (dm_header (dr_message r)) = sequence" "dm_payload (dr_message r) = payload"
    and spec: "spec_request n (stat_bytes pad (core_stats c)) op payload (core_rules c) = (rep, rs)"
  shows "\<exists>t'. handle pad request response c = Some (fst (sent rep sequence response), snd (sent rep sequence response), c\<lparr>rule_table := t'\<rparr>) \<and>
    table_inv t' \<and> rule_capacity t' = n \<and> table_rules t' = rs"
proof -
  have inv': "table_inv (rule_table c)" using inv by (simp add: core_inv_def)
  have "length (core_rules c) \<le> n" using rt.bounded [OF inv'] cap by (simp add: core_rules_def)
  then have list_len: "24 + 40 * length (core_rules c) \<le> length response" "40 * length (core_rules c) \<le> kMaxControlPayloadBytes"
    using room cap by linarith+
  consider (read) "op \<in> {OpPing, OpGetStats, OpListRules}"
    | (edit) e where "op \<notin> {OpPing, OpGetStats, OpListRules}" "request_edit op payload = Inr e"
    | (refuse) st where "op \<notin> {OpPing, OpGetStats, OpListRules}" "request_edit op payload = Inl st"
    by (cases "request_edit op payload") blast+
  then show ?thesis
  proof cases
    case read
    then have "handle pad request response c = Some (fst (sent rep sequence response), snd (sent rep sequence response), c) \<and> rs = core_rules c"
      using dec m spec room list_len
      by (auto simp: handle_def handle_get_stats_def handle_list_rules_def encode_payload_sent encode_empty_sent pong_def
          spec_request_def core_stats_def core_rules_def kMaxControlPayloadBytes_def Opcode_defs)
    then show ?thesis using inv' cap by (intro exI [of _ "rule_table c"]) (simp add: core_rules_def)
  next
    case edit
    obtain t' where t': "table_edit e (rule_table c) = Some (edit_result ProtocolOk RuleTableFull RuleIndexOutOfRange n e (core_rules c), t')"
      "table_inv t'" "rule_capacity t' = n" "table_rules t' = list_edit n e (core_rules c)"
      using rt.edit_refines [OF inv', of e] cap by (auto simp: core_rules_def)
    have "rep = (if edit_result ProtocolOk RuleTableFull RuleIndexOutOfRange n e (core_rules c) = ProtocolOk then pong
        else error_reply (edit_result ProtocolOk RuleTableFull RuleIndexOutOfRange n e (core_rules c)))" "rs = list_edit n e (core_rules c)"
      using spec edit by (auto simp: spec_request_def Let_def)
    then show ?thesis using handle_edit [OF dec m edit(2) t'(1), of response pad] t' room by auto
  next
    case refuse
    then have "rep = error_reply st" "rs = core_rules c" using spec by (auto simp: spec_request_def)
    then show ?thesis using handle_refuse [OF dec m refuse(2,1), of response pad c] inv' cap room
      by (intro exI [of _ "rule_table c"]) (simp add: core_rules_def)
  qed
qed

lemma handle_malformed:
  assumes "decode_message request = Some r" "dr_status r \<noteq> ProtocolOk" "43 \<le> length response"
  shows "handle pad request response c =
    Some (fst (sent (error_reply (dr_status r)) 0 response), snd (sent (error_reply (dr_status r)) 0 response), c)"
  using assms by (simp add: handle_def encode_error_sent)

lemma sent_decodes:
  assumes "length payload \<le> kMaxControlPayloadBytes" "24 + length payload \<le> length response"
  shows "\<exists>d. decode_message (take (cp_bytes_written (fst (sent (st, op, payload) sequence response))) (snd (sent (st, op, payload) sequence response))) = Some d \<and>
    dr_status d = ProtocolOk \<and> mh_opcode (dm_header (dr_message d)) = op \<and> mh_sequence (dm_header (dr_message d)) = sequence \<and>
    dm_payload (dr_message d) = payload \<and> length (snd (sent (st, op, payload) sequence response)) = length response"
  using assms decode_encoded [OF assms(1), of "response_header op sequence" "[]"]
  by (simp add: sent_def normalized_def response_header_def)

text \<open>The payload of every reply fits.\<close>

lemma spec_reply_length:
  assumes "spec_request n stats op payload rs = ((st, op', out), rs')" "length stats = 48" "length rs \<le> n"
  shows "length out \<le> max 48 (40 * n)"
proof -
  have err: "length (snd (snd (error_reply st))) \<le> max 48 (40 * n)" for st
    using name_length [of st] by (simp add: error_reply_def le_max_iff_disj)
  have "out = snd (snd (fst (spec_request n stats op payload rs)))" by (simp add: assms(1))
  also have "length \<dots> \<le> max 48 (40 * n)"
    unfolding spec_request_def Let_def using assms(2,3) err
    by (cases "request_edit op payload") (simp_all add: pong_def le_max_iff_disj)
  finally show ?thesis .
qed

text \<open>An encoded request to add a rule: the rule is appended as the server reads it and the reply is an empty Pong.\<close>

lemma add_rule_handled:
  assumes core: "core_inv c" "length (core_rules c) < rule_capacity (rule_table c)" "43 \<le> length response"
    and rule: "mh_opcode h = OpAddRule" "rule_of_bytes payload = Some r"
  shows "\<exists>out c'. handle pad (message_bytes h payload) response c =
      Some (\<lparr>cp_status = ProtocolOk, cp_opcode = OpPong, cp_bytes_written = 24\<rparr>, out, c') \<and>
    core_inv c' \<and> rule_capacity (rule_table c') = rule_capacity (rule_table c) \<and> core_rules c' = core_rules c @ [r] \<and>
    take 24 out = message_bytes (response_header OpPong (mh_sequence h)) []"
proof -
  have len: "length payload \<le> kMaxControlPayloadBytes"
    using rule(2) by (auto simp: rule_of_bytes_def kMaxControlPayloadBytes_def split: if_splits)
  let ?r = "\<lparr>dr_status = ProtocolOk, dr_message =
    \<lparr>dm_header = (normalized h (length payload))\<lparr>mh_crc32 := message_crc h payload\<rparr>, dm_payload = payload\<rparr>\<rparr>"
  have dec: "decode_message (message_bytes h payload) = Some ?r" using decode_encoded [OF len, of h "[]"] by simp
  have m: "mh_opcode (dm_header (dr_message ?r)) = OpAddRule" "mh_sequence (dm_header (dr_message ?r)) = mh_sequence h" "dm_payload (dr_message ?r) = payload"
    using rule(1) by (simp_all add: normalized_def)
  have e: "request_edit OpAddRule payload = Inr (Add r)" using rule(2) by (simp add: request_edit_def)
  obtain t' where t': "table_edit (Add r) (rule_table c) = Some (ProtocolOk, t')" "table_inv t'" "rule_capacity t' = rule_capacity (rule_table c)"
      "table_rules t' = core_rules c @ [r]"
    using rt.edit_refines [of "rule_table c" "Add r"] core(1,2) by (auto simp: core_inv_def core_rules_def)
  have "length (message_bytes (response_header OpPong (mh_sequence h)) []) = 24" by simp
  then show ?thesis using handle_edit [OF dec _ m e t'(1) core(3), of pad] t'(2-) by (simp add: sent_def pong_def core_inv_def core_rules_def)
qed

text \<open>C23: For every byte string received as a request, \<open>handle\<close> returns without an access outside an array, keeps the invariant
  of the rule table, and behaves as the specification on the list of rules: a malformed request, an unknown
  opcode, a payload of the wrong size, a full table and an index out of range are answered with an error that
  names the reason and change nothing; the other requests have their effect and answer. The response is a
  well-formed message that decodes to the specified opcode and payload with the sequence number of the request.\<close>

theorem control_core_refines:
  assumes "core_inv c" "rule_capacity (rule_table c) = n" "40 * n \<le> kMaxControlPayloadBytes"
    and "24 + 40 * n \<le> length response" "72 \<le> length response"
  shows "\<exists>r resp out c'. decode_message request = Some r \<and> handle pad request response c = Some (resp, out, c') \<and>
    core_inv c' \<and> rule_capacity (rule_table c') = n \<and> core_stats c' = core_stats c \<and> length out = length response \<and>
    (let ((st, op, payload), rs) =
        (if dr_status r = ProtocolOk
         then spec_request n (stat_bytes pad (core_stats c)) (mh_opcode (dm_header (dr_message r))) (dm_payload (dr_message r)) (core_rules c)
         else (error_reply (dr_status r), core_rules c))
     in cp_status resp = st \<and> cp_opcode resp = op \<and> core_rules c' = rs \<and>
       (\<exists>d. decode_message (take (cp_bytes_written resp) out) = Some d \<and> dr_status d = ProtocolOk \<and>
          mh_opcode (dm_header (dr_message d)) = op \<and> dm_payload (dr_message d) = payload \<and>
          mh_sequence (dm_header (dr_message d)) = (if dr_status r = ProtocolOk then mh_sequence (dm_header (dr_message r)) else 0)))"
proof -
  obtain r where r: "decode_message request = Some r" using decode_message_total by blast
  show ?thesis
  proof (cases "dr_status r = ProtocolOk")
    case True
    let ?h = "dm_header (dr_message r)"
    obtain st op payload rs where spec: "spec_request n (stat_bytes pad (core_stats c)) (mh_opcode ?h) (dm_payload (dr_message r)) (core_rules c) =
        ((st, op, payload), rs)" by (metis prod_cases3 surj_pair)
    have "length (core_rules c) \<le> n" using rt.bounded [of "rule_table c"] assms(1,2) by (simp add: core_inv_def core_rules_def)
    then have "length payload \<le> max 48 (40 * n)" using spec_reply_length [OF spec] by simp
    then have fit: "length payload \<le> kMaxControlPayloadBytes" "24 + length payload \<le> length response"
      using assms(3,4,5) by (simp_all add: kMaxControlPayloadBytes_def)
    obtain t' where t': "handle pad request response c = Some (fst (sent (st, op, payload) (mh_sequence ?h) response),
        snd (sent (st, op, payload) (mh_sequence ?h) response), c\<lparr>rule_table := t'\<rparr>)" "table_inv t'" "rule_capacity t' = n" "table_rules t' = rs"
      using handle_refines_spec [OF assms r True refl refl refl spec] by blast
    show ?thesis using r True spec t' sent_decodes [OF fit, of st op "mh_sequence ?h"]
      by (auto simp: core_inv_def core_rules_def core_stats_def) (auto simp: sent_def)
  next
    case False
    have fit: "length (name_bytes (protocol_status_name (dr_status r))) \<le> kMaxControlPayloadBytes"
      "24 + length (name_bytes (protocol_status_name (dr_status r))) \<le> length response"
      using name_length [of "dr_status r"] assms(5) by (simp_all add: kMaxControlPayloadBytes_def)
    show ?thesis using r False handle_malformed [OF r False, of response pad c] assms sent_decodes [OF fit, of "dr_status r" OpError 0]
      by (auto simp: error_reply_def) (auto simp: sent_def)
  qed
qed

definition demo_rule :: ChaosRule where
  "demo_rule = ChaosRule_init\<lparr>cr_id := 1, cr_dst_port := 8080, cr_probability := 5000, cr_action := Drop\<rparr>"

theorem control_core_refines_witness:
  "\<exists>resp out c'. handle (0, 0, 0, 0) (message_bytes demo_header (rule_bytes demo_rule)) (replicate 200 0) (ControlCore_init 4) = Some (resp, out, c') \<and>
     cp_status resp = ProtocolOk \<and> cp_opcode resp = OpPong \<and> core_rules c' = [demo_rule]"
proof -
  let ?q = "message_bytes demo_header (rule_bytes demo_rule)"
  have dec: "decode_message ?q = Some \<lparr>dr_status = ProtocolOk, dr_message =
      \<lparr>dm_header = (normalized demo_header 40)\<lparr>mh_crc32 := message_crc demo_header (rule_bytes demo_rule)\<rparr>, dm_payload = rule_bytes demo_rule\<rparr>\<rparr>"
    using decode_encoded [of "rule_bytes demo_rule" demo_header "[]"] by (simp add: kMaxControlPayloadBytes_def)
  have op: "mh_opcode (normalized demo_header 40) = OpAddRule" by (simp add: normalized_def demo_header_def)
  have spec: "spec_request 4 s OpAddRule (rule_bytes demo_rule) [] = (pong, [demo_rule])" for s
    by (simp add: spec_request_def request_edit_def) (simp add: Opcode_defs)
  show ?thesis
    using control_core_refines [of "ControlCore_init 4" 4 "replicate 200 0" ?q "(0, 0, 0, 0)"]
    by (auto simp: dec op spec pong_def core_inv_def core_rules_def ControlCore_init_def kMaxControlPayloadBytes_def)
qed

end
