(* ===== verification/Control_Plane.thy ===== *)
theory Control_Plane
  imports Control_Core
begin

section \<open>The control plane (\<open>include/chronosx/control_plane.hpp\<close>)\<close>

text \<open>
  The reassembly buffer of a connection, the publication of rule snapshots for the data plane, and the TCP server.

  The server talks to the operating system. Its calls are fields of a record over an arbitrary type of worlds,
  one per system call the code uses, and every operation of the server takes that record as its first argument. What
  the properties need of the calls is stated as hypotheses: \<open>recv\<close> and \<open>epoll_wait\<close> never return more than was asked
  for, and \<open>send\<close> is not interrupted for ever. An operation returns \<open>None\<close> when it accesses an array out of bounds or
  does not return.
\<close>

definition kDefaultControlPort :: u16 where "kDefaultControlPort = 9090"
definition kMaxControlConnections :: nat where "kMaxControlConnections = 16"
definition kControlReadBufferBytes :: nat where "kControlReadBufferBytes = 8192"
definition kControlResponseBufferBytes :: nat where "kControlResponseBufferBytes = 8192"
definition kMaxEpollEvents :: nat where "kMaxEpollEvents = 32"

lemmas control_sizes = kMaxControlConnections_def kControlReadBufferBytes_def kControlResponseBufferBytes_def
  kMaxEpollEvents_def

datatype ControlPlaneStatus =
  CpOk | BindFailed | ListenFailed | EpollCreateFailed | AcceptFailed | ReadFailed | WriteFailed | ConnectionClosed
  | TooManyConnections | InvalidMessage | ShutdownRequested | EventFdFailed | NotInitialized | AlreadyInitialized

definition control_plane_status_name :: "ControlPlaneStatus \<Rightarrow> string" where
  "control_plane_status_name status = (case status of
      CpOk \<Rightarrow> ''Ok''
    | BindFailed \<Rightarrow> ''BindFailed''
    | ListenFailed \<Rightarrow> ''ListenFailed''
    | EpollCreateFailed \<Rightarrow> ''EpollCreateFailed''
    | AcceptFailed \<Rightarrow> ''AcceptFailed''
    | ReadFailed \<Rightarrow> ''ReadFailed''
    | WriteFailed \<Rightarrow> ''WriteFailed''
    | ConnectionClosed \<Rightarrow> ''ConnectionClosed''
    | TooManyConnections \<Rightarrow> ''TooManyConnections''
    | InvalidMessage \<Rightarrow> ''InvalidMessage''
    | ShutdownRequested \<Rightarrow> ''ShutdownRequested''
    | EventFdFailed \<Rightarrow> ''EventFdFailed''
    | NotInitialized \<Rightarrow> ''NotInitialized''
    | AlreadyInitialized \<Rightarrow> ''AlreadyInitialized'')"

subsection \<open>The reassembly buffer\<close>

record ConnectionBuffer =
  cb_buffer :: bytes
  cb_write_pos :: nat
  cb_overflowed :: bool

definition ConnectionBuffer_init :: ConnectionBuffer where
  "ConnectionBuffer_init = \<lparr>cb_buffer = replicate kControlReadBufferBytes 0, cb_write_pos = 0, cb_overflowed = False\<rparr>"

definition append_data :: "bytes \<Rightarrow> ConnectionBuffer \<Rightarrow> (nat \<times> ConnectionBuffer) option" where
  "append_data data b = do {
     let space = length (cb_buffer b) - cb_write_pos b;
     let copy_bytes = (if length data < space then length data else space);
     buffer \<leftarrow> copy_to (cb_buffer b) (cb_write_pos b) (take copy_bytes data);
     Some (copy_bytes, b\<lparr>cb_buffer := buffer, cb_write_pos := cb_write_pos b + copy_bytes,
       cb_overflowed := (cb_overflowed b \<or> copy_bytes \<noteq> length data)\<rparr>)
   }"

definition readable :: "ConnectionBuffer \<Rightarrow> bytes option" where
  "readable b = subspan (cb_buffer b) 0 (cb_write_pos b)"

definition readable_bytes :: "ConnectionBuffer \<Rightarrow> nat" where
  "readable_bytes b = cb_write_pos b"

definition consume_bytes :: "nat \<Rightarrow> ConnectionBuffer \<Rightarrow> ConnectionBuffer option" where
  "consume_bytes n b =
     (if n \<ge> cb_write_pos b then Some (b\<lparr>cb_write_pos := 0\<rparr>)
      else do {
        rest \<leftarrow> subspan (cb_buffer b) n (cb_write_pos b - n);
        buffer \<leftarrow> copy_to (cb_buffer b) 0 rest;
        Some (b\<lparr>cb_buffer := buffer, cb_write_pos := cb_write_pos b - n\<rparr>)
      })"

definition reset_buffer :: "ConnectionBuffer \<Rightarrow> ConnectionBuffer" where
  "reset_buffer b = b\<lparr>cb_write_pos := 0, cb_overflowed := False\<rparr>"

definition has_complete_message :: "ConnectionBuffer \<Rightarrow> bool option" where
  "has_complete_message b =
     (if cb_write_pos b < kProtocolHeaderBytes then Some False
      else do {
        window \<leftarrow> readable b;
        payload_length \<leftarrow> read_u32_be window 8;
        if unat payload_length > kMaxControlPayloadBytes then Some True
        else Some (cb_write_pos b \<ge> kProtocolHeaderBytes + unat payload_length)
      })"

definition next_message_length :: "ConnectionBuffer \<Rightarrow> nat option" where
  "next_message_length b =
     (if cb_write_pos b < kProtocolHeaderBytes then Some 0
      else do {
        window \<leftarrow> readable b;
        payload_length \<leftarrow> read_u32_be window 8;
        if unat payload_length > kMaxControlPayloadBytes then Some (cb_write_pos b)
        else Some (kProtocolHeaderBytes + unat payload_length)
      })"

subsection \<open>Rule snapshots\<close>

record ControlPlaneConfig =
  cf_port :: u16
  cf_max_connections :: nat
  cf_listen_backlog :: int

definition ControlPlaneConfig_init :: ControlPlaneConfig where
  "ControlPlaneConfig_init = \<lparr>cf_port = kDefaultControlPort, cf_max_connections = kMaxControlConnections, cf_listen_backlog = 8\<rparr>"

definition config_valid :: "ControlPlaneConfig \<Rightarrow> bool" where
  "config_valid c \<longleftrightarrow> cf_port c > 0 \<and> cf_max_connections c > 0 \<and> cf_max_connections c \<le> kMaxControlConnections \<and>
     cf_listen_backlog c > 0"

type_synonym RuleSnapshot = "ChaosRule list"

record ControlPlaneCore =
  control :: ControlCore
  rule_snapshot :: RuleSnapshot

definition ControlPlaneCore_init :: ControlPlaneCore where
  "ControlPlaneCore_init = \<lparr>control = ControlCore_init kDefaultMaxRules, rule_snapshot = []\<rparr>"

definition peek_request_opcode :: "bytes \<Rightarrow> Opcode option" where
  "peek_request_opcode request = (if length request < 4 then Some OpPing else rd request 3)"

definition is_rule_mutating_request :: "Opcode \<Rightarrow> bool" where
  "is_rule_mutating_request opcode \<longleftrightarrow> opcode = OpAddRule \<or> opcode = OpRemoveRule \<or> opcode = OpClearRules"

definition publish_rules :: "ControlPlaneCore \<Rightarrow> ControlPlaneCore" where
  "publish_rules core = core\<lparr>rule_snapshot := table_rules (rule_table (control core))\<rparr>"

definition handle_request :: "padding \<Rightarrow> bytes \<Rightarrow> bytes \<Rightarrow> ControlPlaneCore
    \<Rightarrow> (ControlResponse \<times> bytes \<times> ControlPlaneCore) option" where
  "handle_request pad request response core = do {
     request_opcode \<leftarrow> peek_request_opcode request;
     (result, response, c) \<leftarrow> handle pad request response (control core);
     let core = core\<lparr>control := c\<rparr>;
     if cp_status result = ProtocolOk \<and> is_rule_mutating_request request_opcode
     then Some (result, response, publish_rules core)
     else Some (result, response, core)
   }"

definition core_publish_stats :: "StatUpdate \<Rightarrow> ControlPlaneCore \<Rightarrow> ControlPlaneCore" where
  "core_publish_stats update core = core\<lparr>control := publish_stats update (control core)\<rparr>"

definition current_rules :: "ControlPlaneCore \<Rightarrow> RuleSnapshot" where
  "current_rules core = rule_snapshot core"

subsection \<open>The server\<close>

text \<open>The system calls. A call that can fail returns its result and \<open>errno\<close>.\<close>

record 'w os =
  os_socket :: "'w \<Rightarrow> int \<times> 'w"
  os_setsockopt :: "int \<Rightarrow> 'w \<Rightarrow> int \<times> 'w"
  os_bind :: "int \<Rightarrow> u16 \<Rightarrow> 'w \<Rightarrow> int \<times> 'w"
  os_listen :: "int \<Rightarrow> int \<Rightarrow> 'w \<Rightarrow> int \<times> 'w"
  os_epoll_create1 :: "'w \<Rightarrow> int \<times> 'w"
  os_eventfd :: "'w \<Rightarrow> int \<times> 'w"
  os_epoll_ctl_add :: "int \<Rightarrow> int \<Rightarrow> 'w \<Rightarrow> int \<times> 'w"
  os_epoll_wait :: "int \<Rightarrow> nat \<Rightarrow> int \<Rightarrow> 'w \<Rightarrow> (int \<times> int \<times> int list) \<times> 'w"
  os_accept4 :: "int \<Rightarrow> 'w \<Rightarrow> int \<times> 'w"
  os_recv :: "int \<Rightarrow> nat \<Rightarrow> 'w \<Rightarrow> (int \<times> int \<times> bytes) \<times> 'w"
  os_send :: "int \<Rightarrow> bytes \<Rightarrow> 'w \<Rightarrow> (int \<times> int) \<times> 'w"
  os_write :: "int \<Rightarrow> u64 \<Rightarrow> 'w \<Rightarrow> int \<times> 'w"
  os_close :: "int \<Rightarrow> 'w \<Rightarrow> 'w"

definition EINTR :: int where "EINTR = 4"
definition EAGAIN :: int where "EAGAIN = 11"
definition EWOULDBLOCK :: int where "EWOULDBLOCK = EAGAIN"

record ControlPlaneServer =
  sv_config :: ControlPlaneConfig
  listen_fd :: int
  epoll_fd :: int
  event_fd :: int
  sv_initialized :: bool
  client_fds :: "int list"
  buffers :: "ConnectionBuffer list"
  connection_count :: nat
  messages_handled :: u64

definition ControlPlaneServer_init :: ControlPlaneServer where
  "ControlPlaneServer_init = \<lparr>sv_config = ControlPlaneConfig_init, listen_fd = -1, epoll_fd = -1, event_fd = -1,
     sv_initialized = False, client_fds = replicate kMaxControlConnections 0,
     buffers = replicate kMaxControlConnections ConnectionBuffer_init, connection_count = 0, messages_handled = 0\<rparr>"

text \<open>\<open>close_fd\<close> returns the new value of the descriptor it was given.\<close>

definition close_fd :: "'w os \<Rightarrow> int \<Rightarrow> 'w \<Rightarrow> int \<times> 'w" where
  "close_fd os fd w = (if fd \<ge> 0 then (-1, os_close os fd w) else (fd, w))"

definition add_to_epoll :: "'w os \<Rightarrow> int \<Rightarrow> ControlPlaneServer \<Rightarrow> 'w \<Rightarrow> bool \<times> 'w" where
  "add_to_epoll os fd s w = (let (r, w) = os_epoll_ctl_add os (epoll_fd s) fd w in (r = 0, w))"

definition close_listen :: "'w os \<Rightarrow> ControlPlaneServer \<Rightarrow> 'w \<Rightarrow> ControlPlaneServer \<times> 'w" where
  "close_listen os s w = (let (fd, w) = close_fd os (listen_fd s) w in (s\<lparr>listen_fd := fd\<rparr>, w))"

definition close_epoll :: "'w os \<Rightarrow> ControlPlaneServer \<Rightarrow> 'w \<Rightarrow> ControlPlaneServer \<times> 'w" where
  "close_epoll os s w = (let (fd, w) = close_fd os (epoll_fd s) w in (s\<lparr>epoll_fd := fd\<rparr>, w))"

definition close_event :: "'w os \<Rightarrow> ControlPlaneServer \<Rightarrow> 'w \<Rightarrow> ControlPlaneServer \<times> 'w" where
  "close_event os s w = (let (fd, w) = close_fd os (event_fd s) w in (s\<lparr>event_fd := fd\<rparr>, w))"

definition server_init :: "'w os \<Rightarrow> ControlPlaneConfig \<Rightarrow> ControlPlaneServer \<Rightarrow> 'w \<Rightarrow> ControlPlaneStatus \<times> ControlPlaneServer \<times> 'w" where
  "server_init os config s w =
     (if sv_initialized s then (AlreadyInitialized, s, w)
      else if \<not> config_valid config then (InvalidMessage, s, w)
      else
        let s = s\<lparr>sv_config := config\<rparr>;
            (fd, w) = os_socket os w;
            s = s\<lparr>listen_fd := fd\<rparr>
        in if fd < 0 then (BindFailed, s, w)
        else let (_, w) = os_setsockopt os fd w; (r, w) = os_bind os fd (cf_port config) w
        in if r < 0 then (let (s, w) = close_listen os s w in (BindFailed, s, w))
        else let (r, w) = os_listen os fd (cf_listen_backlog config) w
        in if r < 0 then (let (s, w) = close_listen os s w in (ListenFailed, s, w))
        else let (efd, w) = os_epoll_create1 os w; s = s\<lparr>epoll_fd := efd\<rparr>
        in if efd < 0 then (let (s, w) = close_listen os s w in (EpollCreateFailed, s, w))
        else let (evfd, w) = os_eventfd os w; s = s\<lparr>event_fd := evfd\<rparr>
        in if evfd < 0 then
             (let (s, w) = close_epoll os s w; (s, w) = close_listen os s w in (EventFdFailed, s, w))
        else let (added, w) = add_to_epoll os (listen_fd s) s w;
                 (added, w) = (if added then add_to_epoll os (event_fd s) s w else (False, w))
        in if \<not> added then
             (let (s, w) = close_event os s w; (s, w) = close_epoll os s w; (s, w) = close_listen os s w
              in (EpollCreateFailed, s, w))
        else (CpOk, s\<lparr>sv_initialized := True\<rparr>, w))"

definition remove_connection :: "'w os \<Rightarrow> nat \<Rightarrow> ControlPlaneServer \<Rightarrow> 'w \<Rightarrow> (ControlPlaneServer \<times> 'w) option" where
  "remove_connection os slot s w =
     (if slot \<ge> connection_count s then Some (s, w)
      else do {
        fd \<leftarrow> rd (client_fds s) slot;
        let (fd, w) = close_fd os fd w;
        fds \<leftarrow> wr (client_fds s) slot fd;
        (fds, bufs) \<leftarrow>
          (if slot < connection_count s - 1 then do {
             last_fd \<leftarrow> rd fds (connection_count s - 1);
             fds \<leftarrow> wr fds slot last_fd;
             last_buffer \<leftarrow> rd (buffers s) (connection_count s - 1);
             bufs \<leftarrow> wr (buffers s) slot last_buffer;
             Some (fds, bufs)
           } else Some (fds, buffers s));
        Some (s\<lparr>client_fds := fds, buffers := bufs, connection_count := connection_count s - 1\<rparr>, w)
      })"

function find_from :: "int \<Rightarrow> int list \<Rightarrow> nat \<Rightarrow> nat \<Rightarrow> nat option" where
  "find_from fd fds index n =
     (if index < n then do {
        x \<leftarrow> rd fds index;
        if x = fd then Some index else find_from fd fds (index + 1) n
      } else Some n)"
  by pat_completeness auto
termination by (relation "measure (\<lambda>(fd, fds, index, n). n - index)") auto

definition find_slot :: "int \<Rightarrow> ControlPlaneServer \<Rightarrow> nat option" where
  "find_slot fd s = find_from fd (client_fds s) 0 (connection_count s)"

definition handle_accept :: "'w os \<Rightarrow> ControlPlaneServer \<Rightarrow> 'w \<Rightarrow> (ControlPlaneServer \<times> 'w) option" where
  "handle_accept os s w =
     (let (client, w) = os_accept4 os (listen_fd s) w in
      if client < 0 then Some (s, w)
      else if connection_count s \<ge> cf_max_connections (sv_config s) then Some (s, os_close os client w)
      else
        let (added, w) = add_to_epoll os client s w in
        if \<not> added then Some (s, os_close os client w)
        else do {
          fds \<leftarrow> wr (client_fds s) (connection_count s) client;
          b \<leftarrow> rd (buffers s) (connection_count s);
          bufs \<leftarrow> wr (buffers s) (connection_count s) (reset_buffer b);
          Some (s\<lparr>client_fds := fds, buffers := bufs, connection_count := connection_count s + 1\<rparr>, w)
        })"

partial_function (option) send_all :: "'w os \<Rightarrow> int \<Rightarrow> bytes \<Rightarrow> nat \<Rightarrow> 'w \<Rightarrow> (bool \<times> 'w) option" where
  "send_all os fd bs offset w =
     (if offset < length bs then
        let r = os_send os fd (drop offset bs) w in
        if fst (fst r) < 0 \<and> snd (fst r) = EINTR then send_all os fd bs offset (snd r)
        else if fst (fst r) \<le> 0 then Some (False, snd r)
        else send_all os fd bs (offset + nat (fst (fst r))) (snd r)
      else Some (True, w))"

text \<open>One round of the message loop: \<open>None\<close> in the first component ends the loop.\<close>

type_synonym 'w server_state = "ControlPlaneServer \<times> ControlPlaneCore \<times> 'w"

definition serve_message :: "'w os \<Rightarrow> padding \<Rightarrow> int \<Rightarrow> nat \<Rightarrow> 'w server_state \<Rightarrow> (bool \<times> 'w server_state) option" where
  "serve_message os pad fd slot st = (case st of (s, core, w) \<Rightarrow> do {
     b \<leftarrow> rd (buffers s) slot;
     msg_len \<leftarrow> next_message_length b;
     if msg_len = 0 \<or> msg_len > readable_bytes b then do {
       (s, w) \<leftarrow> remove_connection os slot s w;
       Some (False, s, core, w)
     } else do {
       window \<leftarrow> readable b;
       msg_data \<leftarrow> subspan window 0 msg_len;
       (result, response, core) \<leftarrow> handle_request pad msg_data (replicate kControlResponseBufferBytes 0) core;
       b \<leftarrow> consume_bytes msg_len b;
       bufs \<leftarrow> wr (buffers s) slot b;
       let s = s\<lparr>buffers := bufs\<rparr>;
       (sent, w) \<leftarrow>
         (if cp_bytes_written result > 0 then do {
            reply \<leftarrow> subspan response 0 (cp_bytes_written result);
            send_all os fd reply 0 w
          } else Some (True, w));
       if \<not> sent then do {
         (s, w) \<leftarrow> remove_connection os slot s w;
         Some (False, s, core, w)
       } else Some (True, s\<lparr>messages_handled := messages_handled s + 1\<rparr>, core, w)
     }
   })"

partial_function (option) message_loop :: "'w os \<Rightarrow> padding \<Rightarrow> int \<Rightarrow> nat \<Rightarrow> 'w server_state \<Rightarrow> 'w server_state option" where
  "message_loop os pad fd slot st = do {
     b \<leftarrow> rd (buffers (fst st)) slot;
     complete \<leftarrow> has_complete_message b;
     if complete then do {
       r \<leftarrow> serve_message os pad fd slot st;
       if fst r then message_loop os pad fd slot (snd r) else Some (snd r)
     } else Some st
   }"

text \<open>What \<open>handle_client\<close> does with the bytes it has received.\<close>

definition receive_data :: "'w os \<Rightarrow> padding \<Rightarrow> int \<Rightarrow> nat \<Rightarrow> bytes \<Rightarrow> 'w server_state \<Rightarrow> 'w server_state option" where
  "receive_data os pad fd slot data st = (case st of (s, core, w) \<Rightarrow> do {
     b \<leftarrow> rd (buffers s) slot;
     (appended, b) \<leftarrow> append_data data b;
     bufs \<leftarrow> wr (buffers s) slot b;
     let s = s\<lparr>buffers := bufs\<rparr>;
     if appended \<noteq> length data \<or> cb_overflowed b then do {
       (s, w) \<leftarrow> remove_connection os slot s w;
       Some (s, core, w)
     } else message_loop os pad fd slot (s, core, w)
   })"

definition handle_client :: "'w os \<Rightarrow> padding \<Rightarrow> int \<Rightarrow> 'w server_state \<Rightarrow> 'w server_state option" where
  "handle_client os pad fd st = (case st of (s, core, w) \<Rightarrow> do {
     slot \<leftarrow> find_slot fd s;
     if slot = connection_count s then Some (s, core, w)
     else
       let ((bytes_read, errno, data), w) = os_recv os fd 4096 w in
       if bytes_read < 0 \<and> (errno = EAGAIN \<or> errno = EWOULDBLOCK) then Some (s, core, w)
       else if bytes_read \<le> 0 then do {
         (s, w) \<leftarrow> remove_connection os slot s w;
         Some (s, core, w)
       } else receive_data os pad fd slot (take (nat bytes_read) data) (s, core, w)
   })"

fun handle_events :: "'w os \<Rightarrow> padding \<Rightarrow> int list \<Rightarrow> 'w server_state \<Rightarrow> (ControlPlaneStatus \<times> 'w server_state) option" where
  "handle_events os pad [] st = Some (CpOk, st)"
| "handle_events os pad (fd # fds) (s, core, w) =
     (if fd = event_fd s then Some (ShutdownRequested, s, core, w)
      else if fd = listen_fd s then do {
        (s, w) \<leftarrow> handle_accept os s w;
        handle_events os pad fds (s, core, w)
      } else do {
        st \<leftarrow> handle_client os pad fd (s, core, w);
        handle_events os pad fds st
      })"

definition run_once :: "'w os \<Rightarrow> padding \<Rightarrow> int \<Rightarrow> 'w server_state \<Rightarrow> (ControlPlaneStatus \<times> 'w server_state) option" where
  "run_once os pad timeout_ms st = (case st of (s, core, w) \<Rightarrow>
     if \<not> sv_initialized s then Some (NotInitialized, s, core, w)
     else
       let ((nfds, errno, fds), w) = os_epoll_wait os (epoll_fd s) kMaxEpollEvents timeout_ms w in
       if nfds < 0 then (if errno = EINTR then Some (CpOk, s, core, w) else Some (EpollCreateFailed, s, core, w))
       else do {
         events \<leftarrow> (if nat nfds \<le> length fds then Some (take (nat nfds) fds) else None);
         handle_events os pad events (s, core, w)
       })"

text \<open>The flag that ends \<open>run\<close> is shared with the main thread: its value is read from the world.\<close>

partial_function (option) run :: "'w os \<Rightarrow> padding \<Rightarrow> ('w \<Rightarrow> bool) \<Rightarrow> 'w server_state \<Rightarrow> 'w server_state option" where
  "run os pad running st =
     (if running (snd (snd st)) then do {
        r \<leftarrow> run_once os pad 100 st;
        if fst r = ShutdownRequested then Some (snd r) else run os pad running (snd r)
      } else Some st)"

definition request_shutdown :: "'w os \<Rightarrow> ControlPlaneServer \<Rightarrow> 'w \<Rightarrow> 'w" where
  "request_shutdown os s w = (if event_fd s \<ge> 0 then snd (os_write os (event_fd s) 1 w) else w)"

function close_clients :: "'w os \<Rightarrow> nat \<Rightarrow> nat \<Rightarrow> int list \<Rightarrow> 'w \<Rightarrow> (int list \<times> 'w) option" where
  "close_clients os index n fds w =
     (if index < n then do {
        fd \<leftarrow> rd fds index;
        let (fd, w) = close_fd os fd w;
        fds \<leftarrow> wr fds index fd;
        close_clients os (index + 1) n fds w
      } else Some (fds, w))"
  by pat_completeness auto
termination by (relation "measure (\<lambda>(os, index, n, fds, w). n - index)") auto

definition shutdown :: "'w os \<Rightarrow> ControlPlaneServer \<Rightarrow> 'w \<Rightarrow> (ControlPlaneServer \<times> 'w) option" where
  "shutdown os s w = do {
     (fds, w) \<leftarrow> close_clients os 0 (connection_count s) (client_fds s) w;
     let s = s\<lparr>client_fds := fds, connection_count := 0\<rparr>;
     let (s, w) = close_event os s w;
     let (s, w) = close_epoll os s w;
     let (s, w) = close_listen os s w;
     Some (s\<lparr>sv_initialized := False\<rparr>, w)
   }"

declare find_from.simps [simp del] close_clients.simps [simp del]

subsection \<open>The buffer holds a byte string\<close>

definition buffer_inv :: "ConnectionBuffer \<Rightarrow> bool" where
  "buffer_inv b \<longleftrightarrow> length (cb_buffer b) = 8192 \<and> cb_write_pos b \<le> 8192"

definition pending :: "ConnectionBuffer \<Rightarrow> bytes" where
  "pending b = take (cb_write_pos b) (cb_buffer b)"

text \<open>The length of the message at the front of a byte string, once it is complete; an announced payload beyond the limit makes
  a message of whatever is there.\<close>

definition front_length :: "bytes \<Rightarrow> nat option" where
  "front_length bs =
     (if length bs < 24 then None
      else let n = unat (be32 (bs ! 8) (bs ! 9) (bs ! 10) (bs ! 11)) in
        if n > kMaxControlPayloadBytes then Some (length bs)
        else if 24 + n \<le> length bs then Some (24 + n) else None)"

lemma buffer_init_inv [simp]: "buffer_inv ConnectionBuffer_init" "pending ConnectionBuffer_init = []"
  by (simp_all add: buffer_inv_def pending_def ConnectionBuffer_init_def kControlReadBufferBytes_def)

lemma length_pending: "buffer_inv b \<Longrightarrow> length (pending b) = cb_write_pos b"
  by (simp add: buffer_inv_def pending_def)

lemma readable_pending: "buffer_inv b \<Longrightarrow> readable b = Some (pending b)"
  by (simp add: buffer_inv_def pending_def readable_def subspan_def)

lemma append_data_pending:
  assumes "buffer_inv b" "n = min (length data) (8192 - length (pending b))"
  shows "\<exists>b'. append_data data b = Some (n, b') \<and> buffer_inv b' \<and> pending b' = pending b @ take n data \<and>
    (cb_overflowed b' \<longleftrightarrow> cb_overflowed b \<or> n \<noteq> length data)"
  using assms length_pending [OF assms(1)]
  by (auto simp: append_data_def copy_to_def Let_def buffer_inv_def pending_def min_def)

lemma consume_bytes_pending:
  assumes "buffer_inv b"
  shows "\<exists>b'. consume_bytes n b = Some b' \<and> buffer_inv b' \<and> pending b' = drop n (pending b) \<and> cb_overflowed b' = cb_overflowed b"
  using assms by (auto simp: consume_bytes_def copy_to_def subspan_def buffer_inv_def pending_def drop_take)

lemma reset_buffer_inv: "buffer_inv b \<Longrightarrow> buffer_inv (reset_buffer b) \<and> pending (reset_buffer b) = [] \<and> \<not> cb_overflowed (reset_buffer b)"
  by (simp add: reset_buffer_def buffer_inv_def pending_def)

lemma read_u32_be_at: "12 \<le> length bs \<Longrightarrow> read_u32_be bs 8 = Some (be32 (bs ! 8) (bs ! 9) (bs ! 10) (bs ! 11))"
  by (simp add: read_u32_be_def be32_def)

lemma has_complete_message_pending:
  assumes "buffer_inv b"
  shows "has_complete_message b = Some (front_length (pending b) \<noteq> None)"
  using assms length_pending [OF assms] readable_pending [OF assms] read_u32_be_at [of "pending b"]
  by (auto simp: has_complete_message_def front_length_def Let_def kProtocolHeaderBytes_def)

lemma next_message_length_pending:
  assumes "buffer_inv b" "front_length (pending b) = Some n"
  shows "next_message_length b = Some n" "0 < n" "n \<le> length (pending b)"
  using assms length_pending [OF assms(1)] readable_pending [OF assms(1)] read_u32_be_at [of "pending b"]
  by (auto simp: next_message_length_def front_length_def Let_def kProtocolHeaderBytes_def split: if_splits)

subsection \<open>Snapshots follow the table\<close>

definition plane_inv :: "ControlPlaneCore \<Rightarrow> bool" where
  "plane_inv core \<longleftrightarrow> core_inv (control core) \<and> rule_capacity (rule_table (control core)) = 128"

lemma plane_init_inv: "plane_inv ControlPlaneCore_init" "core_rules (control ControlPlaneCore_init) = []"
  by (simp_all add: plane_inv_def ControlPlaneCore_init_def ControlCore_init_def core_inv_def core_rules_def kDefaultMaxRules_def)

lemma edit_refused: "edit_result ok full bad n e rs \<noteq> ok \<Longrightarrow> list_edit n e rs = rs"
  by (cases e) (auto split: if_splits)

lemma spec_unchanged:
  assumes "spec_request n stats op payload rs = ((st, op', out), rs')" "st \<noteq> ProtocolOk \<or> \<not> is_rule_mutating_request op"
  shows "rs' = rs"
  using assms
  by (auto simp: spec_request_def Let_def is_rule_mutating_request_def error_reply_def pong_def edit_refused
      split: if_splits sum.splits) (auto simp: request_edit_def split: if_splits)

lemma decode_opcode:
  assumes "decode_message request = Some r" "dr_status r = ProtocolOk"
  shows "24 \<le> length request \<and> request ! 3 = mh_opcode (dm_header (dr_message r))"
proof -
  have "24 \<le> length request" using decode_ok_crc [OF assms] by auto
  then obtain h rest where h: "request = header_bytes h (mh_crc32 h) @ rest" by (rule header_bytes_surj)
  have "dm_header (dr_message r) = h"
    using assms unfolding h decode_message_bytes decode_failed_def by (auto split: if_splits)
  moreover have "request ! 3 = mh_opcode h" unfolding h by (simp add: header_bytes_def be_bytes_words nth_append)
  ultimately show ?thesis using \<open>24 \<le> length request\<close> by simp
qed

text \<open>A request as the specification sees it: the reply, its sequence number and the new rules.\<close>

definition spec_plane :: "padding \<Rightarrow> bytes \<Rightarrow> ControlPlaneCore \<Rightarrow> reply \<times> u32 \<times> ChaosRule list" where
  "spec_plane pad request core = (case decode_message request of
      None \<Rightarrow> (pong, 0, core_rules (control core))
    | Some r \<Rightarrow>
        if dr_status r = ProtocolOk then
          (let (rep, rs) = spec_request 128 (stat_bytes pad (core_stats (control core))) (mh_opcode (dm_header (dr_message r)))
             (dm_payload (dr_message r)) (core_rules (control core))
           in (rep, mh_sequence (dm_header (dr_message r)), rs))
        else (error_reply (dr_status r), 0, core_rules (control core)))"

lemma handle_request_spec:
  assumes inv: "plane_inv core" and room: "5144 \<le> length response"
    and spec: "spec_plane pad request core = (rep, sequence, rs)"
  shows "\<exists>core'. handle_request pad request response core =
      Some (fst (sent rep sequence response), snd (sent rep sequence response), core') \<and>
    plane_inv core' \<and> core_rules (control core') = rs \<and> core_stats (control core') = core_stats (control core) \<and>
    (rule_snapshot core' = rule_snapshot core \<and> rs = core_rules (control core) \<or> rule_snapshot core' = rs)"
proof -
  obtain r where r: "decode_message request = Some r" using decode_message_total by blast
  obtain op where op: "peek_request_opcode request = Some op"
    by (cases "length request < 4") (auto simp: peek_request_opcode_def)
  have *: "\<exists>c'. handle pad request response (control core) = Some (fst (sent rep sequence response), snd (sent rep sequence response), c') \<and>
    core_inv c' \<and> rule_capacity (rule_table c') = 128 \<and> core_rules c' = rs \<and> core_stats c' = core_stats (control core) \<and>
    (fst rep = ProtocolOk \<and> is_rule_mutating_request op \<or> rs = core_rules (control core))"
  proof (cases "dr_status r = ProtocolOk")
    case True
    let ?h = "dm_header (dr_message r)"
    have sp: "spec_request 128 (stat_bytes pad (core_stats (control core))) (mh_opcode ?h) (dm_payload (dr_message r)) (core_rules (control core)) = (rep, rs)"
      and sq: "mh_sequence ?h = sequence" using spec r True by (auto simp: spec_plane_def split: prod.splits)
    have "op = mh_opcode ?h" using decode_opcode [OF r True] op by (simp add: peek_request_opcode_def)
    then have "fst rep = ProtocolOk \<and> is_rule_mutating_request op \<or> rs = core_rules (control core)"
      using spec_unchanged [of 128 _ _ _ _ "fst rep" "fst (snd rep)" "snd (snd rep)", unfolded prod.collapse, OF sp] by blast
    moreover obtain t' where "handle pad request response (control core) =
        Some (fst (sent rep sequence response), snd (sent rep sequence response), (control core)\<lparr>rule_table := t'\<rparr>)"
      "table_inv t'" "rule_capacity t' = 128" "table_rules t' = rs"
      using handle_refines_spec [of "control core" 128, OF _ _ _ _ _ r True refl sq refl sp] inv room
      by (auto simp: plane_inv_def kMaxControlPayloadBytes_def)
    ultimately show ?thesis by (auto simp: core_inv_def core_rules_def core_stats_def)
  next
    case False
    then show ?thesis using spec r handle_malformed [OF r False, of response pad "control core"] inv room
      by (auto simp: spec_plane_def plane_inv_def)
  qed
  then obtain c' where c': "handle pad request response (control core) = Some (fst (sent rep sequence response), snd (sent rep sequence response), c')"
    "core_inv c'" "rule_capacity (rule_table c') = 128" "core_rules c' = rs" "core_stats c' = core_stats (control core)"
    "fst rep = ProtocolOk \<and> is_rule_mutating_request op \<or> rs = core_rules (control core)" by blast
  have st: "cp_status (fst (sent rep sequence response)) = fst rep" by (simp add: sent_def case_prod_beta)
  show ?thesis using c' op st inv
    by (auto simp: handle_request_def Let_def publish_rules_def plane_inv_def core_rules_def)
qed

end
