(* ===== verification/Rule_Publication.thy ===== *)
theory Rule_Publication
  imports Control_Plane
begin

section \<open>Publication of rules to the data plane\<close>

text \<open>
  \<open>ControlPlaneCore\<close> is written by the control thread and read by the data thread. The only object they share is
  the atomic pointer to the current snapshot: the control thread changes its table while it handles a request and
  stores a new pointer afterwards; the data thread loads the pointer at any time and keeps using what it loaded.
  The step relation interleaves the two. A state also records the rule list after every request and
  the snapshots the reader has loaded, oldest first.
\<close>

text \<open>\<open>handle_request\<close> up to the store of the pointer: the flag says whether the store follows.\<close>

definition handle_phase :: "padding \<Rightarrow> bytes \<Rightarrow> bytes \<Rightarrow> ControlPlaneCore
    \<Rightarrow> (ControlResponse \<times> bytes \<times> bool \<times> ControlPlaneCore) option" where
  "handle_phase pad request response core = do {
     request_opcode \<leftarrow> peek_request_opcode request;
     (result, response, c) \<leftarrow> handle pad request response (control core);
     Some (result, response, cp_status result = ProtocolOk \<and> is_rule_mutating_request request_opcode, core\<lparr>control := c\<rparr>)
   }"

lemma handle_request_phases:
  "handle_request pad request response core = do {
     (result, response, store, core) \<leftarrow> handle_phase pad request response core;
     Some (result, response, if store then publish_rules core else core)
   }"
  by (auto simp: handle_request_def handle_phase_def Let_def Option.bind_eq_Some_conv split: Option.bind_splits prod.splits)

record rcu =
  rc_core :: ControlPlaneCore
  rc_store_due :: bool
  rc_versions :: "ChaosRule list list"
  rc_loads :: "ChaosRule list list"

definition rcu_init :: rcu where
  "rcu_init = \<lparr>rc_core = ControlPlaneCore_init, rc_store_due = False, rc_versions = [[]], rc_loads = []\<rparr>"

inductive rcu_step :: "rcu \<Rightarrow> rcu \<Rightarrow> bool" where
  control_handles: "\<not> rc_store_due s \<Longrightarrow> handle_phase pad request (replicate kControlResponseBufferBytes 0) (rc_core s) = Some (result, out, due, core) \<Longrightarrow>
    rcu_step s (s\<lparr>rc_core := core, rc_store_due := due, rc_versions := rc_versions s @ [core_rules (control core)]\<rparr>)"
| control_stores: "rc_store_due s \<Longrightarrow> rcu_step s (s\<lparr>rc_core := publish_rules (rc_core s), rc_store_due := False\<rparr>)"
| control_stats: "\<not> rc_store_due s \<Longrightarrow> rcu_step s (s\<lparr>rc_core := core_publish_stats update (rc_core s)\<rparr>)"
| data_loads: "rcu_step s (s\<lparr>rc_loads := rc_loads s @ [current_rules (rc_core s)]\<rparr>)"

inductive rcu_reachable :: "rcu \<Rightarrow> bool" where
  start: "rcu_reachable rcu_init"
| step: "rcu_reachable s \<Longrightarrow> rcu_step s s' \<Longrightarrow> rcu_reachable s'"

text \<open>The version a load returns now.\<close>

definition visible :: "rcu \<Rightarrow> nat" where
  "visible s = length (rc_versions s) - (if rc_store_due s then 2 else 1)"

definition rcu_inv :: "rcu \<Rightarrow> nat list \<Rightarrow> bool" where
  "rcu_inv s idx \<longleftrightarrow> plane_inv (rc_core s) \<and> (if rc_store_due s then 2 else 1) \<le> length (rc_versions s) \<and>
     last (rc_versions s) = core_rules (control (rc_core s)) \<and>
     current_rules (rc_core s) = rc_versions s ! visible s \<and>
     sorted idx \<and> (\<forall>i \<in> set idx. i \<le> visible s) \<and> rc_loads s = map ((!) (rc_versions s)) idx"

lemma handle_phase_effect:
  assumes "plane_inv core" "5144 \<le> length response" "handle_phase pad request response core = Some (result, out, due, core')"
  shows "plane_inv core' \<and> rule_snapshot core' = rule_snapshot core \<and>
    (\<not> due \<longrightarrow> core_rules (control core') = core_rules (control core) \<or> core_rules (control core') = rule_snapshot core)"
proof -
  obtain rep sequence rs where spec: "spec_plane pad request core = (rep, sequence, rs)" by (metis prod_cases3)
  obtain core'' where c: "handle_request pad request response core =
      Some (fst (sent rep sequence response), snd (sent rep sequence response), core'')"
    "plane_inv core''" "core_rules (control core'') = rs"
    "rule_snapshot core'' = rule_snapshot core \<and> rs = core_rules (control core) \<or> rule_snapshot core'' = rs"
    using handle_request_spec [OF assms(1,2) spec] by blast
  have "rule_snapshot core' = rule_snapshot core"
    using assms(3) by (auto simp: handle_phase_def Option.bind_eq_Some_conv)
  moreover have "core'' = (if due then publish_rules core' else core')"
    using c(1) unfolding handle_request_phases assms(3) by simp
  ultimately show ?thesis using c(2-) by (cases due) (auto simp: publish_rules_def plane_inv_def)
qed

lemma rcu_inv_settled:
  assumes "rcu_inv s idx" "\<not> rc_store_due s"
  shows "rc_versions s \<noteq> [] \<and> visible s = length (rc_versions s) - 1 \<and> current_rules (rc_core s) = core_rules (control (rc_core s))"
proof -
  have "rc_versions s \<noteq> []" "visible s = length (rc_versions s) - 1" using assms by (auto simp: rcu_inv_def visible_def)
  moreover from this have "last (rc_versions s) = rc_versions s ! visible s" by (simp add: last_conv_nth)
  ultimately show ?thesis using assms(1) by (simp add: rcu_inv_def)
qed

lemma rcu_step_inv:
  assumes "rcu_step s s'" "rcu_inv s idx"
  shows "\<exists>idx'. rcu_inv s' idx'"
  using assms(1)
proof cases
  case (control_handles pad request result out due core)
  have e: "plane_inv core" "current_rules core = current_rules (rc_core s)"
    "\<not> due \<Longrightarrow> core_rules (control core) = core_rules (control (rc_core s)) \<or> core_rules (control core) = current_rules (rc_core s)"
    using handle_phase_effect [OF _ _ control_handles(3)] assms(2)
    by (auto simp: rcu_inv_def current_rules_def kControlResponseBufferBytes_def)
  have v: "rc_versions s \<noteq> []" "visible s = length (rc_versions s) - 1" "current_rules (rc_core s) = core_rules (control (rc_core s))"
    using rcu_inv_settled [OF assms(2) control_handles(2)] by auto
  let ?vs = "rc_versions s"
  have inv: "sorted idx" "\<And>i. i \<in> set idx \<Longrightarrow> i \<le> length ?vs - 1" "rc_loads s = map ((!) ?vs) idx"
    "current_rules (rc_core s) = ?vs ! (length ?vs - 1)"
    using assms(2) v(2) by (simp_all add: rcu_inv_def)
  have n: "0 < length ?vs" using v(1) by simp
  have i: "i < length ?vs" if "i \<in> set idx" for i using inv(2) [OF that] n by linarith
  have vis: "visible s' = (if due then length ?vs - 1 else length ?vs)" by (simp add: control_handles(1) visible_def)
  have cur: "current_rules core = (?vs @ [core_rules (control core)]) ! (if due then length ?vs - 1 else length ?vs)"
    using e(2,3) v(3) inv(4) n by (cases due) (auto simp: nth_append)
  have "rcu_inv s' idx"
    unfolding rcu_inv_def vis using e(1) inv(1,3) i inv(2) n cur
    by (auto simp: control_handles(1) nth_append less_imp_le Suc_le_eq)
  then show ?thesis ..
next
  case control_stores
  have "last (rc_versions s) = rc_versions s ! (length (rc_versions s) - 1)"
    using assms(2) control_stores(2) by (intro last_conv_nth) (auto simp: rcu_inv_def)
  then have "rcu_inv s' idx" using assms(2) control_stores
    by (fastforce simp: rcu_inv_def visible_def publish_rules_def plane_inv_def current_rules_def core_rules_def)
  then show ?thesis ..
next
  case (control_stats update)
  then have "rcu_inv s' idx" using assms(2)
    by (auto simp: rcu_inv_def visible_def core_publish_stats_def publish_stats_def plane_inv_def core_inv_def current_rules_def core_rules_def)
  then show ?thesis ..
next
  case data_loads
  then have "rcu_inv s' (idx @ [visible s])" using assms(2) by (auto simp: rcu_inv_def visible_def sorted_append)
  then show ?thesis ..
qed

lemma rcu_reachable_inv: "rcu_reachable s \<Longrightarrow> \<exists>idx. rcu_inv s idx"
proof (induction rule: rcu_reachable.induct)
  case start
  have "rcu_inv rcu_init []" using plane_init_inv by (simp add: rcu_inv_def rcu_init_def visible_def current_rules_def ControlPlaneCore_init_def)
  then show ?case ..
next
  case (step s s')
  then show ?case using rcu_step_inv by blast
qed

text \<open>C25: Whatever requests the control thread handles and however the loads of the data thread interleave with it, every
  snapshot the data thread loads is the complete rule list as one request left it, never a list in the middle of an
  update; successive loads never go back to an older version; and between requests the published snapshot is the
  rule table.\<close>

theorem snapshots_consistent:
  assumes "rcu_reachable s"
  shows "(\<exists>idx. sorted idx \<and> (\<forall>i \<in> set idx. i < length (rc_versions s)) \<and> rc_loads s = map ((!) (rc_versions s)) idx) \<and>
    (\<not> rc_store_due s \<longrightarrow> current_rules (rc_core s) = core_rules (control (rc_core s)))"
proof -
  obtain idx where i: "rcu_inv s idx" using rcu_reachable_inv [OF assms] by blast
  then have "visible s < length (rc_versions s)" by (auto simp: rcu_inv_def visible_def split: if_splits)
  moreover have "current_rules (rc_core s) = core_rules (control (rc_core s))" if "\<not> rc_store_due s"
    using rcu_inv_settled [OF i that] by simp
  ultimately show ?thesis using i by (auto simp: rcu_inv_def intro!: exI [of _ idx])
qed

lemma demo_handle_phase:
  "\<exists>result out core. handle_phase (0, 0, 0, 0) (message_bytes demo_header (rule_bytes demo_rule))
      (replicate kControlResponseBufferBytes 0) ControlPlaneCore_init = Some (result, out, True, core) \<and>
    core_rules (control core) = [demo_rule]"
proof -
  let ?q = "message_bytes demo_header (rule_bytes demo_rule)" and ?h = "normalized demo_header 40"
  let ?r = "\<lparr>dr_status = ProtocolOk, dr_message = \<lparr>dm_header = ?h\<lparr>mh_crc32 := message_crc demo_header (rule_bytes demo_rule)\<rparr>,
    dm_payload = rule_bytes demo_rule\<rparr>\<rparr>"
  have dec: "decode_message ?q = Some ?r"
    using decode_encoded [of "rule_bytes demo_rule" demo_header "[]"] by (simp add: kMaxControlPayloadBytes_def)
  have op: "mh_opcode ?h = OpAddRule" by (simp add: normalized_def demo_header_def)
  have spec: "spec_request n s OpAddRule (rule_bytes demo_rule) [] = (pong, [demo_rule])" if "0 < n" for n s
    using that by (simp add: spec_request_def request_edit_def) (simp add: Opcode_defs)
  have "?q ! 3 = OpAddRule" using decode_opcode [OF dec] op by simp
  then have peek: "peek_request_opcode ?q = Some OpAddRule" by (simp add: peek_request_opcode_def)
  let ?c = "control ControlPlaneCore_init"
  have c: "core_inv ?c" "rule_capacity (rule_table ?c) = 128" "core_rules ?c = []"
    using plane_init_inv by (simp_all add: plane_inv_def)
  obtain t' where "handle (0, 0, 0, 0) ?q (replicate kControlResponseBufferBytes 0) ?c =
      Some (fst (sent pong (mh_sequence ?h) (replicate kControlResponseBufferBytes 0)),
        snd (sent pong (mh_sequence ?h) (replicate kControlResponseBufferBytes 0)), ?c\<lparr>rule_table := t'\<rparr>)" "table_rules t' = [demo_rule]"
    using handle_refines_spec [OF c(1,2), of "replicate kControlResponseBufferBytes 0" ?q ?r OpAddRule "mh_sequence ?h" "rule_bytes demo_rule"
        "(0, 0, 0, 0)" pong "[demo_rule]"] dec op c(3) spec
    by (auto simp: kMaxControlPayloadBytes_def kControlResponseBufferBytes_def)
  then show ?thesis using peek by (simp add: handle_phase_def core_rules_def is_rule_mutating_request_def sent_def pong_def)
qed

theorem snapshots_consistent_witness:
  "\<exists>s. rcu_reachable s \<and> rc_versions s = [[], [demo_rule]] \<and> rc_loads s = [[], [demo_rule]] \<and>
     (\<exists>idx. sorted idx \<and> (\<forall>i \<in> set idx. i < length (rc_versions s)) \<and> rc_loads s = map ((!) (rc_versions s)) idx)"
proof -
  obtain result out core where h: "handle_phase (0, 0, 0, 0) (message_bytes demo_header (rule_bytes demo_rule))
      (replicate kControlResponseBufferBytes 0) ControlPlaneCore_init = Some (result, out, True, core)"
    "core_rules (control core) = [demo_rule]" using demo_handle_phase by blast
  have 0: "rule_snapshot core = []"
    using h(1) by (auto simp: handle_phase_def ControlPlaneCore_init_def Option.bind_eq_Some_conv)
  let ?s1 = "rcu_init\<lparr>rc_core := core, rc_store_due := True, rc_versions := rc_versions rcu_init @ [core_rules (control core)]\<rparr>"
  have 1: "rcu_reachable ?s1"
    using control_handles [of rcu_init] h(1) rcu_reachable.step [OF rcu_reachable.start] by (auto simp: rcu_init_def)
  let ?s2 = "?s1\<lparr>rc_loads := rc_loads ?s1 @ [current_rules (rc_core ?s1)]\<rparr>"
  have 2: "rcu_reachable ?s2" by (rule rcu_reachable.step [OF 1 data_loads])
  let ?s3 = "?s2\<lparr>rc_core := publish_rules (rc_core ?s2), rc_store_due := False\<rparr>"
  have 3: "rcu_reachable ?s3" by (rule rcu_reachable.step [OF 2 control_stores]) simp
  let ?s4 = "?s3\<lparr>rc_loads := rc_loads ?s3 @ [current_rules (rc_core ?s3)]\<rparr>"
  have 4: "rcu_reachable ?s4" by (rule rcu_reachable.step [OF 3 data_loads])
  have "rc_versions ?s4 = [[], [demo_rule]]" "rc_loads ?s4 = [[], [demo_rule]]"
    using h(2) 0 by (simp_all add: rcu_init_def current_rules_def publish_rules_def core_rules_def)
  then show ?thesis using 4 snapshots_consistent [OF 4] by blast
qed

end
