(* ===== verification/Control_Server.thy ===== *)
theory Control_Server
  imports Control_Plane
begin

section \<open>The control server is memory safe, returns and reassembles the byte stream\<close>

text \<open>
  Invariant and behaviour of the server operations defined in \<open>Control_Plane\<close>, for any operating system that
  keeps the documented bounds of its calls.
\<close>

subsection \<open>What is assumed of the system calls\<close>

text \<open>\<open>recv\<close> and \<open>epoll_wait\<close> deliver what their result announces, and no more than was asked for.\<close>

definition os_bounded :: "'w os \<Rightarrow> bool" where
  "os_bounded os \<longleftrightarrow>
     (\<forall>fd n w. fst (fst (os_recv os fd n w)) \<le> int (length (snd (snd (fst (os_recv os fd n w))))) \<and>
        length (snd (snd (fst (os_recv os fd n w)))) \<le> n) \<and>
     (\<forall>fd n t w. fst (fst (os_epoll_wait os fd n t w)) \<le> int (length (snd (snd (fst (os_epoll_wait os fd n t w))))))"

text \<open>Signals interrupt \<open>send\<close> only finitely often in a row: \<open>m\<close> bounds how often from a given world.\<close>

definition send_progress :: "('w \<Rightarrow> nat) \<Rightarrow> 'w os \<Rightarrow> bool" where
  "send_progress m os \<longleftrightarrow> (\<forall>fd bs w. fst (fst (os_send os fd bs w)) < 0 \<and> snd (fst (os_send os fd bs w)) = EINTR \<longrightarrow>
     m (snd (os_send os fd bs w)) < m w)"

lemma send_all_returns:
  assumes "send_progress m os"
  shows "\<exists>ok w'. send_all os fd bs offset w = Some (ok, w')"
proof (induction "length bs - offset" arbitrary: offset w rule: less_induct)
  case outer: less
  show ?case
  proof (induction "m w" arbitrary: w rule: less_induct)
    case inner: less
    let ?r = "os_send os fd (drop offset bs) w"
    show ?case
    proof (cases "offset < length bs")
      case True
      consider (eintr) "fst (fst ?r) < 0" "snd (fst ?r) = EINTR" | (fail) "fst (fst ?r) \<le> 0" "\<not> (fst (fst ?r) < 0 \<and> snd (fst ?r) = EINTR)"
        | (some) "0 < fst (fst ?r)" by force
      then show ?thesis
      proof cases
        case eintr
        then have "m (snd ?r) < m w" using assms by (simp add: send_progress_def)
        from inner [OF this] show ?thesis using True eintr by (subst send_all.simps) (simp add: Let_def)
      next
        case fail
        then show ?thesis using True by (subst send_all.simps) (auto simp: Let_def)
      next
        case some
        then have "length bs - (offset + nat (fst (fst ?r))) < length bs - offset" using True by linarith
        from outer [OF this, of "snd ?r"] show ?thesis using True some by (subst send_all.simps) (simp add: Let_def)
      qed
    qed (subst send_all.simps, auto)
  qed
qed

subsection \<open>The connection table\<close>

definition server_inv :: "ControlPlaneServer \<Rightarrow> bool" where
  "server_inv s \<longleftrightarrow> length (client_fds s) = 16 \<and> length (buffers s) = 16 \<and> (\<forall>b \<in> set (buffers s). buffer_inv b) \<and>
     connection_count s \<le> cf_max_connections (sv_config s) \<and> cf_max_connections (sv_config s) \<le> 16 \<and>
     (\<not> sv_initialized s \<longrightarrow> connection_count s = 0)"

lemma server_init_inv: "server_inv ControlPlaneServer_init"
  by (simp add: server_inv_def ControlPlaneServer_init_def ControlPlaneConfig_init_def control_sizes)

lemma server_inv_slot:
  "server_inv s \<Longrightarrow> slot < connection_count s \<Longrightarrow> slot < length (client_fds s) \<and> slot < length (buffers s) \<and> buffer_inv (buffers s ! slot)"
  by (auto simp: server_inv_def)

lemma server_inv_buffer:
  "server_inv s \<Longrightarrow> buffer_inv b \<Longrightarrow> server_inv (s\<lparr>buffers := (buffers s)[slot := b]\<rparr>)"
  by (auto simp: server_inv_def dest!: set_update_subset_insert [THEN subsetD])

lemma remove_connection_effect:
  assumes "server_inv s" "slot < connection_count s"
  shows "\<exists>s' w'. remove_connection os slot s w = Some (s', w') \<and> server_inv s' \<and> connection_count s' = connection_count s - 1 \<and>
    listen_fd s' = listen_fd s \<and> event_fd s' = event_fd s \<and> sv_initialized s' = sv_initialized s"
proof -
  have b: "b \<in> set (buffers s) \<Longrightarrow> buffer_inv b" for b using assms(1) by (simp add: server_inv_def)
  have len: "slot < 16" "connection_count s - 1 < 16" "length (client_fds s) = 16" "length (buffers s) = 16"
    using assms by (auto simp: server_inv_def)
  then have "\<forall>b \<in> set ((buffers s)[slot := buffers s ! (connection_count s - 1)]). buffer_inv b"
    using b by (auto dest!: set_update_subset_insert [THEN subsetD])
  then show ?thesis using assms len by (auto simp: remove_connection_def server_inv_def case_prod_beta Let_def)
qed

lemma find_from_bounds:
  assumes "n \<le> length fds" "index \<le> n"
  shows "\<exists>slot. find_from fd fds index n = Some slot \<and> slot \<le> n \<and> (slot < n \<longrightarrow> fds ! slot = fd)"
  using assms
proof (induction fd fds index n rule: find_from.induct)
  case (1 fd fds index n)
  then show ?case by (subst find_from.simps) auto
qed

lemma find_slot_bounds:
  assumes "server_inv s"
  shows "\<exists>slot. find_slot fd s = Some slot \<and> slot \<le> connection_count s \<and> (slot < connection_count s \<longrightarrow> client_fds s ! slot = fd)"
  using assms find_from_bounds [of "connection_count s" "client_fds s" 0 fd] by (auto simp: server_inv_def find_slot_def)

lemma handle_accept_effect:
  assumes "server_inv s" "sv_initialized s"
  shows "\<exists>s' w'. handle_accept os s w = Some (s', w') \<and> server_inv s' \<and> sv_initialized s'"
proof -
  have inv: "buffer_inv (reset_buffer (buffers s ! connection_count s))" if "connection_count s < 16"
    using assms(1) that reset_buffer_inv by (auto simp: server_inv_def)
  show ?thesis
  proof (cases "connection_count s < cf_max_connections (sv_config s)")
    case True
    then have lt: "connection_count s < 16" using assms(1) by (auto simp: server_inv_def)
    then have "\<forall>b \<in> set ((buffers s)[connection_count s := reset_buffer (buffers s ! connection_count s)]). buffer_inv b"
      using assms(1) inv by (auto simp: server_inv_def dest!: set_update_subset_insert [THEN subsetD])
    then show ?thesis using assms True lt by (auto simp: handle_accept_def server_inv_def case_prod_beta Let_def)
  next
    case False
    then show ?thesis using assms by (auto simp: handle_accept_def case_prod_beta Let_def)
  qed
qed

subsection \<open>Serving one message\<close>

abbreviation response_buffer :: bytes where
  "response_buffer \<equiv> replicate kControlResponseBufferBytes 0"

text \<open>What is sent for a reply.\<close>

definition reply_bytes :: "reply \<Rightarrow> u32 \<Rightarrow> bytes" where
  "reply_bytes rep sequence = (case rep of (st, op, payload) \<Rightarrow> message_bytes (response_header op sequence) payload)"

lemma spec_plane_reply_length:
  assumes "plane_inv core" "spec_plane pad request core = ((st, op, payload), sequence, rs)"
  shows "length payload \<le> 5120"
proof -
  obtain r where r: "decode_message request = Some r" using decode_message_total by blast
  have "length (core_rules (control core)) \<le> 128"
    using assms(1) rt.bounded [of "rule_table (control core)"] by (simp add: plane_inv_def core_inv_def core_rules_def)
  then show ?thesis
    using assms(2) r spec_reply_length [of 128 "stat_bytes pad (core_stats (control core))"] name_length [of "dr_status r"]
    by (fastforce simp: spec_plane_def error_reply_def split: if_splits prod.splits)
qed

lemma sent_reply_bytes:
  "length payload \<le> 5120 \<Longrightarrow>
    subspan (snd (sent (st, op, payload) sequence response_buffer)) 0 (cp_bytes_written (fst (sent (st, op, payload) sequence response_buffer))) =
      Some (reply_bytes (st, op, payload) sequence) \<and>
    0 < cp_bytes_written (fst (sent (st, op, payload) sequence response_buffer))"
  by (simp add: sent_def reply_bytes_def subspan_def kControlResponseBufferBytes_def)

lemma serve_message_effect:
  assumes inv: "server_inv s" "slot < connection_count s" "plane_inv core"
    and front: "front_length (pending (buffers s ! slot)) = Some n"
    and spec: "spec_plane pad (take n (pending (buffers s ! slot))) core = (rep, sequence, rs)"
  shows "\<exists>b core'. buffer_inv b \<and> pending b = drop n (pending (buffers s ! slot)) \<and> cb_overflowed b = cb_overflowed (buffers s ! slot) \<and>
    handle_request pad (take n (pending (buffers s ! slot))) response_buffer core =
      Some (fst (sent rep sequence response_buffer), snd (sent rep sequence response_buffer), core') \<and> plane_inv core' \<and>
    serve_message os pad fd slot (s, core, w) = do {
      (ok, w) \<leftarrow> send_all os fd (reply_bytes rep sequence) 0 w;
      if ok then Some (True, s\<lparr>buffers := (buffers s)[slot := b], messages_handled := messages_handled s + 1\<rparr>, core', w)
      else do { (s, w) \<leftarrow> remove_connection os slot (s\<lparr>buffers := (buffers s)[slot := b]\<rparr>) w; Some (False, s, core', w) }
    }"
proof -
  let ?b = "buffers s ! slot"
  have slot: "slot < length (buffers s)" "buffer_inv ?b" using server_inv_slot [OF inv(1,2)] by auto
  note len = next_message_length_pending [OF slot(2) front]
  obtain b where b: "consume_bytes n ?b = Some b" "buffer_inv b" "pending b = drop n (pending ?b)" "cb_overflowed b = cb_overflowed ?b"
    using consume_bytes_pending [OF slot(2)] by blast
  obtain core' where core': "handle_request pad (take n (pending ?b)) response_buffer core =
      Some (fst (sent rep sequence response_buffer), snd (sent rep sequence response_buffer), core')" "plane_inv core'"
    using handle_request_spec [OF inv(3) _ spec, of response_buffer] by (auto simp: kControlResponseBufferBytes_def)
  obtain st op payload where rep: "rep = (st, op, payload)" by (metis prod_cases3)
  have rb: "subspan (snd (sent rep sequence response_buffer)) 0 (cp_bytes_written (fst (sent rep sequence response_buffer))) = Some (reply_bytes rep sequence)"
    "0 < cp_bytes_written (fst (sent rep sequence response_buffer))"
    using sent_reply_bytes [OF spec_plane_reply_length [OF inv(3) spec [unfolded rep]], of st op sequence] unfolding rep by blast+
  have sub: "subspan (pending ?b) 0 n = Some (take n (pending ?b))" using len(3) by (simp add: subspan_def)
  have "serve_message os pad fd slot (s, core, w) = do {
      (ok, w) \<leftarrow> send_all os fd (reply_bytes rep sequence) 0 w;
      if ok then Some (True, s\<lparr>buffers := (buffers s)[slot := b], messages_handled := messages_handled s + 1\<rparr>, core', w)
      else do { (s, w) \<leftarrow> remove_connection os slot (s\<lparr>buffers := (buffers s)[slot := b]\<rparr>) w; Some (False, s, core', w) }
    }"
    using slot len rb sub core' b(1) readable_pending [OF slot(2)] length_pending [OF slot(2)]
    by (simp add: serve_message_def readable_bytes_def Let_def if_distrib cong: if_cong)
      (auto intro!: Option.bind_cong [OF refl])
  then show ?thesis using b core' by blast
qed

subsection \<open>Every operation returns and keeps the invariant\<close>

definition state_inv :: "'w server_state \<Rightarrow> bool" where
  "state_inv st \<longleftrightarrow> server_inv (fst st) \<and> plane_inv (fst (snd st))"

text \<open>A connection may have been removed: the table keeps the descriptors of the server itself.\<close>

definition same_server :: "ControlPlaneServer \<Rightarrow> ControlPlaneServer \<Rightarrow> bool" where
  "same_server s s' \<longleftrightarrow> sv_initialized s' = sv_initialized s \<and> listen_fd s' = listen_fd s \<and> event_fd s' = event_fd s"

lemma serve_message_returns:
  assumes "send_progress m os" "state_inv (s, core, w)" "slot < connection_count s" "front_length (pending (buffers s ! slot)) = Some n"
  shows "\<exists>go s' core' w'. serve_message os pad fd slot (s, core, w) = Some (go, s', core', w') \<and> state_inv (s', core', w') \<and> same_server s s' \<and>
    (go \<longrightarrow> connection_count s' = connection_count s \<and> length (pending (buffers s' ! slot)) < length (pending (buffers s ! slot)))"
proof -
  have inv: "server_inv s" "plane_inv core" using assms(2) by (auto simp: state_inv_def)
  note slot = server_inv_slot [OF inv(1) assms(3)]
  have n: "0 < n" "n \<le> length (pending (buffers s ! slot))" using next_message_length_pending [OF _ assms(4)] slot by auto
  obtain rep sequence rs where spec: "spec_plane pad (take n (pending (buffers s ! slot))) core = (rep, sequence, rs)" by (metis prod_cases3)
  obtain b core' where b: "buffer_inv b" "pending b = drop n (pending (buffers s ! slot))" "plane_inv core'"
    "serve_message os pad fd slot (s, core, w) = do {
      (ok, w) \<leftarrow> send_all os fd (reply_bytes rep sequence) 0 w;
      if ok then Some (True, s\<lparr>buffers := (buffers s)[slot := b], messages_handled := messages_handled s + 1\<rparr>, core', w)
      else do { (s, w) \<leftarrow> remove_connection os slot (s\<lparr>buffers := (buffers s)[slot := b]\<rparr>) w; Some (False, s, core', w) }
    }"
    using serve_message_effect [OF inv(1) assms(3) inv(2) assms(4) spec, of os fd w] by blast
  let ?s = "s\<lparr>buffers := (buffers s)[slot := b]\<rparr>"
  have s: "server_inv ?s" "server_inv (?s\<lparr>messages_handled := messages_handled s + 1\<rparr>)"
    using server_inv_buffer [OF inv(1) b(1), of slot] by (simp_all add: server_inv_def)
  obtain ok w' where send: "send_all os fd (reply_bytes rep sequence) 0 w = Some (ok, w')" using send_all_returns [OF assms(1)] by blast
  show ?thesis
  proof (cases ok)
    case True
    have "serve_message os pad fd slot (s, core, w) = Some (True, ?s\<lparr>messages_handled := messages_handled s + 1\<rparr>, core', w')"
      using b(4) send True by simp
    moreover have "length (pending b) < length (pending (buffers s ! slot))" using b(2) n by simp
    ultimately show ?thesis using s(2) b(3) slot by (auto simp: state_inv_def same_server_def)
  next
    case False
    obtain s' w'' where rm: "remove_connection os slot ?s w' = Some (s', w'')" "server_inv s'" "same_server s s'"
      using remove_connection_effect [OF s(1), of slot os w'] assms(3) by (auto simp: same_server_def)
    have "serve_message os pad fd slot (s, core, w) = Some (False, s', core', w'')" using b(4) send False rm(1) by simp
    then show ?thesis using rm b(3) by (auto simp: state_inv_def)
  qed
qed

lemma message_loop_returns:
  assumes "send_progress m os" "state_inv (s, core, w)" "slot < connection_count s"
  shows "\<exists>s' core' w'. message_loop os pad fd slot (s, core, w) = Some (s', core', w') \<and> state_inv (s', core', w') \<and> same_server s s'"
  using assms(2,3)
proof (induction "length (pending (buffers s ! slot))" arbitrary: s core w rule: less_induct)
  case less
  have slot: "slot < length (buffers s)" "buffer_inv (buffers s ! slot)"
    using server_inv_slot [OF _ less.prems(2)] less.prems(1) by (auto simp: state_inv_def)
  show ?case
  proof (cases "front_length (pending (buffers s ! slot))")
    case None
    then show ?thesis using slot less.prems has_complete_message_pending [OF slot(2)]
      by (subst message_loop.simps) (auto simp: same_server_def)
  next
    case (Some n)
    obtain go s' core' w' where r: "serve_message os pad fd slot (s, core, w) = Some (go, s', core', w')" "state_inv (s', core', w')" "same_server s s'"
      "go \<longrightarrow> connection_count s' = connection_count s \<and> length (pending (buffers s' ! slot)) < length (pending (buffers s ! slot))"
      using serve_message_returns [OF assms(1) less.prems Some, of pad fd] by blast
    show ?thesis
    proof (cases go)
      case True
      then have "\<exists>s'' core'' w''. message_loop os pad fd slot (s', core', w') = Some (s'', core'', w'') \<and> state_inv (s'', core'', w'') \<and> same_server s' s''"
        using less.hyps [of s' core' w'] r less.prems by auto
      then show ?thesis using True r slot Some has_complete_message_pending [OF slot(2)]
        by (subst message_loop.simps) (auto simp: same_server_def)
    next
      case False
      then show ?thesis using r slot Some has_complete_message_pending [OF slot(2)]
        by (subst message_loop.simps) (auto simp: same_server_def)
    qed
  qed
qed

lemma receive_data_returns:
  assumes "send_progress m os" "state_inv (s, core, w)" "slot < connection_count s"
  shows "\<exists>s' core' w'. receive_data os pad fd slot data (s, core, w) = Some (s', core', w') \<and> state_inv (s', core', w') \<and> same_server s s'"
proof -
  have inv: "server_inv s" "plane_inv core" using assms(2) by (auto simp: state_inv_def)
  note slot = server_inv_slot [OF inv(1) assms(3)]
  obtain n b where b: "append_data data (buffers s ! slot) = Some (n, b)" "buffer_inv b"
    using append_data_pending [of "buffers s ! slot"] slot by blast
  let ?s = "s\<lparr>buffers := (buffers s)[slot := b]\<rparr>"
  have s: "server_inv ?s" by (rule server_inv_buffer [OF inv(1) b(2)])
  show ?thesis
    using b slot assms(3) inv(2) remove_connection_effect [OF s, of slot os w]
      message_loop_returns [OF assms(1), of ?s core w slot pad fd] s
    by (cases "n \<noteq> length data \<or> cb_overflowed b") (auto simp: receive_data_def state_inv_def same_server_def)
qed

lemma handle_client_returns:
  assumes "send_progress m os" "state_inv (s, core, w)"
  shows "\<exists>s' core' w'. handle_client os pad fd (s, core, w) = Some (s', core', w') \<and> state_inv (s', core', w') \<and> same_server s s'"
proof -
  have inv: "server_inv s" "plane_inv core" using assms(2) by (auto simp: state_inv_def)
  obtain slot where slot: "find_slot fd s = Some slot" "slot \<le> connection_count s" using find_slot_bounds [OF inv(1)] by blast
  obtain n e data w1 where recv: "os_recv os fd 4096 w = ((n, e, data), w1)" by (metis prod.exhaust)
  show ?thesis
  proof (cases "slot = connection_count s")
    case True
    then show ?thesis using slot assms(2) by (simp add: handle_client_def same_server_def)
  next
    case False
    then have lt: "slot < connection_count s" using slot by simp
    have "state_inv (s, core, w1)" using inv by (simp add: state_inv_def)
    then show ?thesis
      using slot False recv remove_connection_effect [OF inv(1) lt, of os w1] inv
        receive_data_returns [OF assms(1) \<open>state_inv (s, core, w1)\<close> lt, of pad fd "take (nat n) data"]
      by (auto simp: handle_client_def state_inv_def same_server_def)
  qed
qed

lemma handle_events_returns:
  assumes "send_progress m os" "state_inv (s, core, w)" "sv_initialized s"
  shows "\<exists>status st. handle_events os pad fds (s, core, w) = Some (status, st) \<and> state_inv st \<and> status \<in> {CpOk, ShutdownRequested}"
  using assms(2,3)
proof (induction fds arbitrary: s core w)
  case (Cons fd fds)
  have inv: "server_inv s" "plane_inv core" using Cons.prems by (auto simp: state_inv_def)
  consider (event) "fd = event_fd s" | (listen) "fd \<noteq> event_fd s" "fd = listen_fd s" | (client) "fd \<noteq> event_fd s" "fd \<noteq> listen_fd s" by blast
  then show ?case
  proof cases
    case listen
    obtain s' w' where "handle_accept os s w = Some (s', w')" "server_inv s'" "sv_initialized s'"
      using handle_accept_effect [OF inv(1) Cons.prems(2), of os w] by blast
    then show ?thesis using Cons.IH [of s' core w'] inv listen by (auto simp: state_inv_def)
  next
    case client
    obtain s' core' w' where "handle_client os pad fd (s, core, w) = Some (s', core', w')" "state_inv (s', core', w')" "same_server s s'"
      using handle_client_returns [OF assms(1) Cons.prems(1)] by blast
    then show ?thesis using Cons.IH [of s' core' w'] Cons.prems client by (auto simp: same_server_def)
  qed (use Cons.prems in simp)
qed simp

lemma run_once_returns:
  assumes "os_bounded os" "send_progress m os" "state_inv st"
  shows "\<exists>status st'. run_once os pad timeout_ms st = Some (status, st') \<and> state_inv st'"
proof -
  obtain s core w where st: "st = (s, core, w)" by (metis prod_cases3)
  obtain n e fds w1 where wait: "os_epoll_wait os (epoll_fd s) kMaxEpollEvents timeout_ms w = ((n, e, fds), w1)" by (metis prod.exhaust)
  have "n \<le> int (length fds)" using assms(1) wait unfolding os_bounded_def by (metis fst_conv snd_conv)
  then have n: "nat n \<le> length fds" by simp
  have inv: "state_inv (s, core, w1)" using assms(3) by (simp add: st state_inv_def)
  show ?thesis
  proof (cases "sv_initialized s")
    case True
    then show ?thesis using wait n inv handle_events_returns [OF assms(2) inv True, of pad "take (nat n) fds"]
      by (auto simp: run_once_def st)
  next
    case False
    then show ?thesis using assms(3) by (simp add: run_once_def st)
  qed
qed

fun run_calls :: "'w os \<Rightarrow> padding \<Rightarrow> int list \<Rightarrow> 'w server_state \<Rightarrow> 'w server_state option" where
  "run_calls os pad [] st = Some st"
| "run_calls os pad (t # ts) st = do { (status, st) \<leftarrow> run_once os pad t st; run_calls os pad ts st }"

lemma run_calls_returns:
  assumes "os_bounded os" "send_progress m os"
  shows "state_inv st \<Longrightarrow> \<exists>st'. run_calls os pad ts st = Some st' \<and> state_inv st'"
proof (induction ts arbitrary: st)
  case (Cons t ts)
  then show ?case using run_once_returns [OF assms Cons.prems, of pad t] by auto
qed simp

lemma close_defs: "fst (close_fd os fd w) < 0" "fst (close_fd os fd w) = (if 0 \<le> fd then -1 else fd)"
  by (simp_all add: close_fd_def)

lemma server_init_keeps:
  assumes "server_inv s"
  shows "server_inv (fst (snd (server_init os config s w)))"
  using assms by (auto simp: server_init_def Let_def case_prod_beta server_inv_def config_valid_def control_sizes
      close_listen_def close_epoll_def close_event_def)

lemma close_clients_returns:
  assumes "n \<le> length fds"
  shows "\<exists>fds' w'. close_clients os index n fds w = Some (fds', w') \<and> length fds' = length fds"
  using assms
proof (induction os index n fds w rule: close_clients.induct)
  case (1 os index n fds w)
  show ?case
  proof (cases "index < n")
    case True
    obtain fd' w' where c: "close_fd os (fds ! index) w = (fd', w')" by fastforce
    have "\<exists>fds'' w''. close_clients os (index + 1) n (fds[index := fd']) w' = Some (fds'', w'') \<and> length fds'' = length fds"
      using 1(1) [OF True, of "fds ! index" "(fd', w')" fd' w' "fds[index := fd']"] 1(2) True c by simp
    then show ?thesis using True 1(2) c by (subst close_clients.simps) auto
  next
    case False
    then show ?thesis by (subst close_clients.simps) auto
  qed
qed

lemma shutdown_returns:
  assumes "server_inv s"
  shows "\<exists>s' w'. shutdown os s w = Some (s', w') \<and> server_inv s' \<and> \<not> sv_initialized s' \<and> connection_count s' = 0 \<and>
    listen_fd s' < 0 \<and> epoll_fd s' < 0 \<and> event_fd s' < 0"
proof -
  have "connection_count s \<le> length (client_fds s)" using assms by (simp add: server_inv_def)
  then obtain fds w1 where c: "close_clients os 0 (connection_count s) (client_fds s) w = Some (fds, w1)" "length fds = length (client_fds s)"
    using close_clients_returns [of "connection_count s" "client_fds s" os 0 w] by blast
  let ?s = "s\<lparr>client_fds := fds, connection_count := 0\<rparr>"
  obtain e w2 where e: "close_fd os (event_fd s) w1 = (e, w2)" by fastforce
  obtain p w3 where p: "close_fd os (epoll_fd s) w2 = (p, w3)" by fastforce
  obtain l w4 where l: "close_fd os (listen_fd s) w3 = (l, w4)" by fastforce
  have neg: "e < 0" "p < 0" "l < 0"
    using close_defs(1) [of os "event_fd s" w1] close_defs(1) [of os "epoll_fd s" w2] close_defs(1) [of os "listen_fd s" w3] e p l by simp_all
  have "shutdown os s w = Some (?s\<lparr>event_fd := e, epoll_fd := p, listen_fd := l, sv_initialized := False\<rparr>, w4)"
    using c(1) e p l by (simp add: shutdown_def close_event_def close_epoll_def close_listen_def)
  then show ?thesis using assms c(2) neg by (simp add: server_inv_def)
qed


text \<open>An operating system for the examples: the world holds the chunks that \<open>recv\<close> still delivers and the bytes sent so far.\<close>

definition demo_os :: "(bytes list \<times> bytes) os" where
  "demo_os = \<lparr>os_socket = Pair 3, os_setsockopt = (\<lambda>fd. Pair 0), os_bind = (\<lambda>fd port. Pair 0), os_listen = (\<lambda>fd n. Pair 0),
     os_epoll_create1 = Pair 4, os_eventfd = Pair 5, os_epoll_ctl_add = (\<lambda>ep fd. Pair 0),
     os_epoll_wait = (\<lambda>ep n t. Pair (1, 0, [7])), os_accept4 = (\<lambda>fd. Pair 7),
     os_recv = (\<lambda>fd n (chunks, out). case chunks of [] \<Rightarrow> ((0, 0, []), ([], out))
       | c # cs \<Rightarrow> ((int (length (take n c)), 0, take n c), (cs, out))),
     os_send = (\<lambda>fd bs (chunks, out). ((int (length bs), 0), (chunks, out @ bs))),
     os_write = (\<lambda>fd v. Pair 8), os_close = (\<lambda>fd w. w)\<rparr>"

lemma demo_os_bounded: "os_bounded demo_os"
  by (auto simp: os_bounded_def demo_os_def split: prod.split list.split)

lemma demo_os_progress: "send_progress (\<lambda>w. 0) demo_os"
  by (auto simp: send_progress_def demo_os_def split: prod.splits)


subsection \<open>Reassembly of the byte stream\<close>

text \<open>A complete message: its length is the one its header announces.\<close>

definition framed :: "bytes \<Rightarrow> bool" where
  "framed m \<longleftrightarrow> 24 \<le> length m \<and> length m = 24 + unat (be32 (m ! 8) (m ! 9) (m ! 10) (m ! 11)) \<and> length m \<le> 24 + kMaxControlPayloadBytes"

lemma framed_front: "framed m \<Longrightarrow> front_length (m @ rest) = Some (length m)"
  by (auto simp: framed_def front_length_def Let_def nth_append)

lemma framed_prefix:
  assumes "framed (rest @ ext)" "ext \<noteq> []"
  shows "front_length rest = None"
proof (cases "length rest < 24")
  case False
  then have n: "length rest + length ext = 24 + unat (be32 (rest ! 8) (rest ! 9) (rest ! 10) (rest ! 11))"
    "unat (be32 (rest ! 8) (rest ! 9) (rest ! 10) (rest ! 11)) \<le> kMaxControlPayloadBytes"
    using assms(1) by (simp_all add: framed_def nth_append)
  moreover have "0 < length ext" using assms(2) by simp
  ultimately have "length rest < 24 + unat (be32 (rest ! 8) (rest ! 9) (rest ! 10) (rest ! 11))" by linarith
  then show ?thesis using n(2) False by (simp add: front_length_def Let_def)
qed (simp add: front_length_def)

lemma concat_prefix:
  assumes "xs @ ys = concat ms"
  shows "\<exists>ms1 ms2 rest. ms = ms1 @ ms2 \<and> xs = concat ms1 @ rest \<and> rest @ ys = concat ms2 \<and>
    (ms2 = [] \<and> rest = [] \<or> (\<exists>m tl ext. ms2 = m # tl \<and> m = rest @ ext \<and> (ext \<noteq> [] \<or> m = [])))"
  using assms
proof (induction ms arbitrary: xs)
  case Nil
  then show ?case by simp
next
  case (Cons m ms)
  then consider (short) ext where "m = xs @ ext" "ext \<noteq> []" | (long) us where "xs = m @ us" "us @ ys = concat ms"
    by (auto simp: append_eq_append_conv2) (metis append_Nil2)
  then show ?case
  proof cases
    case short
    then show ?thesis using Cons.prems by (intro exI [of _ "[]"] exI [of _ "m # ms"] exI [of _ xs]) auto
  next
    case long
    from Cons.IH [OF long(2)] obtain ms1 ms2 rest where "ms = ms1 @ ms2" "us = concat ms1 @ rest" "rest @ ys = concat ms2"
      "ms2 = [] \<and> rest = [] \<or> (\<exists>m tl ext. ms2 = m # tl \<and> m = rest @ ext \<and> (ext \<noteq> [] \<or> m = []))" by blast
    then show ?thesis using long by (intro exI [of _ "m # ms1"] exI [of _ ms2] exI [of _ rest]) auto
  qed
qed

text \<open>The reference: the messages are handled one by one, in order, and every reply is sent.\<close>

fun serve_all :: "'w os \<Rightarrow> padding \<Rightarrow> int \<Rightarrow> bytes list \<Rightarrow> ControlPlaneCore \<times> 'w \<Rightarrow> (ControlPlaneCore \<times> 'w) option" where
  "serve_all os pad fd [] (core, w) = Some (core, w)"
| "serve_all os pad fd (m # ms) (core, w) = do {
     (result, response, core) \<leftarrow> handle_request pad m response_buffer core;
     (ok, w) \<leftarrow> send_all os fd (take (cp_bytes_written result) response) 0 w;
     if ok then serve_all os pad fd ms (core, w) else None
   }"

text \<open>The peer reads: a \<open>send\<close> takes at least one byte.\<close>

definition peer_reads :: "'w os \<Rightarrow> int \<Rightarrow> bool" where
  "peer_reads os fd \<longleftrightarrow> (\<forall>bs w. bs \<noteq> [] \<longrightarrow> 0 < fst (fst (os_send os fd bs w)))"

lemma send_all_succeeds:
  assumes "peer_reads os fd"
  shows "\<exists>w'. send_all os fd bs offset w = Some (True, w')"
proof (induction "length bs - offset" arbitrary: offset w rule: less_induct)
  case less
  let ?r = "os_send os fd (drop offset bs) w"
  show ?case
  proof (cases "offset < length bs")
    case True
    then have pos: "0 < fst (fst ?r)" using assms by (simp add: peer_reads_def)
    then have "length bs - (offset + nat (fst (fst ?r))) < length bs - offset" using True by linarith
    from less [OF this, of "snd ?r"] show ?thesis using True pos by (subst send_all.simps) (simp add: Let_def)
  qed (subst send_all.simps, auto)
qed

lemma take_subspan: "subspan bs 0 n = Some x \<Longrightarrow> x = take n bs"
  by (auto simp: subspan_def split: if_splits)

lemma message_loop_serves:
  assumes "peer_reads os fd"
    and "server_inv s" "slot < connection_count s" "plane_inv core"
    and "\<forall>m \<in> set ms. framed m" "pending (buffers s ! slot) = concat ms @ rest" "front_length rest = None"
  shows "\<exists>b core' w'. message_loop os pad fd slot (s, core, w) =
      Some (s\<lparr>buffers := (buffers s)[slot := b], messages_handled := messages_handled s + of_nat (length ms)\<rparr>, core', w') \<and>
    serve_all os pad fd ms (core, w) = Some (core', w') \<and> plane_inv core' \<and> buffer_inv b \<and> pending b = rest \<and>
    cb_overflowed b = cb_overflowed (buffers s ! slot)"
  using assms(2-)
proof (induction ms arbitrary: s core w)
  case Nil
  note slot = server_inv_slot [OF Nil.prems(1,2)]
  have "message_loop os pad fd slot (s, core, w) = Some (s, core, w)"
    using Nil.prems slot has_complete_message_pending [of "buffers s ! slot"] by (subst message_loop.simps) simp
  then show ?case using Nil.prems slot by (intro exI [of _ "buffers s ! slot"] exI [of _ core] exI [of _ w]) simp
next
  case (Cons m ms)
  let ?b = "buffers s ! slot"
  note slot = server_inv_slot [OF Cons.prems(1,2)]
  have front: "front_length (pending ?b) = Some (length m)" and t: "take (length m) (pending ?b) = m"
    using Cons.prems(4,5) framed_front [of m "concat ms @ rest"] by simp_all
  obtain rep sequence rs where spec: "spec_plane pad m core = (rep, sequence, rs)" by (metis prod_cases3)
  have spec': "spec_plane pad (take (length m) (pending ?b)) core = (rep, sequence, rs)" unfolding t by (rule spec)
  obtain b core1 where b: "buffer_inv b" "pending b = drop (length m) (pending ?b)" "cb_overflowed b = cb_overflowed ?b"
    "handle_request pad m response_buffer core = Some (fst (sent rep sequence response_buffer), snd (sent rep sequence response_buffer), core1)"
    "plane_inv core1"
    "serve_message os pad fd slot (s, core, w) = do {
      (ok, w) \<leftarrow> send_all os fd (reply_bytes rep sequence) 0 w;
      if ok then Some (True, s\<lparr>buffers := (buffers s)[slot := b], messages_handled := messages_handled s + 1\<rparr>, core1, w)
      else do { (s, w) \<leftarrow> remove_connection os slot (s\<lparr>buffers := (buffers s)[slot := b]\<rparr>) w; Some (False, s, core1, w) }
    }"
    using serve_message_effect [OF Cons.prems(1,2,3) front spec', of os fd w] unfolding t by blast
  obtain w1 where w1: "send_all os fd (reply_bytes rep sequence) 0 w = Some (True, w1)" using send_all_succeeds [OF assms(1)] by blast
  let ?s = "s\<lparr>buffers := (buffers s)[slot := b], messages_handled := messages_handled s + 1\<rparr>"
  have step: "serve_message os pad fd slot (s, core, w) = Some (True, ?s, core1, w1)" using b(6) w1 by simp
  have s: "server_inv ?s" "slot < connection_count ?s" using server_inv_buffer [OF Cons.prems(1) b(1), of slot] Cons.prems(2) by (simp_all add: server_inv_def)
  obtain b' core' w' where r: "message_loop os pad fd slot (?s, core1, w1) =
      Some (?s\<lparr>buffers := (buffers ?s)[slot := b'], messages_handled := messages_handled ?s + of_nat (length ms)\<rparr>, core', w')"
    "serve_all os pad fd ms (core1, w1) = Some (core', w')" "plane_inv core'" "buffer_inv b'" "pending b' = rest" "cb_overflowed b' = cb_overflowed b"
    using Cons.IH [of ?s core1 w1] s b(5) Cons.prems(4,5,6) b(2) slot by auto
  have "message_loop os pad fd slot (s, core, w) = message_loop os pad fd slot (?s, core1, w1)"
    using slot front has_complete_message_pending [of ?b] step by (subst message_loop.simps) simp
  moreover have "take (cp_bytes_written (fst (sent rep sequence response_buffer))) (snd (sent rep sequence response_buffer)) = reply_bytes rep sequence"
    by (simp add: sent_def reply_bytes_def case_prod_beta)
  then have "serve_all os pad fd (m # ms) (core, w) = Some (core', w')" using b(4) w1 r(2) by simp
  ultimately show ?case using r b(3) by (intro exI [of _ b'] exI [of _ core'] exI [of _ w']) (simp add: add.assoc)
qed

fun receive_chunks :: "'w os \<Rightarrow> padding \<Rightarrow> int \<Rightarrow> nat \<Rightarrow> bytes list \<Rightarrow> 'w server_state \<Rightarrow> 'w server_state option" where
  "receive_chunks os pad fd slot [] st = Some st"
| "receive_chunks os pad fd slot (c # cs) st = do { st \<leftarrow> receive_data os pad fd slot c st; receive_chunks os pad fd slot cs st }"

lemma serve_all_append:
  "serve_all os pad fd (ms1 @ ms2) st = do { st \<leftarrow> serve_all os pad fd ms1 st; serve_all os pad fd ms2 st }"
proof (induction ms1 arbitrary: st)
  case Nil
  show ?case by (cases st) simp
next
  case (Cons m ms1)
  then show ?case by (cases st) (auto intro!: Option.bind_cong simp: Option.bind_assoc split: prod.split)
qed

lemma receive_data_serves:
  assumes "peer_reads os fd" "server_inv s" "slot < connection_count s" "plane_inv core" "\<not> cb_overflowed (buffers s ! slot)"
    and "length (pending (buffers s ! slot)) + length c \<le> 8192"
    and "\<forall>m \<in> set ms. framed m" "pending (buffers s ! slot) @ c = concat ms @ rest" "front_length rest = None"
  shows "\<exists>b core' w'. receive_data os pad fd slot c (s, core, w) =
      Some (s\<lparr>buffers := (buffers s)[slot := b], messages_handled := messages_handled s + of_nat (length ms)\<rparr>, core', w') \<and>
    serve_all os pad fd ms (core, w) = Some (core', w') \<and> plane_inv core' \<and> buffer_inv b \<and> pending b = rest \<and> \<not> cb_overflowed b"
proof -
  note slot = server_inv_slot [OF assms(2,3)]
  obtain b where b: "append_data c (buffers s ! slot) = Some (length c, b)" "buffer_inv b" "pending b = pending (buffers s ! slot) @ c" "\<not> cb_overflowed b"
    using append_data_pending [of "buffers s ! slot" "length c" c] slot assms(5,6) by auto
  let ?s = "s\<lparr>buffers := (buffers s)[slot := b]\<rparr>"
  have s: "server_inv ?s" "slot < connection_count ?s" using server_inv_buffer [OF assms(2) b(2)] assms(3) by simp_all
  have p: "pending (buffers ?s ! slot) = concat ms @ rest" using b(3) assms(8) slot by simp
  obtain b' core' w' where r: "message_loop os pad fd slot (?s, core, w) =
      Some (?s\<lparr>buffers := (buffers ?s)[slot := b'], messages_handled := messages_handled ?s + of_nat (length ms)\<rparr>, core', w')"
    "serve_all os pad fd ms (core, w) = Some (core', w')" "plane_inv core'" "buffer_inv b'" "pending b' = rest"
    "cb_overflowed b' = cb_overflowed (buffers ?s ! slot)"
    using message_loop_serves [OF assms(1) s assms(4,7) p assms(9)] by blast
  have "receive_data os pad fd slot c (s, core, w) = message_loop os pad fd slot (?s, core, w)"
    using slot b(1,4) by (simp add: receive_data_def)
  then show ?thesis using r b(4) slot by (intro exI [of _ b'] exI [of _ core'] exI [of _ w']) simp
qed

lemma receive_chunks_serves:
  assumes "peer_reads os fd"
    and "server_inv s" "slot < connection_count s" "plane_inv core" "\<not> cb_overflowed (buffers s ! slot)"
    and "\<forall>m \<in> set ms. framed m \<and> length m \<le> 4097" "\<forall>c \<in> set cs. length c \<le> 4096"
    and "pending (buffers s ! slot) @ concat cs = concat ms" "length (pending (buffers s ! slot)) \<le> 4096" "cs = [] \<longrightarrow> ms = []"
  shows "\<exists>b core' w'. receive_chunks os pad fd slot cs (s, core, w) =
      Some (s\<lparr>buffers := (buffers s)[slot := b], messages_handled := messages_handled s + of_nat (length ms)\<rparr>, core', w') \<and>
    serve_all os pad fd ms (core, w) = Some (core', w') \<and> plane_inv core' \<and> pending b = []"
  using assms(2-)
proof (induction cs arbitrary: s core w ms)
  case Nil
  then show ?case by (intro exI [of _ "buffers s ! slot"] exI [of _ core] exI [of _ w]) simp
next
  case (Cons c cs)
  let ?P = "pending (buffers s ! slot)"
  have "(?P @ c) @ concat cs = concat ms" using Cons.prems by simp
  from concat_prefix [OF this] obtain ms1 ms2 rest where split: "ms = ms1 @ ms2" "?P @ c = concat ms1 @ rest" "rest @ concat cs = concat ms2"
    "ms2 = [] \<and> rest = [] \<or> (\<exists>m tl ext. ms2 = m # tl \<and> m = rest @ ext \<and> (ext \<noteq> [] \<or> m = []))"
    by blast
  have rest: "front_length rest = None \<and> length rest \<le> 4096"
  proof (cases "ms2 = []")
    case True
    then show ?thesis using split(4) by (simp add: front_length_def)
  next
    case False
    then obtain m tl ext where m: "ms2 = m # tl" "m = rest @ ext" "ext \<noteq> [] \<or> m = []" using split(4) by blast
    have f: "framed m" "length m \<le> 4097" using Cons.prems(5) split(1) m(1) by simp_all
    then have "m \<noteq> []" by (auto simp: framed_def)
    then have e: "ext \<noteq> []" using m(3) by simp
    then have "length rest < length m" using m(2) by simp
    then show ?thesis using framed_prefix [OF f(1) [unfolded m(2)] e] f(2) by simp
  qed
  have more: "cs = [] \<longrightarrow> ms2 = []"
  proof
    assume "cs = []"
    then have "rest = concat ms2" using split(3) by simp
    with split(4) show "ms2 = []"
      using Cons.prems(5) split(1) by (auto simp: framed_def)
  qed
  have len: "length ?P + length c \<le> 8192" using Cons.prems(6,8) by simp
  have fr: "\<forall>m \<in> set ms1. framed m" "\<forall>m \<in> set ms2. framed m \<and> length m \<le> 4097" using Cons.prems(5) split(1) by auto
  obtain b core1 w1 where 1: "receive_data os pad fd slot c (s, core, w) =
      Some (s\<lparr>buffers := (buffers s)[slot := b], messages_handled := messages_handled s + of_nat (length ms1)\<rparr>, core1, w1)"
    "serve_all os pad fd ms1 (core, w) = Some (core1, w1)" "plane_inv core1" "buffer_inv b" "pending b = rest" "\<not> cb_overflowed b"
    using receive_data_serves [OF assms(1) Cons.prems(1-4) len fr(1) split(2) conjunct1 [OF rest], of pad w] by (elim exE conjE) (rule that)
  let ?s = "s\<lparr>buffers := (buffers s)[slot := b], messages_handled := messages_handled s + of_nat (length ms1)\<rparr>"
  have s: "server_inv ?s" "slot < connection_count ?s" "buffers ?s ! slot = b"
    using server_inv_buffer [OF Cons.prems(1) 1(4), of slot] Cons.prems(2) server_inv_slot [OF Cons.prems(1,2)] by (simp_all add: server_inv_def)
  obtain b' core' w' where 2: "receive_chunks os pad fd slot cs (?s, core1, w1) =
      Some (?s\<lparr>buffers := (buffers ?s)[slot := b'], messages_handled := messages_handled ?s + of_nat (length ms2)\<rparr>, core', w')"
    "serve_all os pad fd ms2 (core1, w1) = Some (core', w')" "plane_inv core'" "pending b' = []"
    using Cons.IH [OF s(1,2) 1(3) _ fr(2) _ _ _ more, of w1] s(3) 1(5,6) Cons.prems(6) split(3) rest by auto
  show ?case using 1(1,2) 2 split(1)
    by (intro exI [of _ b'] exI [of _ core'] exI [of _ w']) (simp add: serve_all_append add.assoc)
qed


lemma framed_message_bytes:
  assumes "length payload \<le> kMaxControlPayloadBytes"
  shows "framed (message_bytes h payload)"
proof -
  have n: "unat (of_nat (length payload) :: u32) = length payload" using assms by (simp add: unat_of_nat kMaxControlPayloadBytes_def)
  let ?h = "normalized h (length payload)"
  have "be32 (x ! 8) (x ! 9) (x ! 10) (x ! 11) = mh_payload_length ?h" if "x = header_bytes ?h c @ payload" for x c
    unfolding that header_bytes_def by (simp add: be_bytes_words nth_append)
  then show ?thesis using assms n by (simp add: framed_def message_bytes_def normalized_def)
qed




end
