(* ===== verification/Frame_Pool.thy ===== *)
theory Frame_Pool
  imports Main
begin

section \<open>The contract of a pool of owned frames\<close>

text \<open>
  What the packet path relies on when it takes frames from the allocator, hands them from ring to
  ring and gives them back. A client is a sequence of operations; the events of its run are the
  frames it was given and the frames it gave back. The locale states the laws of a pool in terms of
  the owner of every frame; its lemmas are about every run of every client. The frame allocator
  interprets it.
\<close>

datatype ('h, 'o) pool_op = Alloc 'o | Move 'h 'o 'o | Rel 'h 'o

datatype 'h pool_event = Took 'h | Gave 'h

fun pool_step :: "('o \<Rightarrow> 's \<Rightarrow> 'h option \<times> 's) \<Rightarrow> ('h \<Rightarrow> 'o \<Rightarrow> 'o \<Rightarrow> 's \<Rightarrow> bool \<times> 's) \<Rightarrow> ('h \<Rightarrow> 'o \<Rightarrow> 's \<Rightarrow> bool \<times> 's)
    \<Rightarrow> 'o \<Rightarrow> ('h, 'o) pool_op \<Rightarrow> 's \<Rightarrow> 'h pool_event list \<times> 's" where
  "pool_step al mv rl free (Alloc owner) s =
     (case al owner s of (r, s') \<Rightarrow> (case r of None \<Rightarrow> [] | Some h \<Rightarrow> [Took h], s'))"
| "pool_step al mv rl free (Move h e n) s =
     (case mv h e n s of (r, s') \<Rightarrow> (if r \<and> n = free then [Gave h] else [], s'))"
| "pool_step al mv rl free (Rel h e) s =
     (case rl h e s of (r, s') \<Rightarrow> (if r then [Gave h] else [], s'))"

fun pool_run :: "('o \<Rightarrow> 's \<Rightarrow> 'h option \<times> 's) \<Rightarrow> ('h \<Rightarrow> 'o \<Rightarrow> 'o \<Rightarrow> 's \<Rightarrow> bool \<times> 's) \<Rightarrow> ('h \<Rightarrow> 'o \<Rightarrow> 's \<Rightarrow> bool \<times> 's)
    \<Rightarrow> 'o \<Rightarrow> ('h, 'o) pool_op list \<Rightarrow> 's \<Rightarrow> 'h pool_event list \<times> 's" where
  "pool_run al mv rl free [] s = ([], s)"
| "pool_run al mv rl free (p # ps) s =
     (case pool_step al mv rl free p s of (es, s') \<Rightarrow>
      case pool_run al mv rl free ps s' of (es', s'') \<Rightarrow> (es @ es', s''))"

text \<open>The operations a well-behaved client uses: nobody acts as, or on behalf of, the owner \<open>free\<close>.\<close>

fun pool_op_ok :: "'o \<Rightarrow> ('h, 'o) pool_op \<Rightarrow> bool" where
  "pool_op_ok free (Alloc owner) \<longleftrightarrow> owner \<noteq> free"
| "pool_op_ok free (Move h e n) \<longleftrightarrow> e \<noteq> free"
| "pool_op_ok free (Rel h e) \<longleftrightarrow> e \<noteq> free"

fun op_names :: "('h \<Rightarrow> 'i) \<Rightarrow> 'i \<Rightarrow> ('h, 'o) pool_op \<Rightarrow> bool" where
  "op_names ix i (Alloc owner) \<longleftrightarrow> False"
| "op_names ix i (Move h e n) \<longleftrightarrow> ix h = i"
| "op_names ix i (Rel h e) \<longleftrightarrow> ix h = i"

definition took_count :: "('h \<Rightarrow> 'i) \<Rightarrow> 'i \<Rightarrow> 'h pool_event list \<Rightarrow> nat" where
  "took_count ix i es = length [e \<leftarrow> es. case e of Took h \<Rightarrow> ix h = i | Gave h \<Rightarrow> False]"

definition gave_count :: "('h \<Rightarrow> 'i) \<Rightarrow> 'i \<Rightarrow> 'h pool_event list \<Rightarrow> nat" where
  "gave_count ix i es = length [e \<leftarrow> es. case e of Took h \<Rightarrow> False | Gave h \<Rightarrow> ix h = i]"

lemma event_count_simps [simp]:
  "took_count ix i [] = 0" "gave_count ix i [] = 0"
  "took_count ix i (Took h # es) = (if ix h = i then 1 else 0) + took_count ix i es"
  "took_count ix i (Gave h # es) = took_count ix i es"
  "gave_count ix i (Gave h # es) = (if ix h = i then 1 else 0) + gave_count ix i es"
  "gave_count ix i (Took h # es) = gave_count ix i es"
  "took_count ix i (es @ es') = took_count ix i es + took_count ix i es'"
  "gave_count ix i (es @ es') = gave_count ix i es + gave_count ix i es'"
  by (simp_all add: took_count_def gave_count_def)

locale frame_pool =
  fixes inv :: "'s \<Rightarrow> bool" and owner :: "'s \<Rightarrow> 'i \<Rightarrow> 'o" and ix :: "'h \<Rightarrow> 'i" and free :: 'o
    and al :: "'o \<Rightarrow> 's \<Rightarrow> 'h option \<times> 's" and mv :: "'h \<Rightarrow> 'o \<Rightarrow> 'o \<Rightarrow> 's \<Rightarrow> bool \<times> 's"
    and rl :: "'h \<Rightarrow> 'o \<Rightarrow> 's \<Rightarrow> bool \<times> 's"
  assumes al_keeps: "inv s \<Longrightarrow> o' \<noteq> free \<Longrightarrow> inv (snd (al o' s))"
    and al_gives: "inv s \<Longrightarrow> al o' s = (Some h, s') \<Longrightarrow> owner s (ix h) = free \<and> owner s' = (owner s)(ix h := o')"
    and al_refuses: "inv s \<Longrightarrow> al o' s = (None, s') \<Longrightarrow> owner s' = owner s"
    and mv_keeps: "inv s \<Longrightarrow> e \<noteq> free \<Longrightarrow> inv (snd (mv h e n s))"
    and mv_done: "inv s \<Longrightarrow> e \<noteq> free \<Longrightarrow> mv h e n s = (True, s') \<Longrightarrow>
      owner s (ix h) = e \<and> owner s' = (owner s)(ix h := n)"
    and mv_refuses: "inv s \<Longrightarrow> e \<noteq> free \<Longrightarrow> mv h e n s = (False, s') \<Longrightarrow> owner s' = owner s"
    and rl_is_mv: "inv s \<Longrightarrow> e \<noteq> free \<Longrightarrow> fst (rl h e s) = fst (mv h e free s) \<and>
      owner (snd (rl h e s)) = owner (snd (mv h e free s)) \<and> inv (snd (rl h e s))"
begin

lemma step_inv: "inv s \<Longrightarrow> pool_op_ok free p \<Longrightarrow> inv (snd (pool_step al mv rl free p s))"
proof (cases p)
  case (Alloc o')
  then show "inv s \<Longrightarrow> pool_op_ok free p \<Longrightarrow> ?thesis" using al_keeps [of s o'] by (simp add: case_prod_beta)
next
  case (Move h e n)
  then show "inv s \<Longrightarrow> pool_op_ok free p \<Longrightarrow> ?thesis" using mv_keeps [of s e h n] by (simp add: case_prod_beta)
next
  case (Rel h e)
  then show "inv s \<Longrightarrow> pool_op_ok free p \<Longrightarrow> ?thesis" using rl_is_mv [of s e h] by (simp add: case_prod_beta)
qed

lemma step_balance:
  assumes "inv s" "pool_op_ok free p" "pool_step al mv rl free p s = (es, s')"
  shows "took_count ix i es + (if owner s i = free then 0 else 1) =
         gave_count ix i es + (if owner s' i = free then 0 else 1)"
proof (cases p)
  case (Alloc o')
  then show ?thesis using assms al_gives [of s o'] al_refuses [of s o']
    by (cases "al o' s"; cases "fst (al o' s)") auto
next
  case (Move h e n)
  then show ?thesis using assms mv_done [of s e h n] mv_refuses [of s e h n]
    by (cases "mv h e n s"; cases "fst (mv h e n s)") auto
next
  case (Rel h e)
  then show ?thesis using assms mv_done [of s e h free] mv_refuses [of s e h free] rl_is_mv [of s e h]
    by (cases "mv h e free s"; cases "rl h e s"; cases "fst (mv h e free s)") auto
qed

lemma run_inv: "inv s \<Longrightarrow> \<forall>p \<in> set ps. pool_op_ok free p \<Longrightarrow> inv (snd (pool_run al mv rl free ps s))"
proof (induction ps arbitrary: s)
  case (Cons p ps)
  then show ?case using step_inv [of s p] by (simp add: case_prod_beta)
qed simp

lemma balance:
  assumes "inv s" "\<forall>p \<in> set ps. pool_op_ok free p" "pool_run al mv rl free ps s = (es, s')"
  shows "took_count ix i es + (if owner s i = free then 0 else 1) =
         gave_count ix i es + (if owner s' i = free then 0 else 1)"
  using assms
proof (induction ps arbitrary: s es)
  case (Cons p ps)
  obtain es1 s1 where 1: "pool_step al mv rl free p s = (es1, s1)" by (cases "pool_step al mv rl free p s")
  obtain es2 s2 where 2: "pool_run al mv rl free ps s1 = (es2, s2)" by (cases "pool_run al mv rl free ps s1")
  have e: "es = es1 @ es2" "s' = s2" using Cons.prems(3) by (simp_all add: 1 2)
  have "inv s1" using step_inv [of s p] Cons.prems(1,2) 1 by simp
  then have "took_count ix i es2 + (if owner s1 i = free then 0 else 1) =
      gave_count ix i es2 + (if owner s' i = free then 0 else 1)"
    using Cons.IH [of s1 es2] Cons.prems(2) 2 e(2) by simp
  then show ?case using step_balance [OF Cons.prems(1) _ 1, of i] Cons.prems(2) by (simp add: e)
qed auto

text \<open>A frame in use that no operation names stays with its owner and is not given out.\<close>

lemma undisturbed:
  assumes "inv s" "\<forall>p \<in> set ps. pool_op_ok free p \<and> \<not> op_names ix i p" "owner s i \<noteq> free"
    "pool_run al mv rl free ps s = (es, s')"
  shows "owner s' i = owner s i \<and> (\<forall>h. Took h \<in> set es \<longrightarrow> ix h \<noteq> i)"
proof -
  have "owner s' i = owner s i \<and> took_count ix i es = 0"
    using assms
  proof (induction ps arbitrary: s es)
    case (Cons p ps)
    obtain es1 s1 where 1: "pool_step al mv rl free p s = (es1, s1)" by (cases "pool_step al mv rl free p s")
    obtain es2 s2 where 2: "pool_run al mv rl free ps s1 = (es2, s2)" by (cases "pool_run al mv rl free ps s1")
    have e: "es = es1 @ es2" "s' = s2" using Cons.prems(4) by (simp_all add: 1 2)
    have p: "pool_op_ok free p" "\<not> op_names ix i p" using Cons.prems(2) by auto
    have "inv s1" using step_inv [of s p] Cons.prems(1) p 1 by simp
    moreover have st: "owner s1 i = owner s i \<and> took_count ix i es1 = 0"
    proof (cases p)
      case (Alloc o')
      then show ?thesis using 1 Cons.prems(1,3) al_gives [of s o'] al_refuses [of s o']
        by (cases "al o' s"; cases "fst (al o' s)") auto
    next
      case (Move h e n)
      then show ?thesis using 1 p Cons.prems(1) mv_done [of s e h n] mv_refuses [of s e h n]
        by (cases "mv h e n s"; cases "fst (mv h e n s)") auto
    next
      case (Rel h e)
      then show ?thesis
        using 1 p Cons.prems(1) mv_done [of s e h free] mv_refuses [of s e h free] rl_is_mv [of s e h]
        by (cases "mv h e free s"; cases "rl h e s"; cases "fst (mv h e free s)") auto
    qed
    ultimately have "owner s2 i = owner s1 i \<and> took_count ix i es2 = 0"
      using Cons.IH [of s1 es2] Cons.prems(2,3) 2 e(2) by simp
    then show ?case using st by (simp add: e)
  qed auto
  then show ?thesis by (auto simp: took_count_def filter_empty_conv split: pool_event.splits)
qed

end

end
