(* ===== verification/Frame_Allocator.thy ===== *)
theory Frame_Allocator
  imports Chronos_Types Frame_Pool
begin

section \<open>The UMEM frame allocator (\<open>include/chronosx/frame_allocator.hpp\<close>)\<close>

text \<open>
  \<open>FrameAllocator<FrameCount, FrameSize>\<close> hands out fixed-size frames of the packet memory. It keeps
  a stack of free frame indices and, for every frame, its current owner. The template parameters
  are the fields \<open>fr_FrameCount\<close> and \<open>fr_FrameSize\<close>; no operation changes them. Addresses keep
  their 64-bit width and indices their 32-bit width; the counts are bounded by the array sizes and
  are natural numbers.
\<close>

definition kDefaultFrameSizeBytes :: nat where "kDefaultFrameSizeBytes = 4096"
definition kDefaultFrameCount :: nat where "kDefaultFrameCount = 4096"
definition kMinXdpFrameSizeBytes :: nat where "kMinXdpFrameSizeBytes = 2048"

datatype FrameOwner =
  Free | FillRing | RxRing | DataPlane | TimingWheelOwned | TxRing | CompletionRing

definition frame_owner_name :: "FrameOwner \<Rightarrow> string" where
  "frame_owner_name owner = (case owner of
      Free \<Rightarrow> ''Free''
    | FillRing \<Rightarrow> ''FillRing''
    | RxRing \<Rightarrow> ''RxRing''
    | DataPlane \<Rightarrow> ''DataPlane''
    | TimingWheelOwned \<Rightarrow> ''TimingWheel''
    | TxRing \<Rightarrow> ''TxRing''
    | CompletionRing \<Rightarrow> ''CompletionRing'')"

datatype FrameStatus =
  FrameOk | PoolEmpty | PoolFull | InvalidFrameIndex | InvalidFrameAddress | InvalidOwner

definition frame_status_name :: "FrameStatus \<Rightarrow> string" where
  "frame_status_name status = (case status of
      FrameOk \<Rightarrow> ''Ok''
    | PoolEmpty \<Rightarrow> ''PoolEmpty''
    | PoolFull \<Rightarrow> ''PoolFull''
    | InvalidFrameIndex \<Rightarrow> ''InvalidFrameIndex''
    | InvalidFrameAddress \<Rightarrow> ''InvalidFrameAddress''
    | InvalidOwner \<Rightarrow> ''InvalidOwner'')"

record FrameHandle =
  fh_address :: u64
  fh_index :: u32
  fh_reserved :: u32

record FrameAllocation =
  fa_frame :: FrameHandle
  fa_status :: FrameStatus

definition FrameHandle_init :: FrameHandle where
  "FrameHandle_init = \<lparr>fh_address = 0, fh_index = 0, fh_reserved = 0\<rparr>"

definition allocation_ok :: "FrameAllocation \<Rightarrow> bool" where
  "allocation_ok r \<longleftrightarrow> fa_status r = FrameOk"

record FrameAllocator =
  fr_FrameCount :: nat
  fr_FrameSize :: nat
  fr_free_stack :: "u32 list"
  fr_owners :: "FrameOwner list"
  fr_free_count :: nat
  fr_allocation_failures :: u64
  fr_release_failures :: u64
  fr_transition_failures :: u64

text \<open>The constructor: the loop stores \<open>FrameCount - index - 1\<close> at every \<open>index\<close> of the stack.\<close>

definition FrameAllocator_init :: "nat \<Rightarrow> nat \<Rightarrow> FrameAllocator" where
  "FrameAllocator_init frame_count frame_size = \<lparr>
     fr_FrameCount = frame_count,
     fr_FrameSize = frame_size,
     fr_free_stack = map (\<lambda>index. of_nat (frame_count - index - 1)) [0..<frame_count],
     fr_owners = replicate frame_count Free,
     fr_free_count = frame_count,
     fr_allocation_failures = 0,
     fr_release_failures = 0,
     fr_transition_failures = 0\<rparr>"

definition make_handle :: "FrameAllocator \<Rightarrow> u32 \<Rightarrow> FrameHandle" where
  "make_handle a index =
     \<lparr>fh_address = ucast index * of_nat (fr_FrameSize a), fh_index = index, fh_reserved = 0\<rparr>"

definition valid_index :: "FrameAllocator \<Rightarrow> u32 \<Rightarrow> bool" where
  "valid_index a index \<longleftrightarrow> unat index < fr_FrameCount a"

definition valid_address_for_index :: "FrameAllocator \<Rightarrow> FrameHandle \<Rightarrow> bool" where
  "valid_address_for_index a frame \<longleftrightarrow>
     fh_address frame = ucast (fh_index frame) * of_nat (fr_FrameSize a)"

definition validate_frame :: "FrameAllocator \<Rightarrow> FrameHandle \<Rightarrow> FrameStatus" where
  "validate_frame a frame =
     (if \<not> valid_index a (fh_index frame) then InvalidFrameIndex
      else if \<not> valid_address_for_index a frame then InvalidFrameAddress
      else FrameOk)"

definition allocate :: "FrameOwner \<Rightarrow> FrameAllocator \<Rightarrow> FrameAllocation \<times> FrameAllocator" where
  "allocate owner a =
     (if fr_free_count a = 0 then
        (\<lparr>fa_frame = FrameHandle_init, fa_status = PoolEmpty\<rparr>,
         a\<lparr>fr_allocation_failures := fr_allocation_failures a + 1\<rparr>)
      else
        let index = fr_free_stack a ! (fr_free_count a - 1) in
        (\<lparr>fa_frame = make_handle a index, fa_status = FrameOk\<rparr>,
         a\<lparr>fr_free_count := fr_free_count a - 1,
           fr_owners := (fr_owners a)[unat index := owner]\<rparr>))"

text \<open>The loop of \<open>allocate_batch\<close>; the list is the output span.\<close>

function allocate_batch_loop :: "FrameOwner \<Rightarrow> nat \<Rightarrow> FrameHandle list \<Rightarrow> FrameAllocator
    \<Rightarrow> nat \<times> FrameHandle list \<times> FrameAllocator" where
  "allocate_batch_loop owner done_count output a =
     (if done_count < length output \<and> fr_free_count a > 0 then
        (case allocate owner a of (allocation, a') \<Rightarrow>
           allocate_batch_loop owner (done_count + 1) (output[done_count := fa_frame allocation]) a')
      else (done_count, output, a))"
  by pat_completeness auto
termination
  by (relation "measure (\<lambda>(owner, done_count, output, a). length output - done_count)") auto

declare allocate_batch_loop.simps [simp del]

definition allocate_batch :: "FrameHandle list \<Rightarrow> FrameOwner \<Rightarrow> FrameAllocator
    \<Rightarrow> nat \<times> FrameHandle list \<times> FrameAllocator" where
  "allocate_batch output owner a =
     (case allocate_batch_loop owner 0 output a of (n, output', a') \<Rightarrow>
        (n, output',
         if n < length output' then a'\<lparr>fr_allocation_failures := fr_allocation_failures a' + 1\<rparr> else a'))"

definition release :: "FrameHandle \<Rightarrow> FrameOwner \<Rightarrow> FrameAllocator \<Rightarrow> FrameStatus \<times> FrameAllocator" where
  "release frame expected_owner a =
     (let status = validate_frame a frame;
          failed = a\<lparr>fr_release_failures := fr_release_failures a + 1\<rparr> in
      if status \<noteq> FrameOk then (status, failed)
      else if fr_owners a ! unat (fh_index frame) \<noteq> expected_owner then (InvalidOwner, failed)
      else if fr_free_count a \<ge> fr_FrameCount a then (PoolFull, failed)
      else (FrameOk,
            a\<lparr>fr_owners := (fr_owners a)[unat (fh_index frame) := Free],
              fr_free_stack := (fr_free_stack a)[fr_free_count a := fh_index frame],
              fr_free_count := fr_free_count a + 1\<rparr>))"

definition transition :: "FrameHandle \<Rightarrow> FrameOwner \<Rightarrow> FrameOwner \<Rightarrow> FrameAllocator
    \<Rightarrow> FrameStatus \<times> FrameAllocator" where
  "transition frame expected_owner next_owner a =
     (let status = validate_frame a frame;
          failed = a\<lparr>fr_transition_failures := fr_transition_failures a + 1\<rparr> in
      if status \<noteq> FrameOk then (status, failed)
      else if fr_owners a ! unat (fh_index frame) \<noteq> expected_owner then (InvalidOwner, failed)
      else if next_owner = Free then release frame expected_owner a
      else (FrameOk, a\<lparr>fr_owners := (fr_owners a)[unat (fh_index frame) := next_owner]\<rparr>))"

text \<open>The first loop of \<open>release_batch\<close>: the status of the first frame that may not be released.\<close>

fun batch_refusal :: "FrameHandle list \<Rightarrow> FrameOwner \<Rightarrow> FrameAllocator \<Rightarrow> FrameStatus option" where
  "batch_refusal [] expected_owner a = None"
| "batch_refusal (frame # frames) expected_owner a =
     (let status = validate_frame a frame in
      if status \<noteq> FrameOk \<or> fr_owners a ! unat (fh_index frame) \<noteq> expected_owner
      then Some (if status = FrameOk then InvalidOwner else status)
      else batch_refusal frames expected_owner a)"

text \<open>The second loop of \<open>release_batch\<close>.\<close>

fun push_free :: "FrameHandle list \<Rightarrow> FrameAllocator \<Rightarrow> FrameAllocator" where
  "push_free [] a = a"
| "push_free (frame # frames) a =
     push_free frames
       (a\<lparr>fr_owners := (fr_owners a)[unat (fh_index frame) := Free],
          fr_free_stack := (fr_free_stack a)[fr_free_count a := fh_index frame],
          fr_free_count := fr_free_count a + 1\<rparr>)"

definition release_batch :: "FrameHandle list \<Rightarrow> FrameOwner \<Rightarrow> FrameAllocator
    \<Rightarrow> FrameStatus \<times> FrameAllocator" where
  "release_batch frames expected_owner a =
     (let failed = a\<lparr>fr_release_failures := fr_release_failures a + 1\<rparr> in
      case batch_refusal frames expected_owner a of
        Some status \<Rightarrow> (status, failed)
      | None \<Rightarrow>
          if fr_free_count a + length frames > fr_FrameCount a then (PoolFull, failed)
          else (FrameOk, push_free frames a))"

definition umem_size_bytes :: "FrameAllocator \<Rightarrow> u64" where
  "umem_size_bytes a = of_nat (fr_FrameCount a) * of_nat (fr_FrameSize a)"

definition handle_from_address :: "FrameAllocator \<Rightarrow> u64 \<Rightarrow> FrameAllocation" where
  "handle_from_address a address =
     (if address mod of_nat (fr_FrameSize a) \<noteq> 0 \<or> address \<ge> umem_size_bytes a then
        \<lparr>fa_frame = FrameHandle_init\<lparr>fh_address := address\<rparr>, fa_status = InvalidFrameAddress\<rparr>
      else
        \<lparr>fa_frame = make_handle a (ucast (address div of_nat (fr_FrameSize a))), fa_status = FrameOk\<rparr>)"

definition owner_of :: "FrameAllocator \<Rightarrow> u32 \<Rightarrow> FrameOwner" where
  "owner_of a index = (if unat index < fr_FrameCount a then fr_owners a ! unat index else Free)"

definition available :: "FrameAllocator \<Rightarrow> nat" where
  "available a = fr_free_count a"

definition in_use :: "FrameAllocator \<Rightarrow> nat" where
  "in_use a = fr_FrameCount a - fr_free_count a"

definition pool_empty :: "FrameAllocator \<Rightarrow> bool" where
  "pool_empty a \<longleftrightarrow> fr_free_count a = 0"

definition pool_full :: "FrameAllocator \<Rightarrow> bool" where
  "pool_full a \<longleftrightarrow> fr_free_count a = fr_FrameCount a"

subsection \<open>Invariant\<close>

text \<open>
  The template constraints, plus what any instantiation satisfies because the packet memory exists:
  indices fit into 32 bits and the memory is smaller than the 64-bit address space.
\<close>

definition params_ok :: "FrameAllocator \<Rightarrow> bool" where
  "params_ok a \<longleftrightarrow> 0 < fr_FrameCount a \<and> is_pow2 (fr_FrameSize a) \<and> kMinXdpFrameSizeBytes \<le> fr_FrameSize a \<and>
     fr_FrameCount a \<le> 2 ^ 32 \<and> fr_FrameCount a * fr_FrameSize a < 2 ^ 64"

definition free_list :: "FrameAllocator \<Rightarrow> u32 list" where
  "free_list a = take (fr_free_count a) (fr_free_stack a)"

definition pool_inv :: "FrameAllocator \<Rightarrow> bool" where
  "pool_inv a \<longleftrightarrow> params_ok a \<and> length (fr_free_stack a) = fr_FrameCount a \<and>
     length (fr_owners a) = fr_FrameCount a \<and> fr_free_count a \<le> fr_FrameCount a \<and>
     distinct (free_list a) \<and> (\<forall>i \<in> set (free_list a). unat i < fr_FrameCount a) \<and>
     (\<forall>i. unat i < fr_FrameCount a \<longrightarrow> (fr_owners a ! unat i = Free \<longleftrightarrow> i \<in> set (free_list a)))"

lemma pool_invD:
  assumes "pool_inv a"
  shows "params_ok a" "length (fr_free_stack a) = fr_FrameCount a" "length (fr_owners a) = fr_FrameCount a"
    "fr_free_count a \<le> fr_FrameCount a" "distinct (free_list a)"
    "\<And>i. i \<in> set (free_list a) \<Longrightarrow> unat i < fr_FrameCount a"
    "\<And>i. unat i < fr_FrameCount a \<Longrightarrow> fr_owners a ! unat i = Free \<longleftrightarrow> i \<in> set (free_list a)"
  using assms by (auto simp: pool_inv_def)

lemma length_free_list: "pool_inv a \<Longrightarrow> length (free_list a) = fr_free_count a"
  using pool_invD(2,4) [of a] by (simp add: free_list_def)

text \<open>A pool operation that changes one owner entry and the free list accordingly keeps the invariant.\<close>

lemma pool_inv_update:
  assumes inv: "pool_inv a" and k: "unat k < fr_FrameCount a"
    and param: "fr_FrameCount a' = fr_FrameCount a" "fr_FrameSize a' = fr_FrameSize a"
    and owners: "fr_owners a' = (fr_owners a)[unat k := owner]"
    and stack: "length (fr_free_stack a') = fr_FrameCount a" "fr_free_count a' \<le> fr_FrameCount a"
    and dist: "distinct (free_list a')"
    and free: "set (free_list a') = (if owner = Free then insert k (set (free_list a)) else set (free_list a) - {k})"
  shows "pool_inv a'"
proof -
  note [simp] = param owners stack dist
  have "fr_owners a' ! unat i = Free \<longleftrightarrow> i \<in> set (free_list a')" if "unat i < fr_FrameCount a" for i
    using that k pool_invD(3,7) [OF inv] free by (cases "i = k") (auto simp: nth_list_update word_unat_eq_iff)
  moreover have "unat i < fr_FrameCount a" if "i \<in> set (free_list a')" for i
    using that k pool_invD(6) [OF inv, of i] free by (auto split: if_splits)
  ultimately show ?thesis using pool_invD(1,3) [OF inv] by (simp add: pool_inv_def params_ok_def)
qed

lemma pool_inv_counters [simp]:
  "pool_inv (a\<lparr>fr_allocation_failures := k\<rparr>) \<longleftrightarrow> pool_inv a"
  "pool_inv (a\<lparr>fr_release_failures := k\<rparr>) \<longleftrightarrow> pool_inv a"
  "pool_inv (a\<lparr>fr_transition_failures := k\<rparr>) \<longleftrightarrow> pool_inv a"
  by (simp_all add: pool_inv_def params_ok_def free_list_def)

lemma owner_of_counters [simp]:
  "owner_of (a\<lparr>fr_allocation_failures := k\<rparr>) = owner_of a"
  "owner_of (a\<lparr>fr_release_failures := k\<rparr>) = owner_of a"
  "owner_of (a\<lparr>fr_transition_failures := k\<rparr>) = owner_of a"
  by (auto simp: owner_of_def)

lemma validate_frame_iff:
  "validate_frame a h = FrameOk \<longleftrightarrow> valid_index a (fh_index h) \<and> valid_address_for_index a h"
  by (simp add: validate_frame_def)

lemma FrameAllocator_init_simps [simp]:
  "fr_FrameCount (FrameAllocator_init n sz) = n" "fr_FrameSize (FrameAllocator_init n sz) = sz"
  "fr_owners (FrameAllocator_init n sz) = replicate n Free" "fr_free_count (FrameAllocator_init n sz) = n"
  "length (fr_free_stack (FrameAllocator_init n sz)) = n"
  by (simp_all add: FrameAllocator_init_def)

lemma pool_inv_init:
  assumes "0 < n" "is_pow2 sz" "kMinXdpFrameSizeBytes \<le> sz" "n \<le> 2 ^ 32" "n * sz < 2 ^ 64"
  shows "pool_inv (FrameAllocator_init n sz)"
proof -
  let ?a = "FrameAllocator_init n sz"
  have fl: "free_list ?a = map (\<lambda>i. of_nat (n - i - 1)) [0..<n]" by (simp add: FrameAllocator_init_def free_list_def)
  have u: "unat (of_nat m :: u32) = m" if "m < n" for m using that assms(4) by (simp add: unat_of_nat)
  have "distinct (free_list ?a)"
    unfolding fl distinct_map
  proof (intro conjI inj_onI)
    fix x y assume x: "x \<in> set [0..<n]" and y: "y \<in> set [0..<n]"
      and e: "(of_nat (n - x - 1) :: u32) = of_nat (n - y - 1)"
    then have "n - x - 1 = n - y - 1" using u [of "n - x - 1"] u [of "n - y - 1"] by auto
    then show "x = y" using x y by auto
  qed simp
  then have dist: "distinct (free_list ?a)" .
  have st: "set (free_list ?a) = of_nat ` {..<n}"
  proof -
    have "x \<in> (\<lambda>i. n - i - 1) ` {0..<n}" if "x < n" for x
      using that by (intro image_eqI [of _ _ "n - Suc x"]) auto
    then have "(\<lambda>i. n - i - 1) ` {0..<n} = {..<n}" by auto
    moreover have "set (free_list ?a) = of_nat ` ((\<lambda>i. n - i - 1) ` {0..<n})"
      unfolding fl by (simp only: set_map set_upt image_image)
    ultimately show ?thesis by (simp only:)
  qed
  have mem: "i \<in> set (free_list ?a) \<longleftrightarrow> unat i < n" for i
  proof
    show "unat i < n" if "i \<in> set (free_list ?a)" using that u by (auto simp: st)
    show "i \<in> set (free_list ?a)" if "unat i < n" using that by (auto simp: st intro!: image_eqI [of _ _ "unat i"])
  qed
  show ?thesis using assms dist by (simp add: pool_inv_def params_ok_def mem)
qed

subsection \<open>\<open>allocate\<close>\<close>

lemma allocate_empty:
  "fr_free_count a = 0 \<Longrightarrow> allocate owner a = (\<lparr>fa_frame = FrameHandle_init, fa_status = PoolEmpty\<rparr>,
     a\<lparr>fr_allocation_failures := fr_allocation_failures a + 1\<rparr>)"
  by (simp add: allocate_def)

lemma allocate_some:
  assumes inv: "pool_inv a" and ne: "fr_free_count a \<noteq> 0"
  obtains k where
    "allocate owner a = (\<lparr>fa_frame = make_handle a k, fa_status = FrameOk\<rparr>,
       a\<lparr>fr_free_count := fr_free_count a - 1, fr_owners := (fr_owners a)[unat k := owner]\<rparr>)"
    "unat k < fr_FrameCount a" "owner_of a k = Free"
    "free_list a = free_list (snd (allocate owner a)) @ [k]"
proof -
  let ?k = "fr_free_stack a ! (fr_free_count a - 1)"
  have al: "allocate owner a = (\<lparr>fa_frame = make_handle a ?k, fa_status = FrameOk\<rparr>,
       a\<lparr>fr_free_count := fr_free_count a - 1, fr_owners := (fr_owners a)[unat ?k := owner]\<rparr>)"
    using ne by (simp add: allocate_def Let_def)
  have fl: "free_list a = free_list (snd (allocate owner a)) @ [?k]"
    using ne pool_invD(2,4) [OF inv] take_Suc_conv_app_nth [of "fr_free_count a - 1" "fr_free_stack a"]
    by (simp add: al free_list_def)
  then have k: "?k \<in> set (free_list a)" by simp
  show ?thesis
    using that [OF al _ _ fl] pool_invD(6) [OF inv k] pool_invD(7) [OF inv] k by (simp add: owner_of_def)
qed

lemma allocate_inv: assumes "pool_inv a" "owner \<noteq> Free" shows "pool_inv (snd (allocate owner a))"
proof (cases "fr_free_count a = 0")
  case True
  then show ?thesis using assms by (simp add: allocate_empty)
next
  case False
  obtain k where al: "allocate owner a = (\<lparr>fa_frame = make_handle a k, fa_status = FrameOk\<rparr>,
       a\<lparr>fr_free_count := fr_free_count a - 1, fr_owners := (fr_owners a)[unat k := owner]\<rparr>)"
    and k: "unat k < fr_FrameCount a" and fl: "free_list a = free_list (snd (allocate owner a)) @ [k]"
    using allocate_some [OF assms(1) False] .
  have "distinct (free_list (snd (allocate owner a)) @ [k])" using pool_invD(5) [OF assms(1)] fl by simp
  then have "distinct (free_list (snd (allocate owner a)))" "k \<notin> set (free_list (snd (allocate owner a)))"
    by auto
  then show ?thesis
    using pool_invD(2,4) [OF assms(1)] assms(2) fl
    by (intro pool_inv_update [OF assms(1) k, of _ owner]) (auto simp: al)
qed

subsection \<open>\<open>release\<close> and \<open>transition\<close>\<close>

lemma release_failed:
  "fst (release h e a) \<noteq> FrameOk \<Longrightarrow>
     snd (release h e a) = a\<lparr>fr_release_failures := fr_release_failures a + 1\<rparr>"
  by (auto simp: release_def Let_def split: if_splits)

lemma not_all_free:
  fixes k :: u32
  assumes inv: "pool_inv a" and k: "unat k < fr_FrameCount a" and "fr_owners a ! unat k \<noteq> Free"
  shows "fr_free_count a < fr_FrameCount a"
proof -
  have "k \<notin> set (free_list a)" using pool_invD(7) [OF inv k] assms(3) by simp
  then have "unat ` set (free_list a) \<subseteq> {..<fr_FrameCount a} - {unat k}"
    using pool_invD(6) [OF inv] by (auto dest: unsigned_word_eqI)
  then have "card (unat ` set (free_list a)) \<le> card ({..<fr_FrameCount a} - {unat k})"
    by (intro card_mono) auto
  moreover have "card (unat ` set (free_list a)) = fr_free_count a"
    using pool_invD(5) [OF inv] length_free_list [OF inv]
    by (subst card_image) (auto simp: inj_on_def word_unat_eq_iff distinct_card)
  ultimately show ?thesis using k by simp
qed

lemma release_status:
  assumes "pool_inv a" "e \<noteq> Free"
  shows "fst (release h e a) = FrameOk \<longleftrightarrow> validate_frame a h = FrameOk \<and> owner_of a (fh_index h) = e"
  using assms not_all_free [OF assms(1), of "fh_index h"]
  by (auto simp: release_def Let_def validate_frame_iff valid_index_def owner_of_def)

lemma release_ok:
  assumes inv: "pool_inv a" and e: "e \<noteq> Free" and ok: "fst (release h e a) = FrameOk"
  shows "pool_inv (snd (release h e a))"
    and "owner_of (snd (release h e a)) = (owner_of a)(fh_index h := Free)"
    and "free_list (snd (release h e a)) = free_list a @ [fh_index h]"
proof -
  let ?k = "fh_index h"
  have k: "unat ?k < fr_FrameCount a" and o: "owner_of a ?k = e"
    using release_status [OF inv e] ok by (auto simp: validate_frame_iff valid_index_def)
  have room: "fr_free_count a < fr_FrameCount a"
    using not_all_free [OF inv k] o e k by (simp add: owner_of_def)
  have r: "snd (release h e a) = a\<lparr>fr_owners := (fr_owners a)[unat ?k := Free],
      fr_free_stack := (fr_free_stack a)[fr_free_count a := ?k], fr_free_count := fr_free_count a + 1\<rparr>"
    using ok by (auto simp: release_def Let_def split: if_splits)
  show fl: "free_list (snd (release h e a)) = free_list a @ [?k]"
    using room pool_invD(2) [OF inv] by (simp add: r free_list_def take_Suc_conv_app_nth)
  have "?k \<notin> set (free_list a)" using pool_invD(7) [OF inv k] o e k by (simp add: owner_of_def)
  then show "pool_inv (snd (release h e a))"
    using room pool_invD(2,5) [OF inv]
    by (intro pool_inv_update [OF inv k, of _ Free]) (auto simp: fl, auto simp: r)
  show "owner_of (snd (release h e a)) = (owner_of a)(?k := Free)"
    using pool_invD(3) [OF inv] k by (auto simp: r owner_of_def fun_eq_iff nth_list_update word_unat_eq_iff)
qed

lemma release_inv: "pool_inv a \<Longrightarrow> e \<noteq> Free \<Longrightarrow> pool_inv (snd (release h e a))"
  using release_ok(1) [of a e h] release_failed [of h e a] by (cases "fst (release h e a) = FrameOk") simp_all

lemma transition_status:
  assumes "pool_inv a" "e \<noteq> Free"
  shows "fst (transition h e n a) = FrameOk \<longleftrightarrow> validate_frame a h = FrameOk \<and> owner_of a (fh_index h) = e"
  using release_status [OF assms, of h]
  by (auto simp: transition_def Let_def validate_frame_iff valid_index_def owner_of_def)

lemma transition_ok:
  assumes inv: "pool_inv a" and e: "e \<noteq> Free" and ok: "fst (transition h e n a) = FrameOk"
  shows "pool_inv (snd (transition h e n a))"
    and "owner_of (snd (transition h e n a)) = (owner_of a)(fh_index h := n)"
proof -
  let ?k = "fh_index h"
  have v: "validate_frame a h = FrameOk" and k: "unat ?k < fr_FrameCount a" and o: "owner_of a ?k = e"
    using transition_status [OF inv e] ok by (auto simp: validate_frame_iff valid_index_def)
  have own: "fr_owners a ! unat ?k = e" using o k by (simp add: owner_of_def)
  show "pool_inv (snd (transition h e n a))" "owner_of (snd (transition h e n a)) = (owner_of a)(?k := n)"
  proof (atomize (full), cases "n = Free")
    case True
    then have "transition h e n a = release h e a" using v own by (simp add: transition_def Let_def)
    then show "pool_inv (snd (transition h e n a)) \<and> owner_of (snd (transition h e n a)) = (owner_of a)(?k := n)"
      using release_ok(1,2) [OF inv e, of h] ok True by simp
  next
    case False
    then have t: "snd (transition h e n a) = a\<lparr>fr_owners := (fr_owners a)[unat ?k := n]\<rparr>"
      using v own by (simp add: transition_def Let_def)
    have "?k \<notin> set (free_list a)" using pool_invD(7) [OF inv k] own e by simp
    then have "pool_inv (snd (transition h e n a))"
      using pool_invD(2,4,5) [OF inv] False
      by (intro pool_inv_update [OF inv k, of _ n]) (auto simp: t free_list_def)
    moreover have "owner_of (snd (transition h e n a)) = (owner_of a)(?k := n)"
      using pool_invD(3) [OF inv] k by (auto simp: t owner_of_def fun_eq_iff nth_list_update word_unat_eq_iff)
    ultimately show "pool_inv (snd (transition h e n a)) \<and> owner_of (snd (transition h e n a)) = (owner_of a)(?k := n)" ..
  qed
qed

lemma transition_failed:
  assumes "pool_inv a" "e \<noteq> Free" "fst (transition h e n a) \<noteq> FrameOk"
  shows "snd (transition h e n a) = a\<lparr>fr_transition_failures := fr_transition_failures a + 1\<rparr>"
  using assms transition_status [OF assms(1,2), of h n]
  by (auto simp: transition_def Let_def validate_frame_iff valid_index_def owner_of_def)

lemma transition_inv: "pool_inv a \<Longrightarrow> e \<noteq> Free \<Longrightarrow> pool_inv (snd (transition h e n a))"
  using transition_ok(1) [of a e h n] transition_failed [of a e h n]
  by (cases "fst (transition h e n a) = FrameOk") simp_all

subsection \<open>Addresses\<close>

lemma unat_ucast_index: "unat (ucast (k :: u32) :: u64) = unat k"
  by transfer (simp add: take_bit_take_bit)

lemma params_ok_bound:
  assumes "params_ok a" "n \<le> fr_FrameCount a"
  shows "n * fr_FrameSize a < 2 ^ 64" "0 < fr_FrameSize a" "fr_FrameSize a < 2 ^ 64"
proof -
  show "n * fr_FrameSize a < 2 ^ 64"
    using assms mult_le_mono1 [OF assms(2), of "fr_FrameSize a"] by (auto simp only: params_ok_def)
  show "0 < fr_FrameSize a" using assms by (auto simp: params_ok_def kMinXdpFrameSizeBytes_def)
  show "fr_FrameSize a < 2 ^ 64" using assms by (auto simp only: params_ok_def intro: is_pow2_lt)
qed

lemma unat_frame_size: "params_ok a \<Longrightarrow> unat (of_nat (fr_FrameSize a) :: u64) = fr_FrameSize a"
  using params_ok_bound(3) [of a 0] by (simp add: unat_of_nat)

lemma unat_umem_size: "params_ok a \<Longrightarrow> unat (umem_size_bytes a) = fr_FrameCount a * fr_FrameSize a"
  using params_ok_bound(1) [of a "fr_FrameCount a"] unfolding umem_size_bytes_def of_nat_mult [symmetric]
  by (simp only: unat_of_nat) simp

lemma unat_make_handle:
  assumes "params_ok a" "unat k < fr_FrameCount a"
  shows "unat (fh_address (make_handle a k)) = unat k * fr_FrameSize a"
  using params_ok_bound(1) [OF assms(1), of "unat k"] assms(2) unat_frame_size [OF assms(1)]
  by (simp add: make_handle_def unat_word_ariths unat_ucast_index)

lemma make_handle_index [simp]: "fh_index (make_handle a k) = k"
  by (simp add: make_handle_def)

lemma validate_make_handle [simp]: "validate_frame a (make_handle a k) = FrameOk \<longleftrightarrow> unat k < fr_FrameCount a"
  by (simp add: validate_frame_iff valid_index_def valid_address_for_index_def make_handle_def)

lemma handle_from_address_ok_iff:
  assumes "params_ok a"
  shows "fa_status (handle_from_address a w) = FrameOk \<longleftrightarrow>
    fr_FrameSize a dvd unat w \<and> unat w < fr_FrameCount a * fr_FrameSize a"
proof -
  have "w mod of_nat (fr_FrameSize a) = 0 \<longleftrightarrow> fr_FrameSize a dvd unat w"
    by (simp only: word_unat_eq_iff unat_mod_distrib unat_frame_size [OF assms] unat_0 dvd_eq_mod_eq_0)
  moreover have "umem_size_bytes a \<le> w \<longleftrightarrow> \<not> unat w < fr_FrameCount a * fr_FrameSize a"
    by (simp only: word_le_nat_alt unat_umem_size [OF assms] not_less)
  ultimately show ?thesis by (simp add: handle_from_address_def)
qed

lemma handle_from_address_make:
  assumes "params_ok a" "unat k < fr_FrameCount a"
  shows "handle_from_address a (fh_address (make_handle a k)) = \<lparr>fa_frame = make_handle a k, fa_status = FrameOk\<rparr>"
proof -
  let ?w = "fh_address (make_handle a k)"
  note u = unat_make_handle [OF assms] and s = params_ok_bound(2) [OF assms(1), of 0]
  have ok: "fa_status (handle_from_address a ?w) = FrameOk"
    using s assms(2) by (simp add: handle_from_address_ok_iff [OF assms(1)] u)
  have "unat (?w div of_nat (fr_FrameSize a)) = unat k"
    using s by (simp add: unat_div_distrib u unat_frame_size [OF assms(1)])
  then have "ucast (?w div of_nat (fr_FrameSize a)) = k"
    by (simp only: ucast_of_nat_unat) simp
  then show ?thesis using ok by (auto simp: handle_from_address_def split: if_splits)
qed

lemma handle_from_address_ok:
  assumes "params_ok a" "fa_status (handle_from_address a w) = FrameOk"
  obtains k where "unat k < fr_FrameCount a" "w = fh_address (make_handle a k)"
    "handle_from_address a w = \<lparr>fa_frame = make_handle a k, fa_status = FrameOk\<rparr>"
proof -
  let ?q = "unat w div fr_FrameSize a"
  have d: "fr_FrameSize a dvd unat w" and l: "unat w < fr_FrameCount a * fr_FrameSize a"
    using assms by (simp_all add: handle_from_address_ok_iff)
  have q: "?q < fr_FrameCount a" using l by (simp add: less_mult_imp_div_less)
  then have k: "unat (of_nat ?q :: u32) = ?q" using assms(1) by (simp add: unat_of_nat params_ok_def)
  have w: "w = fh_address (make_handle a (of_nat ?q))"
    using unat_make_handle [OF assms(1), of "of_nat ?q"] q k d by (simp add: word_unat_eq_iff)
  show ?thesis
    using that [of "of_nat ?q"] q k w handle_from_address_make [OF assms(1), of "of_nat ?q"] by simp
qed

subsection \<open>Batches\<close>

lemma make_handle_cong: "fr_FrameSize a' = fr_FrameSize a \<Longrightarrow> make_handle a' = make_handle a"
  by (simp add: make_handle_def fun_eq_iff)

lemma allocate_takes:
  assumes inv: "pool_inv a" and o: "owner \<noteq> Free" and ne: "fr_free_count a \<noteq> 0"
  obtains k a' where "allocate owner a = (\<lparr>fa_frame = make_handle a k, fa_status = FrameOk\<rparr>, a')"
    "unat k < fr_FrameCount a" "owner_of a k = Free" "owner_of a' = (owner_of a)(k := owner)" "pool_inv a'"
    "free_list a = free_list a' @ [k]" "fr_free_count a' = fr_free_count a - 1"
    "fr_FrameCount a' = fr_FrameCount a" "fr_FrameSize a' = fr_FrameSize a"
    "fr_allocation_failures a' = fr_allocation_failures a"
proof -
  obtain k where al: "allocate owner a = (\<lparr>fa_frame = make_handle a k, fa_status = FrameOk\<rparr>,
       a\<lparr>fr_free_count := fr_free_count a - 1, fr_owners := (fr_owners a)[unat k := owner]\<rparr>)"
    and k: "unat k < fr_FrameCount a" "owner_of a k = Free"
    and fl: "free_list a = free_list (snd (allocate owner a)) @ [k]"
    using allocate_some [OF inv ne] .
  have "owner_of (a\<lparr>fr_free_count := fr_free_count a - 1, fr_owners := (fr_owners a)[unat k := owner]\<rparr>) =
      (owner_of a)(k := owner)"
    using pool_invD(3) [OF inv] k(1) by (auto simp: owner_of_def fun_eq_iff nth_list_update word_unat_eq_iff)
  then show ?thesis using that [OF al k] fl allocate_inv [OF inv o] by (simp add: al)
qed

lemma allocate_batch_loop_spec:
  assumes "pool_inv a" "owner \<noteq> Free" "d \<le> length out"
  shows "\<exists>ks a'. allocate_batch_loop owner d out a =
      (d + length ks, take d out @ map (make_handle a) ks @ drop (d + length ks) out, a') \<and>
    length ks = min (length out - d) (fr_free_count a) \<and> free_list a = free_list a' @ rev ks \<and>
    pool_inv a' \<and> owner_of a' = (\<lambda>i. if i \<in> set ks then owner else owner_of a i) \<and>
    fr_allocation_failures a' = fr_allocation_failures a"
  using assms
proof (induction owner d out a rule: allocate_batch_loop.induct)
  case (1 owner d out a)
  show ?case
  proof (cases "d < length out \<and> fr_free_count a > 0")
    case False
    then show ?thesis using "1.prems" by (intro exI [of _ "[]"] exI [of _ a]) (auto simp: allocate_batch_loop.simps)
  next
    case True
    obtain k b where al: "allocate owner a = (\<lparr>fa_frame = make_handle a k, fa_status = FrameOk\<rparr>, b)"
      and k: "unat k < fr_FrameCount a" "owner_of b = (owner_of a)(k := owner)" "pool_inv b"
        "free_list a = free_list b @ [k]" "fr_free_count b = fr_free_count a - 1"
        "fr_FrameSize b = fr_FrameSize a" "fr_allocation_failures b = fr_allocation_failures a"
      using allocate_takes [OF "1.prems"(1,2)] True by (metis neq0_conv)
    let ?out = "out[d := make_handle a k]"
    obtain ks a' where IH: "allocate_batch_loop owner (d + 1) ?out b =
        (d + 1 + length ks, take (d + 1) ?out @ map (make_handle b) ks @ drop (d + 1 + length ks) ?out, a')"
      "length ks = min (length out - (d + 1)) (fr_free_count b)" "free_list b = free_list a' @ rev ks"
      "pool_inv a'" "owner_of a' = (\<lambda>i. if i \<in> set ks then owner else owner_of b i)"
      "fr_allocation_failures a' = fr_allocation_failures b"
      using "1.IH" [OF True al [symmetric]] k(3) "1.prems"(2) True by auto
    have t: "take (d + 1) ?out = take d out @ [make_handle a k]"
      using True by (simp add: take_Suc_conv_app_nth)
    have "allocate_batch_loop owner d out a = allocate_batch_loop owner (d + 1) ?out b"
      using True by (subst allocate_batch_loop.simps) (simp add: al)
    then show ?thesis
      using True k IH t make_handle_cong [OF k(6)]
      by (intro exI [of _ "k # ks"] exI [of _ a']) (auto simp: fun_eq_iff)
  qed
qed

lemma release_eq_push:
  assumes "pool_inv a" "e \<noteq> Free" "validate_frame a f = FrameOk" "owner_of a (fh_index f) = e"
  shows "push_free (f # fs) a = push_free fs (snd (release f e a))"
  using assms not_all_free [OF assms(1), of "fh_index f"]
  by (auto simp: release_def Let_def validate_frame_iff valid_index_def owner_of_def)

lemma validate_release: "validate_frame (snd (release f e a)) = validate_frame a"
  by (auto simp: release_def Let_def validate_frame_def valid_index_def valid_address_for_index_def fun_eq_iff)

lemma push_free_spec:
  assumes "pool_inv a" "e \<noteq> Free" "distinct (map fh_index fs)"
    "\<forall>f \<in> set fs. validate_frame a f = FrameOk \<and> owner_of a (fh_index f) = e"
  shows "pool_inv (push_free fs a) \<and> free_list (push_free fs a) = free_list a @ map fh_index fs \<and>
    owner_of (push_free fs a) = (\<lambda>i. if i \<in> fh_index ` set fs then Free else owner_of a i)"
  using assms
proof (induction fs arbitrary: a)
  case (Cons f fs)
  let ?a = "snd (release f e a)"
  have f: "validate_frame a f = FrameOk" "owner_of a (fh_index f) = e" using Cons.prems(4) by auto
  note ok = release_ok [OF Cons.prems(1,2), of f]
  have st: "fst (release f e a) = FrameOk" using f by (simp add: release_status [OF Cons.prems(1,2)])
  have "\<forall>g \<in> set fs. validate_frame ?a g = FrameOk \<and> owner_of ?a (fh_index g) = e"
  proof
    fix g assume g: "g \<in> set fs"
    then have "fh_index g \<noteq> fh_index f" using Cons.prems(3) by (metis distinct.simps(2) image_eqI image_set list.map(2))
    then show "validate_frame ?a g = FrameOk \<and> owner_of ?a (fh_index g) = e"
      using g Cons.prems(4) by (simp add: ok(2) [OF st] validate_release)
  qed
  then have IH: "pool_inv (push_free fs ?a)" "free_list (push_free fs ?a) = free_list ?a @ map fh_index fs"
    "owner_of (push_free fs ?a) = (\<lambda>i. if i \<in> fh_index ` set fs then Free else owner_of ?a i)"
    using Cons.IH [OF ok(1) [OF st] Cons.prems(2)] Cons.prems(3) by simp_all
  show ?case
    unfolding release_eq_push [OF Cons.prems(1,2) f]
    using IH by (auto simp: ok(2,3) [OF st])
qed auto

lemma batch_refusal_None:
  assumes "pool_inv a"
  shows "batch_refusal fs e a = None \<longleftrightarrow> (\<forall>f \<in> set fs. validate_frame a f = FrameOk \<and> owner_of a (fh_index f) = e)"
  by (induction fs) (auto simp: Let_def validate_frame_iff valid_index_def owner_of_def)

lemma batch_refusal_Some: "batch_refusal fs e a = Some st \<Longrightarrow> st \<noteq> FrameOk"
  by (induction fs) (auto simp: Let_def split: if_splits)

lemma in_use_room:
  fixes ks :: "u32 list"
  assumes inv: "pool_inv a" and "distinct ks" "\<forall>k \<in> set ks. unat k < fr_FrameCount a \<and> owner_of a k \<noteq> Free"
  shows "fr_free_count a + length ks \<le> fr_FrameCount a"
proof -
  have "distinct (free_list a @ ks)"
    using assms pool_invD(5,7) [OF inv] by (auto simp: owner_of_def)
  then have d: "distinct (map unat (free_list a @ ks))"
    unfolding distinct_map by (intro conjI inj_onI) (assumption, rule unsigned_word_eqI)
  have "set (map unat (free_list a @ ks)) \<subseteq> {..<fr_FrameCount a}" using assms pool_invD(6) [OF inv] by auto
  then have "card (set (map unat (free_list a @ ks))) \<le> fr_FrameCount a" using card_mono [OF finite_lessThan] by fastforce
  then show ?thesis using distinct_card [OF d] length_free_list [OF inv] by simp
qed

subsection \<open>The allocator is a frame pool\<close>

text \<open>The three operations as the pool contract sees them: whether they succeeded, and the frame given.\<close>

definition pool_allocate :: "FrameOwner \<Rightarrow> FrameAllocator \<Rightarrow> FrameHandle option \<times> FrameAllocator" where
  "pool_allocate owner a =
     (case allocate owner a of (r, a') \<Rightarrow> (if allocation_ok r then Some (fa_frame r) else None, a'))"

definition pool_transition :: "FrameHandle \<Rightarrow> FrameOwner \<Rightarrow> FrameOwner \<Rightarrow> FrameAllocator \<Rightarrow> bool \<times> FrameAllocator" where
  "pool_transition h e n a = (case transition h e n a of (st, a') \<Rightarrow> (st = FrameOk, a'))"

definition pool_release :: "FrameHandle \<Rightarrow> FrameOwner \<Rightarrow> FrameAllocator \<Rightarrow> bool \<times> FrameAllocator" where
  "pool_release h e a = (case release h e a of (st, a') \<Rightarrow> (st = FrameOk, a'))"

lemma release_owner:
  assumes "pool_inv a" "e \<noteq> Free"
  shows "owner_of (snd (release h e a)) =
    (if fst (release h e a) = FrameOk then (owner_of a)(fh_index h := Free) else owner_of a)"
  using release_ok(2) [OF assms] release_failed [of h e a] by simp

lemma transition_owner:
  assumes "pool_inv a" "e \<noteq> Free"
  shows "owner_of (snd (transition h e n a)) =
    (if fst (transition h e n a) = FrameOk then (owner_of a)(fh_index h := n) else owner_of a)"
  using transition_ok(2) [OF assms] transition_failed [OF assms] by simp

interpretation fp: frame_pool pool_inv owner_of fh_index Free pool_allocate pool_transition pool_release
proof unfold_locales
  fix a :: FrameAllocator and o' e n h s'
  assume inv: "pool_inv a"
  show "pool_inv (snd (pool_allocate o' a))" if "o' \<noteq> Free"
    using allocate_inv [OF inv that] by (simp add: pool_allocate_def case_prod_beta)
  show "owner_of a (fh_index h) = Free \<and> owner_of s' = (owner_of a)(fh_index h := o')"
    if al: "pool_allocate o' a = (Some h, s')"
  proof -
    have ne: "fr_free_count a \<noteq> 0"
      using al by (cases "fr_free_count a = 0") (simp_all add: pool_allocate_def allocate_empty allocation_ok_def)
    obtain k where al': "allocate o' a = (\<lparr>fa_frame = make_handle a k, fa_status = FrameOk\<rparr>,
       a\<lparr>fr_free_count := fr_free_count a - 1, fr_owners := (fr_owners a)[unat k := o']\<rparr>)"
      and k: "unat k < fr_FrameCount a" "owner_of a k = Free"
      using allocate_some [OF inv ne] .
    have "h = make_handle a k"
      "s' = a\<lparr>fr_free_count := fr_free_count a - 1, fr_owners := (fr_owners a)[unat k := o']\<rparr>"
      using al by (simp_all add: pool_allocate_def al' allocation_ok_def)
    then show ?thesis using k pool_invD(3) [OF inv]
      by (auto simp: owner_of_def fun_eq_iff nth_list_update word_unat_eq_iff)
  qed
  show "owner_of s' = owner_of a" if "pool_allocate o' a = (None, s')"
    using that by (cases "fr_free_count a = 0")
      (auto simp: pool_allocate_def allocate_def Let_def allocation_ok_def)
  assume e: "e \<noteq> Free"
  show "pool_inv (snd (pool_transition h e n a))"
    using transition_inv [OF inv e] by (simp add: pool_transition_def case_prod_beta)
  show "owner_of a (fh_index h) = e \<and> owner_of s' = (owner_of a)(fh_index h := n)"
    if "pool_transition h e n a = (True, s')"
    using that transition_owner [OF inv e, of h n] transition_status [OF inv e, of h n]
    by (auto simp: pool_transition_def case_prod_beta)
  show "owner_of s' = owner_of a" if "pool_transition h e n a = (False, s')"
    using that transition_owner [OF inv e, of h n] by (auto simp: pool_transition_def case_prod_beta)
  show "fst (pool_release h e a) = fst (pool_transition h e Free a) \<and>
      owner_of (snd (pool_release h e a)) = owner_of (snd (pool_transition h e Free a)) \<and>
      pool_inv (snd (pool_release h e a))"
    using release_status [OF inv e, of h] transition_status [OF inv e, of h Free] release_inv [OF inv e, of h]
      transition_owner [OF inv e, of h Free] release_owner [OF inv e, of h]
    by (auto simp: pool_transition_def pool_release_def case_prod_beta)
qed

subsection \<open>Properties\<close>

definition demo_pool :: FrameAllocator where
  "demo_pool = FrameAllocator_init 2 2048"


lemma demo_pool_inv: "pool_inv demo_pool"
  unfolding demo_pool_def
  using is_pow2I [of 2048 11] by (intro pool_inv_init) (simp_all add: kMinXdpFrameSizeBytes_def)

definition demo_ops :: "(FrameHandle, FrameOwner) pool_op list" where
  "demo_ops = [Alloc DataPlane, Alloc FillRing, Alloc DataPlane, Move (make_handle demo_pool 0) DataPlane TxRing,
     Rel (make_handle demo_pool 0) TxRing, Rel (make_handle demo_pool 0) TxRing, Alloc RxRing]"


text \<open>On a pool that satisfies the invariant, \<open>allocate\<close> for any owner but \<open>Free\<close> succeeds exactly
  when some frame is free. It then returns the handle of a frame that was free, makes the requested
  owner its owner, touches no other frame and takes one frame off the count; otherwise it reports
  \<open>PoolEmpty\<close>, changes no owner and counts the failure. The invariant is kept in both cases.\<close>

lemma allocate_outcome:
  assumes "pool_inv a" "owner \<noteq> Free" and al: "allocate owner a = (r, a')"
  shows "pool_inv a' \<and>
    (if \<exists>i. unat i < fr_FrameCount a \<and> owner_of a i = Free
     then fa_status r = FrameOk \<and> validate_frame a (fa_frame r) = FrameOk \<and>
       owner_of a (fh_index (fa_frame r)) = Free \<and>
       owner_of a' = (owner_of a)(fh_index (fa_frame r) := owner) \<and> available a' + 1 = available a
     else fa_status r = PoolEmpty \<and> owner_of a' = owner_of a \<and> available a' = 0 \<and>
       fr_allocation_failures a' = fr_allocation_failures a + 1)"
proof (cases "fr_free_count a = 0")
  case True
  then have "\<not> (\<exists>i. unat i < fr_FrameCount a \<and> owner_of a i = Free)"
    using pool_invD(7) [OF assms(1)] by (auto simp: owner_of_def free_list_def)
  then show ?thesis using al assms(1) allocate_empty [OF True, of owner] True by (auto simp: available_def)
next
  case False
  obtain k b where k: "allocate owner a = (\<lparr>fa_frame = make_handle a k, fa_status = FrameOk\<rparr>, b)"
    "unat k < fr_FrameCount a" "owner_of a k = Free" "owner_of b = (owner_of a)(k := owner)" "pool_inv b"
    "fr_free_count b = fr_free_count a - 1"
    using allocate_takes [OF assms(1,2) False] .
  then show ?thesis using al False by (auto simp: available_def)
qed



text \<open>\<open>allocate_batch\<close> fills as many entries of the output as there are free frames, up to its
  length, with the handles of distinct frames that were all free, gives exactly these frames to the
  requested owner, leaves the rest of the output alone, and counts a failure exactly when it could
  not fill the whole output.\<close>

lemma allocate_batch_outcome:
  assumes "pool_inv a" "owner \<noteq> Free" and b: "allocate_batch out owner a = (n, out', a')"
  shows "pool_inv a' \<and> n = min (length out) (available a) \<and> drop n out' = drop n out \<and> length out' = length out \<and>
    distinct (map fh_index (take n out')) \<and>
    (\<forall>h \<in> set (take n out'). validate_frame a h = FrameOk \<and> owner_of a (fh_index h) = Free) \<and>
    owner_of a' = (\<lambda>i. if i \<in> fh_index ` set (take n out') then owner else owner_of a i) \<and>
    fr_allocation_failures a' = fr_allocation_failures a + (if n < length out then 1 else 0)"
proof -
  obtain ks b where L: "allocate_batch_loop owner 0 out a =
      (length ks, map (make_handle a) ks @ drop (length ks) out, b)"
    "length ks = min (length out) (fr_free_count a)" "free_list a = free_list b @ rev ks"
    "pool_inv b" "owner_of b = (\<lambda>i. if i \<in> set ks then owner else owner_of a i)"
    "fr_allocation_failures b = fr_allocation_failures a"
    using allocate_batch_loop_spec [OF assms(1,2), of 0 out] by auto
  have n: "n = length ks" "out' = map (make_handle a) ks @ drop (length ks) out"
    "a' = (if n < length out then b\<lparr>fr_allocation_failures := fr_allocation_failures b + 1\<rparr> else b)"
    using b L(1,2) by (auto simp: allocate_batch_def)
  have free: "unat k < fr_FrameCount a \<and> owner_of a k = Free" if "k \<in> set ks" for k
    using that L(3) pool_invD(6,7) [OF assms(1), of k] by (simp add: owner_of_def)
  have t: "take n out' = map (make_handle a) ks" by (simp add: n)
  have "distinct ks" using pool_invD(5) [OF assms(1)] L(3) by simp
  then show ?thesis
    using L(2,4,5,6) free n(3) unfolding t by (auto simp: n(1,2) available_def image_image o_def)
qed

text \<open>\<open>release_batch\<close> on handles of distinct frames is all or nothing: it succeeds exactly when every
  handle is valid and with the expected owner; then all of these frames, and no others, become free.
  Otherwise no owner changes and one failure is counted. The room check never fires.\<close>

lemma release_batch_outcome:
  assumes "pool_inv a" "e \<noteq> Free" "distinct (map fh_index hs)" and r: "release_batch hs e a = (st, a')"
  shows "pool_inv a' \<and> st \<noteq> PoolFull \<and>
    (st = FrameOk \<longleftrightarrow> (\<forall>h \<in> set hs. validate_frame a h = FrameOk \<and> owner_of a (fh_index h) = e)) \<and>
    owner_of a' = (if st = FrameOk then (\<lambda>i. if i \<in> fh_index ` set hs then Free else owner_of a i) else owner_of a) \<and>
    available a' = (if st = FrameOk then available a + length hs else available a)"
proof (cases "batch_refusal hs e a")
  case None
  then have ok: "\<forall>h \<in> set hs. validate_frame a h = FrameOk \<and> owner_of a (fh_index h) = e"
    by (simp add: batch_refusal_None [OF assms(1)])
  then have "fr_free_count a + length hs \<le> fr_FrameCount a"
    using in_use_room [OF assms(1,3)] assms(2) by (auto simp: validate_frame_iff valid_index_def)
  then have "st = FrameOk" "a' = push_free hs a" using r None by (simp_all add: release_batch_def Let_def)
  moreover have "fr_free_count (push_free hs a) = fr_free_count a + length hs"
    by (induction hs arbitrary: a) auto
  ultimately show ?thesis using push_free_spec [OF assms(1-3) ok] ok by (simp add: available_def)
next
  case (Some st')
  have "st' \<noteq> PoolFull" using Some by (induction hs) (auto simp: Let_def validate_frame_def split: if_splits)
  then show ?thesis
    using Some r assms(1) batch_refusal_Some [OF Some] batch_refusal_None [OF assms(1), of hs e]
    by (auto simp: release_batch_def Let_def available_def)
qed

text \<open>\<open>handle_from_address\<close> inverts \<open>make_handle\<close>: it accepts exactly the start addresses of the
  pool's frames, returns for each of them the handle the allocator itself makes for that frame, and
  refuses every other 64-bit address.\<close>

lemma handle_from_address_inverse:
  assumes "params_ok a"
  shows "(fa_status (handle_from_address a w) = FrameOk \<longleftrightarrow>
      (\<exists>k. unat k < fr_FrameCount a \<and> w = fh_address (make_handle a k))) \<and>
    (unat k < fr_FrameCount a \<longrightarrow>
      handle_from_address a (fh_address (make_handle a k)) = \<lparr>fa_frame = make_handle a k, fa_status = FrameOk\<rparr>) \<and>
    fh_address (fa_frame (handle_from_address a w)) = w"
proof -
  have "fh_address (fa_frame (handle_from_address a w)) = w"
  proof (cases "fa_status (handle_from_address a w) = FrameOk")
    case True
    then show ?thesis using handle_from_address_ok [OF assms True] by (metis FrameAllocation.select_convs(1))
  next
    case False
    then show ?thesis by (auto simp: handle_from_address_def split: if_splits)
  qed
  moreover have "\<exists>k. unat k < fr_FrameCount a \<and> w = fh_address (make_handle a k)"
    if "fa_status (handle_from_address a w) = FrameOk"
    using handle_from_address_ok [OF assms that] by metis
  ultimately show ?thesis using handle_from_address_make [OF assms] by auto
qed

subsection \<open>Two ways to break the pool\<close>

text \<open>C7: \<open>release_batch\<close> checks all handles before it frees any, so a batch that names the same frame
  twice passes the checks whenever two frames are in use: the call reports success, the frame is on
  the free stack twice, the invariant is broken, and the next two allocations hand out the same frame.\<close>

theorem release_batch_double_free:
  assumes "pool_inv a" "validate_frame a h = FrameOk" "owner_of a (fh_index h) = e" "2 \<le> in_use a"
    and r: "release_batch [h, h] e a = (st, a')"
  shows "st = FrameOk \<and> \<not> pool_inv a' \<and> fa_status (fst (allocate owner a')) = FrameOk \<and>
    fst (allocate owner a') = fst (allocate owner (snd (allocate owner a')))"
proof -
  let ?k = "fh_index h" and ?n = "fr_free_count a"
  have k: "unat ?k < fr_FrameCount a" using assms(2) by (simp add: validate_frame_iff valid_index_def)
  have n: "?n + 2 \<le> fr_FrameCount a" using assms(4) by (simp add: in_use_def)
  have ok: "batch_refusal [h, h] e a = None" unfolding batch_refusal_None [OF assms(1)] using assms(2,3) by simp
  then have st: "st = FrameOk" and a': "a' = push_free [h, h] a"
    using r n by (simp_all add: release_batch_def Let_def del: batch_refusal.simps push_free.simps)
  have cnt: "fr_free_count a' = ?n + 2" and sz: "fr_FrameSize a' = fr_FrameSize a"
    and stk: "fr_free_stack a' = (fr_free_stack a)[?n := ?k, ?n + 1 := ?k]" by (simp_all add: a')
  have at: "fr_free_stack a' ! ?n = ?k" "fr_free_stack a' ! (?n + 1) = ?k" "length (fr_free_stack a') = fr_FrameCount a"
    using n pool_invD(2) [OF assms(1)] by (simp_all add: stk)
  then have "free_list a' ! ?n = free_list a' ! (?n + 1)" by (simp add: free_list_def cnt)
  moreover have "length (free_list a') = ?n + 2" using n at(3) by (simp add: free_list_def cnt)
  ultimately have "\<not> distinct (free_list a')"
    using nth_eq_iff_index_eq [of "free_list a'" ?n "?n + 1"] by auto
  then show ?thesis
    using st at(1,2) by (auto simp: pool_inv_def allocate_def Let_def cnt make_handle_def)
qed

definition busy_pool :: FrameAllocator where
  "busy_pool = snd (allocate DataPlane (snd (allocate DataPlane demo_pool)))"

theorem release_batch_double_free_witness:
  "fst (release_batch [make_handle demo_pool 0, make_handle demo_pool 0] DataPlane busy_pool) = FrameOk \<and>
   \<not> pool_inv (snd (release_batch [make_handle demo_pool 0, make_handle demo_pool 0] DataPlane busy_pool))"
proof -
  let ?h = "make_handle demo_pool 0"
  have "pool_inv busy_pool" by (simp add: busy_pool_def allocate_inv demo_pool_inv)
  moreover have "validate_frame busy_pool ?h = FrameOk" "owner_of busy_pool (fh_index ?h) = DataPlane"
    "2 \<le> in_use busy_pool" by code_simp+
  ultimately show ?thesis
    using release_batch_double_free [of busy_pool ?h DataPlane "fst (release_batch [?h, ?h] DataPlane busy_pool)"
        "snd (release_batch [?h, ?h] DataPlane busy_pool)"] by simp
qed

text \<open>\<open>transition\<close> accepts \<open>Free\<close> as the expected owner. On a free frame it then reports success
  and gives the frame an owner, but leaves it on the free stack: the invariant is broken and the same
  frame is still there to be handed out by a later allocation.\<close>

lemma transition_from_free:
  assumes "pool_inv a" "validate_frame a h = FrameOk" "owner_of a (fh_index h) = Free" "n \<noteq> Free"
    and t: "transition h Free n a = (st, a')"
  shows "st = FrameOk \<and> owner_of a' (fh_index h) = n \<and> fh_index h \<in> set (free_list a') \<and> \<not> pool_inv a'"
proof -
  let ?k = "fh_index h"
  have k: "unat ?k < fr_FrameCount a" using assms(2) by (simp add: validate_frame_iff valid_index_def)
  have own: "fr_owners a ! unat ?k = Free" using assms(3) k by (simp add: owner_of_def)
  have a': "st = FrameOk" "a' = a\<lparr>fr_owners := (fr_owners a)[unat ?k := n]\<rparr>"
    using t assms(2,4) own by (simp_all add: transition_def Let_def)
  have free: "?k \<in> set (free_list a')"
    using pool_invD(7) [OF assms(1) k] own by (simp add: a' free_list_def)
  have o: "owner_of a' ?k = n" using k pool_invD(3) [OF assms(1)] by (simp add: a' owner_of_def)
  have "\<not> pool_inv a'"
  proof
    assume "pool_inv a'"
    from pool_invD(7) [OF this, of ?k] free o k assms(4) show False by (simp add: a' owner_of_def)
  qed
  then show ?thesis using a'(1) free o by simp
qed

end
