(* ===== verification/Socket_Manager.thy ===== *)
theory Socket_Manager
  imports Spsc_Queue Frame_Allocator
begin

section \<open>The simulated AF_XDP socket (\<open>include/chronosx/socket_manager.hpp\<close>)\<close>

text \<open>
  The four rings of an AF_XDP socket with the batch operations of the code. A ring has two 64-bit counters that only
  grow, as the statistics queue has; one round of its loops is one operation of that queue, which gives the ring its
  invariant and its contents. The rings interpret the contract of the bounded buffer.

  \<open>consume\<close> takes the number of entries of the output span and returns the entries written to its front.
\<close>

definition kDefaultUmemFrameSize :: nat where "kDefaultUmemFrameSize = 4096"
definition kDefaultUmemFrameCount :: nat where "kDefaultUmemFrameCount = 4096"
definition kDefaultFillRingSize :: nat where "kDefaultFillRingSize = 2048"
definition kDefaultCompletionRingSize :: nat where "kDefaultCompletionRingSize = 2048"
definition kDefaultRxRingSize :: nat where "kDefaultRxRingSize = 2048"
definition kDefaultTxRingSize :: nat where "kDefaultTxRingSize = 2048"
definition kDefaultQueueId :: u32 where "kDefaultQueueId = 0"
definition kDefaultXdpFlags :: u32 where "kDefaultXdpFlags = 0"

record UmemConfig =
  uc_frame_size :: nat
  uc_frame_count :: nat
  uc_fill_ring_size :: nat
  uc_completion_ring_size :: nat

definition UmemConfig_init :: UmemConfig where
  "UmemConfig_init = \<lparr>uc_frame_size = kDefaultUmemFrameSize, uc_frame_count = kDefaultUmemFrameCount,
     uc_fill_ring_size = kDefaultFillRingSize, uc_completion_ring_size = kDefaultCompletionRingSize\<rparr>"

definition total_bytes :: "UmemConfig \<Rightarrow> u64" where
  "total_bytes c = of_nat (uc_frame_size c) * of_nat (uc_frame_count c)"

definition umem_config_valid :: "UmemConfig \<Rightarrow> bool" where
  "umem_config_valid c \<longleftrightarrow> is_power_of_two (of_nat (uc_frame_size c)) \<and> uc_frame_size c \<ge> kMinXdpFrameSizeBytes \<and>
     uc_frame_count c > 0 \<and> is_power_of_two (of_nat (uc_fill_ring_size c)) \<and> is_power_of_two (of_nat (uc_completion_ring_size c))"

record SocketConfig =
  sc_queue_id :: u32
  sc_xdp_flags :: u32
  sc_rx_ring_size :: nat
  sc_tx_ring_size :: nat
  sc_interface_index :: u32
  sc_bind_flags :: u32

definition SocketConfig_init :: SocketConfig where
  "SocketConfig_init = \<lparr>sc_queue_id = kDefaultQueueId, sc_xdp_flags = kDefaultXdpFlags, sc_rx_ring_size = kDefaultRxRingSize,
     sc_tx_ring_size = kDefaultTxRingSize, sc_interface_index = 0, sc_bind_flags = 0\<rparr>"

definition socket_config_valid :: "SocketConfig \<Rightarrow> bool" where
  "socket_config_valid c \<longleftrightarrow> is_power_of_two (of_nat (sc_rx_ring_size c)) \<and> is_power_of_two (of_nat (sc_tx_ring_size c))"

datatype SocketStatus =
  SocketOk | InvalidConfig | UmemAllocationFailed | UmemCreateFailed | SocketCreateFailed | SocketBindFailed
  | SocketNotInitialized | SocketAlreadyInitialized | KickFailed | SocketRingFull | SocketRingEmpty

definition socket_status_name :: "SocketStatus \<Rightarrow> string" where
  "socket_status_name status = (case status of
      SocketOk \<Rightarrow> ''Ok''
    | InvalidConfig \<Rightarrow> ''InvalidConfig''
    | UmemAllocationFailed \<Rightarrow> ''UmemAllocationFailed''
    | UmemCreateFailed \<Rightarrow> ''UmemCreateFailed''
    | SocketCreateFailed \<Rightarrow> ''SocketCreateFailed''
    | SocketBindFailed \<Rightarrow> ''BindFailed''
    | SocketNotInitialized \<Rightarrow> ''NotInitialized''
    | SocketAlreadyInitialized \<Rightarrow> ''AlreadyInitialized''
    | KickFailed \<Rightarrow> ''KickFailed''
    | SocketRingFull \<Rightarrow> ''RingFull''
    | SocketRingEmpty \<Rightarrow> ''RingEmpty'')"

record RxDescriptor =
  rx_address :: u64
  rx_length :: u32
  rx_options :: u32

record TxDescriptor =
  tx_address :: u64
  tx_length :: u32
  tx_options :: u32

record BatchResult =
  ba_count :: nat
  ba_status :: SocketStatus

subsection \<open>A ring\<close>

record 'a SimulatedRing =
  sr_capacity :: nat
  sr_buffer :: "'a list"
  sr_producer :: u64
  sr_consumer :: u64

definition SimulatedRing_init :: "nat \<Rightarrow> 'a \<Rightarrow> 'a SimulatedRing" where
  "SimulatedRing_init cap dflt = \<lparr>sr_capacity = cap, sr_buffer = replicate cap dflt, sr_producer = 0, sr_consumer = 0\<rparr>"

definition available_consume :: "'a SimulatedRing \<Rightarrow> u64" where
  "available_consume r = sr_producer r - sr_consumer r"

definition available_produce :: "'a SimulatedRing \<Rightarrow> u64" where
  "available_produce r = of_nat (sr_capacity r) - (sr_producer r - sr_consumer r)"

definition ring_empty :: "'a SimulatedRing \<Rightarrow> bool" where
  "ring_empty r \<longleftrightarrow> sr_producer r = sr_consumer r"

definition ring_full :: "'a SimulatedRing \<Rightarrow> bool" where
  "ring_full r \<longleftrightarrow> available_produce r = 0"

fun produce :: "'a list \<Rightarrow> 'a SimulatedRing \<Rightarrow> nat \<times> 'a SimulatedRing" where
  "produce [] r = (0, r)"
| "produce (item # items) r =
     (if available_produce r > 0 then
        (let (produced, r) = produce items
               (r\<lparr>sr_buffer := (sr_buffer r)[ring_idx (sr_capacity r) (sr_producer r) := item], sr_producer := sr_producer r + 1\<rparr>)
         in (produced + 1, r))
      else (0, r))"

fun consume :: "nat \<Rightarrow> 'a SimulatedRing \<Rightarrow> 'a list \<times> 'a SimulatedRing" where
  "consume 0 r = ([], r)"
| "consume (Suc n) r =
     (if available_consume r > 0 then
        (let (items, r') = consume n (r\<lparr>sr_consumer := sr_consumer r + 1\<rparr>)
         in (sr_buffer r ! ring_idx (sr_capacity r) (sr_consumer r) # items, r'))
      else ([], r))"

subsection \<open>The socket\<close>

record SimulatedXskSocket =
  fill_ring :: "u64 SimulatedRing"
  completion_ring :: "u64 SimulatedRing"
  rx_ring :: "RxDescriptor SimulatedRing"
  tx_ring :: "TxDescriptor SimulatedRing"
  tx_kick_count :: u64

definition SimulatedXskSocket_init :: "nat \<Rightarrow> nat \<Rightarrow> nat \<Rightarrow> nat \<Rightarrow> SimulatedXskSocket" where
  "SimulatedXskSocket_init FillSize CompSize RxSize TxSize =
     \<lparr>fill_ring = SimulatedRing_init FillSize 0, completion_ring = SimulatedRing_init CompSize 0,
      rx_ring = SimulatedRing_init RxSize \<lparr>rx_address = 0, rx_length = 0, rx_options = 0\<rparr>,
      tx_ring = SimulatedRing_init TxSize \<lparr>tx_address = 0, tx_length = 0, tx_options = 0\<rparr>, tx_kick_count = 0\<rparr>"

definition refill :: "u64 list \<Rightarrow> SimulatedXskSocket \<Rightarrow> BatchResult \<times> SimulatedXskSocket" where
  "refill addresses s =
     (let (n, ring) = produce addresses (fill_ring s);
          status = (if n = length addresses then SocketOk else SocketRingFull)
      in (\<lparr>ba_count = n, ba_status = status\<rparr>, s\<lparr>fill_ring := ring\<rparr>))"

definition drain_completions :: "nat \<Rightarrow> SimulatedXskSocket \<Rightarrow> u64 list \<times> BatchResult \<times> SimulatedXskSocket" where
  "drain_completions out_size s =
     (let (items, ring) = consume out_size (completion_ring s);
          status = (if length items = out_size then SocketOk else SocketRingEmpty)
      in (items, \<lparr>ba_count = length items, ba_status = status\<rparr>, s\<lparr>completion_ring := ring\<rparr>))"

definition consume_rx :: "nat \<Rightarrow> SimulatedXskSocket \<Rightarrow> RxDescriptor list \<times> BatchResult \<times> SimulatedXskSocket" where
  "consume_rx out_size s =
     (let (items, ring) = consume out_size (rx_ring s);
          status = (if length items = out_size then SocketOk else SocketRingEmpty)
      in (items, \<lparr>ba_count = length items, ba_status = status\<rparr>, s\<lparr>rx_ring := ring\<rparr>))"

definition submit_tx :: "TxDescriptor list \<Rightarrow> SimulatedXskSocket \<Rightarrow> BatchResult \<times> SimulatedXskSocket" where
  "submit_tx descriptors s =
     (let (n, ring) = produce descriptors (tx_ring s);
          status = (if n = length descriptors then SocketOk else SocketRingFull)
      in (\<lparr>ba_count = n, ba_status = status\<rparr>, s\<lparr>tx_ring := ring\<rparr>))"

definition kick_tx :: "SimulatedXskSocket \<Rightarrow> SocketStatus \<times> SimulatedXskSocket" where
  "kick_tx s = (SocketOk, s\<lparr>tx_kick_count := tx_kick_count s + 1\<rparr>)"

definition inject_rx :: "RxDescriptor list \<Rightarrow> SimulatedXskSocket \<Rightarrow> nat \<times> SimulatedXskSocket" where
  "inject_rx descriptors s = (let (n, ring) = produce descriptors (rx_ring s) in (n, s\<lparr>rx_ring := ring\<rparr>))"

definition complete_tx :: "u64 list \<Rightarrow> SimulatedXskSocket \<Rightarrow> nat \<times> SimulatedXskSocket" where
  "complete_tx addresses s = (let (n, ring) = produce addresses (completion_ring s) in (n, s\<lparr>completion_ring := ring\<rparr>))"

definition consume_fill :: "nat \<Rightarrow> SimulatedXskSocket \<Rightarrow> u64 list \<times> SimulatedXskSocket" where
  "consume_fill out_size s = (let (items, ring) = consume out_size (fill_ring s) in (items, s\<lparr>fill_ring := ring\<rparr>))"

definition fill_ring_pending :: "SimulatedXskSocket \<Rightarrow> u64" where "fill_ring_pending s = available_consume (fill_ring s)"
definition completion_ring_pending :: "SimulatedXskSocket \<Rightarrow> u64" where "completion_ring_pending s = available_consume (completion_ring s)"
definition rx_ring_pending :: "SimulatedXskSocket \<Rightarrow> u64" where "rx_ring_pending s = available_consume (rx_ring s)"
definition tx_ring_pending :: "SimulatedXskSocket \<Rightarrow> u64" where "tx_ring_pending s = available_consume (tx_ring s)"

subsection \<open>A ring is a bounded buffer\<close>

definition ring_queue :: "'a SimulatedRing \<Rightarrow> 'a SPSCQueue" where
  "ring_queue r = \<lparr>sq_capacity = sr_capacity r, sq_head = sr_consumer r, sq_tail = sr_producer r, sq_buffer = sr_buffer r\<rparr>"

definition ring_inv :: "'a SimulatedRing \<Rightarrow> bool" where
  "ring_inv r \<longleftrightarrow> spsc_inv (ring_queue r)"

definition ring_contents :: "'a SimulatedRing \<Rightarrow> 'a list" where
  "ring_contents r = spsc_contents (ring_queue r)"

lemma ring_init [simp]:
  "is_pow2 cap \<Longrightarrow> ring_inv (SimulatedRing_init cap d)" "ring_contents (SimulatedRing_init cap d) = []"
  "sr_capacity (SimulatedRing_init cap d) = cap"
  by (simp_all add: ring_inv_def ring_contents_def ring_queue_def SimulatedRing_init_def spsc_inv_def spsc_contents_def)

lemma ring_length: "length (ring_contents r) = unat (available_consume r)"
  by (simp add: ring_contents_def ring_queue_def available_consume_def)

lemma ring_bounded: "ring_inv r \<Longrightarrow> length (ring_contents r) \<le> sr_capacity r"
  by (simp add: ring_inv_def spsc_inv_def ring_contents_def ring_queue_def)

lemma available_produce_room:
  assumes "ring_inv r"
  shows "unat (available_produce r) = sr_capacity r - length (ring_contents r)"
proof -
  have n: "is_pow2 (sr_capacity r)" using assms by (simp add: ring_inv_def spsc_inv_def ring_queue_def)
  have le: "available_consume r \<le> of_nat (sr_capacity r)"
    using ring_bounded [OF assms] ring_length [of r] by (simp add: word_le_nat_alt unat_cap [OF n])
  then have "unat (of_nat (sr_capacity r) - available_consume r) = unat (of_nat (sr_capacity r) :: u64) - unat (available_consume r)"
    by (rule unat_sub)
  then show ?thesis by (simp add: available_produce_def available_consume_def [symmetric] unat_cap [OF n] ring_length)
qed

lemma available_produce_pos: "ring_inv r \<Longrightarrow> available_produce r > 0 \<longleftrightarrow> length (ring_contents r) < sr_capacity r"
  using available_produce_room [of r] by (simp add: word_gt_0 unat_gt_0 [symmetric] del: unat_gt_0)

lemma available_consume_pos: "available_consume r > 0 \<longleftrightarrow> ring_contents r \<noteq> []"
  using ring_length [of r] by (metis length_greater_0_conv unat_gt_0 word_gt_0)

text \<open>One round of each loop is an operation of the queue.\<close>

lemma produce_round:
  assumes "ring_inv r" "length (ring_contents r) < sr_capacity r"
  shows "ring_queue (r\<lparr>sr_buffer := (sr_buffer r)[ring_idx (sr_capacity r) (sr_producer r) := x], sr_producer := sr_producer r + 1\<rparr>) =
    snd (try_push x (ring_queue r))"
  using assms spsc_full_iff [of "ring_queue r"]
  by (auto simp: try_push_def Let_def ring_queue_def ring_inv_def ring_contents_def)

lemma consume_round:
  assumes "ring_contents r \<noteq> []"
  shows "ring_queue (r\<lparr>sr_consumer := sr_consumer r + 1\<rparr>) = snd (try_pop (ring_queue r))"
    "fst (try_pop (ring_queue r)) = Some (sr_buffer r ! ring_idx (sr_capacity r) (sr_consumer r))"
  using assms spsc_empty_iff [of "ring_queue r"] by (auto simp: try_pop_def Let_def ring_queue_def ring_contents_def)

lemma produce_spec:
  assumes "ring_inv r" "n = min (length xs) (sr_capacity r - length (ring_contents r))"
  shows "\<exists>r'. produce xs r = (n, r') \<and> ring_inv r' \<and> ring_contents r' = ring_contents r @ take n xs \<and> sr_capacity r' = sr_capacity r"
  using assms
proof (induction xs arbitrary: r n)
  case (Cons x xs)
  show ?case
  proof (cases "length (ring_contents r) < sr_capacity r")
    case True
    let ?r = "r\<lparr>sr_buffer := (sr_buffer r)[ring_idx (sr_capacity r) (sr_producer r) := x], sr_producer := sr_producer r + 1\<rparr>"
    have room: "length (spsc_contents (ring_queue r)) < sq_capacity (ring_queue r)"
      using True by (simp add: ring_contents_def ring_queue_def)
    have r: "ring_inv ?r" "ring_contents ?r = ring_contents r @ [x]"
      using try_push_room [OF _ room, of x] Cons.prems(1) produce_round [OF Cons.prems(1) True, of x]
      by (simp_all add: ring_inv_def ring_contents_def)
    obtain r' where r': "produce xs ?r = (min (length xs) (sr_capacity r - length (ring_contents ?r)), r')" "ring_inv r'"
      "ring_contents r' = ring_contents ?r @ take (min (length xs) (sr_capacity r - length (ring_contents ?r))) xs" "sr_capacity r' = sr_capacity r"
      using Cons.IH [OF r(1) refl] by auto
    let ?k = "min (length xs) (sr_capacity r - length (ring_contents ?r))"
    have n: "n = Suc ?k" using True Cons.prems(2) r(2) by (simp add: min_def) arith
    have "produce (x # xs) r = (Suc ?k, r')" using r'(1) available_produce_pos [OF Cons.prems(1)] True by simp
    then show ?thesis using r'(2-) r(2) unfolding n by simp
  next
    case False
    then show ?thesis using Cons.prems available_produce_pos [OF Cons.prems(1)] by simp
  qed
qed simp

lemma consume_spec:
  assumes "ring_inv r"
  shows "\<exists>r'. consume n r = (take n (ring_contents r), r') \<and> ring_inv r' \<and> ring_contents r' = drop n (ring_contents r) \<and> sr_capacity r' = sr_capacity r"
  using assms
proof (induction n arbitrary: r)
  case (Suc n)
  show ?case
  proof (cases "ring_contents r")
    case Nil
    then show ?thesis using Suc.prems available_consume_pos [of r] by simp
  next
    case (Cons x xs)
    let ?r = "r\<lparr>sr_consumer := sr_consumer r + 1\<rparr>"
    have c: "spsc_contents (ring_queue r) = x # xs" using Cons by (simp add: ring_contents_def)
    have ne: "ring_contents r \<noteq> []" using Cons by simp
    have r: "ring_inv ?r" "ring_contents ?r = xs" "sr_buffer r ! ring_idx (sr_capacity r) (sr_consumer r) = x"
      using try_pop_cons [OF _ c] Suc.prems consume_round [OF ne] by (simp_all add: ring_inv_def ring_contents_def)
    obtain r' where "consume n ?r = (take n xs, r')" "ring_inv r'" "ring_contents r' = drop n xs" "sr_capacity r' = sr_capacity r"
      using Suc.IH [OF r(1)] r(2) by auto
    then show ?thesis using Cons r(3) available_consume_pos [of r] by simp
  qed
qed simp

lemma produce_one:
  assumes "ring_inv r" "length (ring_contents r) < sr_capacity r"
  shows "\<exists>r'. produce [x] r = (1, r') \<and> ring_inv r' \<and> ring_contents r' = ring_contents r @ [x] \<and> sr_capacity r' = sr_capacity r"
proof -
  have "1 = min (length [x]) (sr_capacity r - length (ring_contents r))" using assms(2) by simp
  from produce_spec [OF assms(1) this] show ?thesis by (simp del: produce.simps)
qed

lemma produce_full:
  assumes "ring_inv r" "length (ring_contents r) = sr_capacity r"
  shows "produce xs r = (0, r)"
  using available_produce_pos [OF assms(1)] assms(2) by (cases xs) simp_all

text \<open>A ring as a provider of the contract: one entry at a time.\<close>

definition ring_push :: "'a \<Rightarrow> 'a SimulatedRing \<Rightarrow> bool \<times> 'a SimulatedRing" where
  "ring_push x r = (let (n, r) = produce [x] r in (n = 1, r))"

definition ring_pop :: "'a SimulatedRing \<Rightarrow> 'a option \<times> 'a SimulatedRing" where
  "ring_pop r = (let (items, r) = consume 1 r in (case items of [] \<Rightarrow> None | x # _ \<Rightarrow> Some x, r))"

interpretation xring: bounded_fifo ring_inv ring_contents sr_capacity ring_push ring_pop
proof unfold_locales
  fix r :: "'a SimulatedRing" and x :: 'a and xs :: "'a list"
  assume inv: "ring_inv r"
  obtain r' where p: "produce [x] r = (min 1 (sr_capacity r - length (ring_contents r)), r')" "ring_inv r'"
    "ring_contents r' = ring_contents r @ take (min 1 (sr_capacity r - length (ring_contents r))) [x]" "sr_capacity r' = sr_capacity r"
    using produce_spec [OF inv refl, of "[x]"] by auto
  obtain r'' where c: "consume 1 r = (take 1 (ring_contents r), r'')" "ring_inv r''" "ring_contents r'' = drop 1 (ring_contents r)"
    "sr_capacity r'' = sr_capacity r" using consume_spec [OF inv, of 1] by auto
  show "length (ring_contents r) \<le> sr_capacity r" by (rule ring_bounded [OF inv])
  show "fst (ring_push x r) \<and> ring_contents (snd (ring_push x r)) = ring_contents r @ [x]" if "length (ring_contents r) < sr_capacity r"
    using that p by (simp add: ring_push_def min_def)
  show "ring_push x r = (False, r)" if "length (ring_contents r) = sr_capacity r"
    using that available_produce_pos [OF inv] by (simp add: ring_push_def)
  show "ring_inv (snd (ring_push x r))" "sr_capacity (snd (ring_push x r)) = sr_capacity r" using p by (simp_all add: ring_push_def)
  show "ring_pop r = (None, r)" if "ring_contents r = []" using that available_consume_pos [of r] by (simp add: ring_pop_def)
  show "fst (ring_pop r) = Some x \<and> ring_contents (snd (ring_pop r)) = xs" if "ring_contents r = x # xs" using that c by (simp add: ring_pop_def)
  show "ring_inv (snd (ring_pop r))" "sr_capacity (snd (ring_pop r)) = sr_capacity r" using c by (simp_all add: ring_pop_def)
qed

subsection \<open>The operations of the socket\<close>

definition socket_inv :: "SimulatedXskSocket \<Rightarrow> bool" where
  "socket_inv s \<longleftrightarrow> ring_inv (fill_ring s) \<and> ring_inv (completion_ring s) \<and> ring_inv (rx_ring s) \<and> ring_inv (tx_ring s)"

abbreviation "fill_contents s \<equiv> ring_contents (fill_ring s)"
abbreviation "completion_contents s \<equiv> ring_contents (completion_ring s)"
abbreviation "rx_contents s \<equiv> ring_contents (rx_ring s)"
abbreviation "tx_contents s \<equiv> ring_contents (tx_ring s)"

lemma socket_init_inv:
  assumes "is_pow2 f" "is_pow2 c" "is_pow2 r" "is_pow2 t"
  shows "socket_inv (SimulatedXskSocket_init f c r t)" "fill_contents (SimulatedXskSocket_init f c r t) = []"
    "completion_contents (SimulatedXskSocket_init f c r t) = []" "rx_contents (SimulatedXskSocket_init f c r t) = []"
    "tx_contents (SimulatedXskSocket_init f c r t) = []" "sr_capacity (fill_ring (SimulatedXskSocket_init f c r t)) = f"
    "sr_capacity (tx_ring (SimulatedXskSocket_init f c r t)) = t"
  using assms by (simp_all add: SimulatedXskSocket_init_def socket_inv_def)

lemma drain_completions_spec:
  assumes "socket_inv s"
  shows "\<exists>st ring. drain_completions n s = (take n (completion_contents s), st, s\<lparr>completion_ring := ring\<rparr>) \<and>
    ring_inv ring \<and> ring_contents ring = drop n (completion_contents s) \<and> ba_count st = length (take n (completion_contents s))"
  using consume_spec [of "completion_ring s" n] assms by (auto simp: drain_completions_def socket_inv_def Let_def)

lemma consume_rx_spec:
  assumes "socket_inv s"
  shows "\<exists>st ring. consume_rx n s = (take n (rx_contents s), st, s\<lparr>rx_ring := ring\<rparr>) \<and>
    ring_inv ring \<and> ring_contents ring = drop n (rx_contents s) \<and> ba_count st = length (take n (rx_contents s))"
  using consume_spec [of "rx_ring s" n] assms by (auto simp: consume_rx_def socket_inv_def Let_def)

lemma refill_one_room:
  assumes "socket_inv s" "length (fill_contents s) < sr_capacity (fill_ring s)"
  shows "\<exists>st ring. refill [a] s = (st, s\<lparr>fill_ring := ring\<rparr>) \<and> ba_count st = 1 \<and> ring_inv ring \<and>
    ring_contents ring = fill_contents s @ [a] \<and> sr_capacity ring = sr_capacity (fill_ring s)"
  using produce_one [of "fill_ring s" a] assms by (auto simp: refill_def socket_inv_def Let_def simp del: produce.simps)

lemma submit_one_room:
  assumes "socket_inv s" "length (tx_contents s) < sr_capacity (tx_ring s)"
  shows "\<exists>st ring. submit_tx [d] s = (st, s\<lparr>tx_ring := ring\<rparr>) \<and> ba_count st = 1 \<and> ring_inv ring \<and>
    ring_contents ring = tx_contents s @ [d] \<and> sr_capacity ring = sr_capacity (tx_ring s)"
  using produce_one [of "tx_ring s" d] assms by (auto simp: submit_tx_def socket_inv_def Let_def simp del: produce.simps)

datatype socket_op = Refill "u64 list" | DrainCompletions nat | ConsumeRx nat | SubmitTx "TxDescriptor list" | KickTx
  | InjectRx "RxDescriptor list" | CompleteTx "u64 list" | ConsumeFill nat

fun socket_exec :: "socket_op \<Rightarrow> SimulatedXskSocket \<Rightarrow> SimulatedXskSocket" where
  "socket_exec (Refill addresses) s = snd (refill addresses s)"
| "socket_exec (DrainCompletions n) s = snd (snd (drain_completions n s))"
| "socket_exec (ConsumeRx n) s = snd (snd (consume_rx n s))"
| "socket_exec (SubmitTx ds) s = snd (submit_tx ds s)"
| "socket_exec KickTx s = snd (kick_tx s)"
| "socket_exec (InjectRx ds) s = snd (inject_rx ds s)"
| "socket_exec (CompleteTx addresses) s = snd (complete_tx addresses s)"
| "socket_exec (ConsumeFill n) s = snd (consume_fill n s)"

lemma socket_exec_tx: "\<forall>ds. op \<noteq> SubmitTx ds \<Longrightarrow> tx_ring (socket_exec op s) = tx_ring s"
  by (cases op) (simp_all add: refill_def drain_completions_def consume_rx_def kick_tx_def inject_rx_def complete_tx_def
      consume_fill_def case_prod_beta Let_def)

lemma socket_exec_full:
  assumes "ring_inv (tx_ring s)" "length (tx_contents s) = sr_capacity (tx_ring s)"
  shows "tx_ring (socket_exec op s) = tx_ring s"
proof (cases "\<exists>ds. op = SubmitTx ds")
  case True
  then show ?thesis using produce_full [OF assms] by (auto simp: submit_tx_def)
next
  case False
  then show ?thesis using socket_exec_tx by blast
qed

subsection \<open>Properties\<close>

text \<open>Batches on a ring behave as on a bounded queue, for every value of the 64-bit counters: \<open>produce\<close> appends as many
  entries of the batch, from its front, as there is room for, \<open>consume\<close> removes the oldest entries in order, and the two counts of
  available entries are exact.\<close>

lemma ring_batches_fifo:
  assumes "ring_inv r"
  shows "fst (produce xs r) = min (length xs) (sr_capacity r - length (ring_contents r)) \<and>
    ring_contents (snd (produce xs r)) = ring_contents r @ take (fst (produce xs r)) xs \<and>
    fst (consume n r) = take n (ring_contents r) \<and> ring_contents (snd (consume n r)) = drop n (ring_contents r) \<and>
    ring_inv (snd (produce xs r)) \<and> ring_inv (snd (consume n r)) \<and>
    unat (available_consume r) = length (ring_contents r) \<and> unat (available_produce r) = sr_capacity r - length (ring_contents r)"
proof -
  obtain r' where "produce xs r = (min (length xs) (sr_capacity r - length (ring_contents r)), r')" "ring_inv r'"
    "ring_contents r' = ring_contents r @ take (min (length xs) (sr_capacity r - length (ring_contents r))) xs"
    using produce_spec [OF assms refl, of xs] by blast
  moreover obtain r'' where "consume n r = (take n (ring_contents r), r'')" "ring_inv r''" "ring_contents r'' = drop n (ring_contents r)"
    using consume_spec [OF assms, of n] by blast
  ultimately show ?thesis by (simp add: ring_length available_produce_room [OF assms])
qed

text \<open>The transmit ring of the simulated socket is never emptied: no operation of the socket takes descriptors from it. Once it is
  full, every later submission is refused with \<open>RingFull\<close>, whatever is done with the socket in between, completions of all frames
  included.\<close>

lemma tx_ring_never_drains:
  assumes "socket_inv s" "length (tx_contents s) = sr_capacity (tx_ring s)" "ds \<noteq> []"
  shows "fst (submit_tx ds (fold socket_exec ops s)) = \<lparr>ba_count = 0, ba_status = SocketRingFull\<rparr>"
proof -
  have "tx_ring (fold socket_exec ops s) = tx_ring s"
    using assms(1) [unfolded socket_inv_def, THEN conjunct2, THEN conjunct2, THEN conjunct2] assms(2)
  proof (induction ops arbitrary: s)
    case (Cons op ops)
    have tx: "tx_ring (socket_exec op s) = tx_ring s" using socket_exec_full Cons.prems by blast
    have "ring_inv (tx_ring (socket_exec op s))" "length (tx_contents (socket_exec op s)) = sr_capacity (tx_ring (socket_exec op s))"
      using Cons.prems tx by simp_all
    then show ?case using Cons tx by simp
  qed simp
  then show ?thesis using assms produce_full [of "tx_ring s" ds] by (simp add: submit_tx_def socket_inv_def)
qed

definition demo_tx :: TxDescriptor where
  "demo_tx = \<lparr>tx_address = 0, tx_length = 64, tx_options = 0\<rparr>"

end
