(* ===== verification/Delay_Scheduler.thy ===== *)
theory Delay_Scheduler
  imports Prelude "HOL-Library.Multiset"
begin

section \<open>The contract of a delay scheduler\<close>

text \<open>
  The data plane hands delayed frames to a scheduler and gets them back from its \<open>tick\<close> operation.
  What it relies on is stated here, independently of the timing wheel: a scheduler has a clock, a
  bag of pending entries that each carry their release time, a longest delay and two operations.
  The clock is a 64-bit counter and may wrap around, so times are compared by their distance from
  the clock. Theory \<open>Timing_Wheel\<close> interprets the locale for the wheel of the program.
\<close>

datatype ScheduleStatus = Scheduled | DelayTooLarge | SlotFull

datatype 'f sched_event = Sched 'f u64 | Tick

fun ticks :: "'f sched_event list \<Rightarrow> nat" where
  "ticks [] = 0"
| "ticks (Sched _ _ # es) = ticks es"
| "ticks (Tick # es) = Suc (ticks es)"

text \<open>
  A run of events: the entries that were accepted, the entries that ticks delivered, the final state.
\<close>

fun sched_run :: "('f \<Rightarrow> u64 \<Rightarrow> 'w \<Rightarrow> ScheduleStatus \<times> 'w) \<Rightarrow> ('w \<Rightarrow> 'e list \<times> 'w) \<Rightarrow>
    ('f \<Rightarrow> u64 \<Rightarrow> 'w \<Rightarrow> 'e) \<Rightarrow> 'f sched_event list \<Rightarrow> 'w \<Rightarrow> 'e multiset \<times> 'e multiset \<times> 'w" where
  "sched_run schedule tick entry [] w = ({#}, {#}, w)"
| "sched_run schedule tick entry (Sched f d # es) w =
     (let (st, w') = schedule f d w; (ins, outs, w'') = sched_run schedule tick entry es w'
      in (if st = Scheduled then add_mset (entry f d w) ins else ins, outs, w''))"
| "sched_run schedule tick entry (Tick # es) w =
     (let (out, w') = tick w; (ins, outs, w'') = sched_run schedule tick entry es w'
      in (ins, mset out + outs, w''))"

definition final :: "'a \<times> 'b \<times> 'w \<Rightarrow> 'w" where
  "final r = snd (snd r)"

locale delay_scheduler =
  fixes inv :: "'w \<Rightarrow> bool"
    and now :: "'w \<Rightarrow> u64"
    and pending :: "'w \<Rightarrow> 'e multiset"
    and due :: "'e \<Rightarrow> u64"
    and max_delay :: "'w \<Rightarrow> nat"
    and entry :: "'f \<Rightarrow> u64 \<Rightarrow> 'w \<Rightarrow> 'e"
    and schedule :: "'f \<Rightarrow> u64 \<Rightarrow> 'w \<Rightarrow> ScheduleStatus \<times> 'w"
    and tick :: "'w \<Rightarrow> 'e list \<times> 'w"
  assumes pending_due: "inv w \<Longrightarrow> e \<in># pending w \<Longrightarrow>
            1 \<le> unat (due e - now w) \<and> unat (due e - now w) \<le> max_delay w"
    and schedule_inv: "inv w \<Longrightarrow> inv (snd (schedule f d w))"
    and schedule_now: "inv w \<Longrightarrow> now (snd (schedule f d w)) = now w"
    and schedule_pending: "inv w \<Longrightarrow> pending (snd (schedule f d w)) =
            (if fst (schedule f d w) = Scheduled then add_mset (entry f d w) (pending w) else pending w)"
    and tick_inv: "inv w \<Longrightarrow> inv (snd (tick w))"
    and tick_now: "inv w \<Longrightarrow> now (snd (tick w)) = now w + 1"
    and tick_out: "inv w \<Longrightarrow> mset (fst (tick w)) = filter_mset (\<lambda>e. due e = now w + 1) (pending w)"
    and tick_pending: "inv w \<Longrightarrow> pending (snd (tick w)) = filter_mset (\<lambda>e. due e \<noteq> now w + 1) (pending w)"
begin

lemma tick_conserves: "inv w \<Longrightarrow> pending w = mset (fst (tick w)) + pending (snd (tick w))"
  using multiset_partition [of "pending w" "\<lambda>e. due e = now w + 1"] by (simp add: tick_out tick_pending)

text \<open>Every entry that is accepted is delivered once or still pending: none is lost or duplicated.\<close>

lemma run_conserves:
  assumes "inv w" and "sched_run schedule tick entry es w = (ins, outs, w')"
  shows "inv w' \<and> now w' = now w + of_nat (ticks es) \<and> pending w + ins = outs + pending w'"
  using assms
proof (induction es arbitrary: w ins outs)
  case Nil
  then show ?case by simp
next
  case (Cons ev es)
  show ?case
  proof (cases ev)
    case (Sched f d)
    obtain st w1 where s: "schedule f d w = (st, w1)" by fastforce
    obtain ins1 where r: "sched_run schedule tick entry es w1 = (ins1, outs, w')"
      and i: "ins = (if st = Scheduled then add_mset (entry f d w) ins1 else ins1)"
      using Cons.prems(2) by (auto simp: Sched s split: prod.splits)
    have w1: "inv w1" "now w1 = now w"
      "pending w1 = (if st = Scheduled then add_mset (entry f d w) (pending w) else pending w)"
      using Cons.prems(1) schedule_inv [of w f d] schedule_now [of w f d] schedule_pending [of w f d]
      by (auto simp: s)
    from Cons.IH [OF w1(1) r] show ?thesis using w1 i by (auto simp: Sched split: if_splits)
  next
    case Tick
    obtain out w1 where s: "tick w = (out, w1)" by fastforce
    obtain outs1 where r: "sched_run schedule tick entry es w1 = (ins, outs1, w')"
      and o: "outs = mset out + outs1"
      using Cons.prems(2) by (auto simp: Tick s split: prod.splits)
    have w1: "inv w1" "now w1 = now w + 1" "pending w = mset out + pending w1"
      using Cons.prems(1) tick_inv [of w] tick_now [of w] tick_conserves [of w] by (auto simp: s)
    from Cons.IH [OF w1(1) r] show ?thesis using w1 o by (simp add: Tick ac_simps)
  qed
qed

text \<open>An entry stays pending while fewer ticks have passed than its delay.\<close>

lemma run_keeps:
  assumes "inv w" and "e \<in># pending w" and "ticks es < unat (due e - now w)"
  shows "e \<in># pending (final (sched_run schedule tick entry es w)) \<and>
    unat (due e - now (final (sched_run schedule tick entry es w))) = unat (due e - now w) - ticks es"
  using assms
proof (induction es arbitrary: w)
  case Nil
  then show ?case by (simp add: final_def)
next
  case (Cons ev es)
  show ?case
  proof (cases ev)
    case (Sched f d)
    obtain st w1 where s: "schedule f d w = (st, w1)" by fastforce
    have w1: "inv w1" "now w1 = now w" "e \<in># pending w1"
      using Cons.prems schedule_inv [of w f d] schedule_now [of w f d] schedule_pending [of w f d]
      by (auto simp: s)
    show ?thesis using Cons.IH [OF w1(1,3)] Cons.prems(3) w1(2)
      by (auto simp: Sched s final_def split: prod.splits)
  next
    case Tick
    obtain out w1 where s: "tick w = (out, w1)" by fastforce
    have far: "1 < unat (due e - now w)" using Cons.prems(3) by (simp add: Tick)
    have w1: "inv w1" "now w1 = now w + 1" "e \<in># pending w1"
      using Cons.prems(1,2) tick_inv [of w] tick_now [of w] tick_pending [of w] distance_step(2) [OF far]
      by (auto simp: s)
    show ?thesis using Cons.IH [OF w1(1,3)] Cons.prems(3) w1(2) distance_step(1) [OF far]
      by (auto simp: Tick s final_def split: prod.splits)
  qed
qed

text \<open>
  The deadline: after one tick fewer than the remaining delay, with any calls of \<open>schedule\<close> in
  between, the next tick delivers the entry.
\<close>

lemma deadline:
  assumes "inv w" and "e \<in># pending w" and "Suc (ticks es) = unat (due e - now w)"
  shows "e \<in> set (fst (tick (final (sched_run schedule tick entry es w))))"
proof -
  let ?w = "final (sched_run schedule tick entry es w)"
  have inv': "inv ?w"
    using run_conserves [OF assms(1)] by (metis final_def prod.collapse)
  have "e \<in># pending ?w" and "unat (due e - now ?w) = 1"
    using run_keeps [OF assms(1,2)] assms(3) by (simp_all del: One_nat_def)
  moreover from this have "due e - now ?w = 1" by (simp add: word_unat_eq_iff)
  then have "due e = now ?w + 1" by (simp add: diff_eq_eq)
  ultimately have "e \<in># mset (fst (tick ?w))" using tick_out [OF inv'] by simp
  then show ?thesis by simp
qed

end

end
