(* ===== verification/Timing_Wheel.thy ===== *)
theory Timing_Wheel
  imports Chronos_Types Delay_Scheduler
begin

section \<open>The timing wheel (\<open>include/chronosx/timing_wheel.hpp\<close>)\<close>

text \<open>
  \<open>TimingWheel<SlotCount, MaxFramesPerSlot>\<close> is an array of slots, each a fixed array of delayed
  frames with a fill count; the slot of a frame is \<open>release_tick & (SlotCount - 1)\<close>. The template
  parameters are the fields \<open>tw_SlotCount\<close> and \<open>tw_MaxFramesPerSlot\<close>, which no operation changes.
  The 64-bit clock, the pending counter and the failure counter keep their width and wrap around.

  \<open>tick\<close> returns a view of the first \<open>expired_count_\<close> cells of the member array \<open>expired_\<close>; the
  model returns those cells.
\<close>

record DelayedFrame =
  df_frame_address :: u64
  df_frame_length :: u32
  df_rule_id :: u32
  df_release_tick :: u64

definition schedule_status_name :: "ScheduleStatus \<Rightarrow> string" where
  "schedule_status_name status = (case status of
      Scheduled \<Rightarrow> ''Scheduled''
    | DelayTooLarge \<Rightarrow> ''DelayTooLarge''
    | SlotFull \<Rightarrow> ''SlotFull'')"

record Slot =
  sl_frames :: "DelayedFrame list"
  sl_count :: nat

record TimingWheel =
  tw_SlotCount :: nat
  tw_MaxFramesPerSlot :: nat
  tw_slots :: "Slot list"
  tw_expired :: "DelayedFrame list"
  tw_current_tick :: u64
  tw_expired_count :: nat
  tw_pending_count :: u64
  tw_schedule_failures :: u64

definition DelayedFrame_init :: DelayedFrame where
  "DelayedFrame_init =
     \<lparr>df_frame_address = 0, df_frame_length = 0, df_rule_id = 0, df_release_tick = 0\<rparr>"

definition TimingWheel_init :: "nat \<Rightarrow> nat \<Rightarrow> TimingWheel" where
  "TimingWheel_init slot_count max_frames = \<lparr>
     tw_SlotCount = slot_count,
     tw_MaxFramesPerSlot = max_frames,
     tw_slots = replicate slot_count \<lparr>sl_frames = replicate max_frames DelayedFrame_init, sl_count = 0\<rparr>,
     tw_expired = replicate max_frames DelayedFrame_init,
     tw_current_tick = 0,
     tw_expired_count = 0,
     tw_pending_count = 0,
     tw_schedule_failures = 0\<rparr>"

definition schedule :: "DelayedFrame \<Rightarrow> u64 \<Rightarrow> TimingWheel \<Rightarrow> ScheduleStatus \<times> TimingWheel" where
  "schedule frame delay_ticks w =
     (if delay_ticks > of_nat (tw_SlotCount w) then
        (DelayTooLarge, w\<lparr>tw_schedule_failures := tw_schedule_failures w + 1\<rparr>)
      else
        let delay_ticks = (if delay_ticks = 0 then 1 else delay_ticks);
            frame = frame\<lparr>df_release_tick := tw_current_tick w + delay_ticks\<rparr>;
            index = ring_idx (tw_SlotCount w) (df_release_tick frame);
            slot = tw_slots w ! index
        in if sl_count slot \<ge> tw_MaxFramesPerSlot w then
             (SlotFull, w\<lparr>tw_schedule_failures := tw_schedule_failures w + 1\<rparr>)
           else
             (Scheduled,
              w\<lparr>tw_slots := (tw_slots w)[index :=
                   slot\<lparr>sl_frames := (sl_frames slot)[sl_count slot := frame],
                        sl_count := sl_count slot + 1\<rparr>],
                tw_pending_count := tw_pending_count w + 1\<rparr>))"

text \<open>
  The loop of \<open>tick\<close>: \<open>frames\<close> is the array of the slot, compacted in place at \<open>kept_count\<close> while it
  is scanned at \<open>index\<close>; \<open>expired\<close> is the array \<open>expired_\<close>.
\<close>

function tick_loop :: "u64 \<Rightarrow> nat \<Rightarrow> nat \<Rightarrow> DelayedFrame list \<Rightarrow> DelayedFrame list \<Rightarrow> nat \<Rightarrow> u64 \<Rightarrow> nat
    \<Rightarrow> DelayedFrame list \<times> DelayedFrame list \<times> nat \<times> u64 \<times> nat" where
  "tick_loop current_tick slot_count index frames expired expired_count pending_count kept_count =
     (if index < slot_count then
        let frame = frames ! index in
        if df_release_tick frame \<le> current_tick then
          tick_loop current_tick slot_count (index + 1) frames
            (expired[expired_count := frame]) (expired_count + 1) (pending_count - 1) kept_count
        else
          tick_loop current_tick slot_count (index + 1) (frames[kept_count := frame])
            expired expired_count pending_count (kept_count + 1)
      else (frames, expired, expired_count, pending_count, kept_count))"
  by pat_completeness auto
termination
  by (relation "measure (\<lambda>(current_tick, slot_count, index, _). slot_count - index)") auto

declare tick_loop.simps [simp del]

definition tick :: "TimingWheel \<Rightarrow> DelayedFrame list \<times> TimingWheel" where
  "tick w =
     (let current_tick = tw_current_tick w + 1;
          index = ring_idx (tw_SlotCount w) current_tick;
          slot = tw_slots w ! index;
          (frames, expired, expired_count, pending_count, kept_count) =
            tick_loop current_tick (sl_count slot) 0 (sl_frames slot) (tw_expired w) 0
              (tw_pending_count w) 0
      in (take expired_count expired,
          w\<lparr>tw_current_tick := current_tick,
            tw_expired := expired,
            tw_expired_count := expired_count,
            tw_pending_count := pending_count,
            tw_slots := (tw_slots w)[index := \<lparr>sl_frames = frames, sl_count = kept_count\<rparr>]\<rparr>))"

definition slot_pending_count :: "TimingWheel \<Rightarrow> nat \<Rightarrow> nat" where
  "slot_pending_count w slot_index =
     (if slot_index < tw_SlotCount w then sl_count (tw_slots w ! slot_index) else 0)"

definition wheel_empty :: "TimingWheel \<Rightarrow> bool" where
  "wheel_empty w \<longleftrightarrow> tw_pending_count w = 0"

definition max_delay_ticks :: "TimingWheel \<Rightarrow> u64" where
  "max_delay_ticks w = of_nat (tw_SlotCount w)"

subsection \<open>What the loop of \<open>tick\<close> computes\<close>

lemma tick_loop_spec:
  assumes "tick_loop now slot_count index frames expired ec pc kc = (frames', expired', ec', pc', kc')"
    and "kc \<le> index" "index \<le> slot_count" "slot_count \<le> length frames" "ec + (slot_count - index) \<le> length expired"
  shows "take kc' frames' = take kc frames @ filter (\<lambda>f. \<not> df_release_tick f \<le> now) (drop index (take slot_count frames)) \<and>
    take ec' expired' = take ec expired @ filter (\<lambda>f. df_release_tick f \<le> now) (drop index (take slot_count frames)) \<and>
    pc' = pc - of_nat (length (filter (\<lambda>f. df_release_tick f \<le> now) (drop index (take slot_count frames)))) \<and>
    length frames' = length frames \<and> length expired' = length expired \<and> kc' \<le> slot_count \<and> ec' \<le> length expired"
  using assms
proof (induction now slot_count index frames expired ec pc kc arbitrary: frames' expired' ec' pc' kc'
    rule: tick_loop.induct)
  case (1 now slot_count index frames expired ec pc kc)
  show ?case
  proof (cases "index < slot_count")
    case True
    let ?f = "frames ! index"
    have cons: "drop index (take slot_count frames) = ?f # drop (Suc index) (take slot_count frames)"
      using True "1.prems" by (simp add: Cons_nth_drop_Suc [symmetric] nth_take)
    show ?thesis
    proof (cases "df_release_tick ?f \<le> now")
      case due: True
      have "tick_loop now slot_count (index + 1) frames (expired[ec := ?f]) (ec + 1) (pc - 1) kc =
          (frames', expired', ec', pc', kc')"
        using "1.prems"(1) True due by (subst (asm) tick_loop.simps) (simp add: Let_def)
      from "1.IH"(1) [OF True refl due this] show ?thesis
        using "1.prems" True due cons
        by (simp add: take_Suc_conv_app_nth diff_diff_eq)
    next
      case keep: False
      have "tick_loop now slot_count (index + 1) (frames[kc := ?f]) expired ec pc (kc + 1) =
          (frames', expired', ec', pc', kc')"
        using "1.prems"(1) True keep by (subst (asm) tick_loop.simps) (simp add: Let_def)
      from "1.IH"(2) [OF True refl keep this] show ?thesis
        using "1.prems" True keep cons
        by (auto simp: take_Suc_conv_app_nth take_update_swap drop_update_cancel list_update_append)
    qed
  next
    case False
    then show ?thesis using "1.prems" by (subst (asm) tick_loop.simps) auto
  qed
qed

subsection \<open>Invariant and the bag of pending frames\<close>

definition slot_live :: "Slot \<Rightarrow> DelayedFrame list" where
  "slot_live slot = take (sl_count slot) (sl_frames slot)"

definition wheel_pending :: "TimingWheel \<Rightarrow> DelayedFrame multiset" where
  "wheel_pending w = mset (concat (map slot_live (tw_slots w)))"

text \<open>Distance of a release time from the clock; it is meaningful across the wrap-around.\<close>

definition remaining :: "TimingWheel \<Rightarrow> DelayedFrame \<Rightarrow> nat" where
  "remaining w f = unat (df_release_tick f - tw_current_tick w)"

definition slot_ok :: "TimingWheel \<Rightarrow> nat \<Rightarrow> Slot \<Rightarrow> bool" where
  "slot_ok w i slot \<longleftrightarrow> length (sl_frames slot) = tw_MaxFramesPerSlot w \<and>
     sl_count slot \<le> tw_MaxFramesPerSlot w \<and>
     (\<forall>f \<in> set (slot_live slot). ring_idx (tw_SlotCount w) (df_release_tick f) = i \<and>
        1 \<le> remaining w f \<and> remaining w f \<le> tw_SlotCount w)"

definition wheel_inv :: "TimingWheel \<Rightarrow> bool" where
  "wheel_inv w \<longleftrightarrow> is_pow2 (tw_SlotCount w) \<and> length (tw_slots w) = tw_SlotCount w \<and>
     length (tw_expired w) = tw_MaxFramesPerSlot w \<and>
     (\<forall>i < tw_SlotCount w. slot_ok w i (tw_slots w ! i)) \<and>
     tw_pending_count w = of_nat (size (wheel_pending w))"

lemma wheel_inv_init: "is_pow2 n \<Longrightarrow> wheel_inv (TimingWheel_init n m)"
  by (simp add: wheel_inv_def TimingWheel_init_def slot_ok_def slot_live_def wheel_pending_def)

lemma wheel_pending_init [simp]: "wheel_pending (TimingWheel_init n m) = {#}"
  by (simp add: TimingWheel_init_def slot_live_def wheel_pending_def)

lemma mset_concat_update:
  "i < length xs \<Longrightarrow> mset (concat (map g (xs[i := y]))) + mset (g (xs ! i)) =
     mset (concat (map g xs)) + mset (g y)"
proof (induction xs arbitrary: i)
  case Nil
  then show ?case by simp
next
  case (Cons a xs)
  then show ?case by (cases i) (simp_all add: ac_simps)
qed

lemma in_wheel_pending:
  "f \<in># wheel_pending w \<longleftrightarrow> (\<exists>i < length (tw_slots w). f \<in> set (slot_live (tw_slots w ! i)))"
  by (simp add: wheel_pending_def) (metis in_set_conv_nth)

text \<open>
  The slot that \<open>tick\<close> visits holds exactly the frames of the next tick: two release times in one
  slot differ by a multiple of \<open>SlotCount\<close>, and no frame waits longer than that.
\<close>

lemma due_iff_slot:
  assumes "is_pow2 n" "1 \<le> unat (r - t :: u64)" "unat (r - t) \<le> n"
  shows "ring_idx n r = ring_idx n (t + 1) \<longleftrightarrow> r = t + 1"
proof -
  define d where "d = unat (r - t) - 1"
  have d: "unat (r - t) = Suc d" "d < n" using assms(2,3) by (simp_all add: d_def)
  have "r - t = of_nat (unat (r - t))" by simp
  then have "r - t = of_nat (Suc d)" by (simp only: d(1))
  then have r: "r = (t + 1) + of_nat d" by (simp add: diff_eq_eq ac_simps)
  have "ring_idx n ((t + 1) + of_nat d) = ring_idx n ((t + 1) + of_nat 0) \<longleftrightarrow> d = 0"
    using d(2) by (intro ring_idx_inj [OF assms(1)]) simp_all
  moreover have "d = 0 \<longleftrightarrow> r = t + 1" using d(1) r by auto
  ultimately show ?thesis using r by simp
qed

lemma slot_ok_cong:
  assumes "tw_SlotCount w' = tw_SlotCount w" "tw_MaxFramesPerSlot w' = tw_MaxFramesPerSlot w"
    and "tw_current_tick w' = tw_current_tick w"
  shows "slot_ok w' i slot \<longleftrightarrow> slot_ok w i slot"
  using assms by (simp add: slot_ok_def remaining_def)

subsection \<open>\<open>schedule\<close>\<close>

text \<open>The entry that a successful call stores.\<close>

definition scheduled_frame :: "DelayedFrame \<Rightarrow> u64 \<Rightarrow> TimingWheel \<Rightarrow> DelayedFrame" where
  "scheduled_frame f d w = f\<lparr>df_release_tick := tw_current_tick w + (if d = 0 then 1 else d)\<rparr>"

definition schedule_slot :: "DelayedFrame \<Rightarrow> u64 \<Rightarrow> TimingWheel \<Rightarrow> nat" where
  "schedule_slot f d w = ring_idx (tw_SlotCount w) (df_release_tick (scheduled_frame f d w))"

definition slot_append :: "Slot \<Rightarrow> DelayedFrame \<Rightarrow> Slot" where
  "slot_append slot f = slot\<lparr>sl_frames := (sl_frames slot)[sl_count slot := f], sl_count := sl_count slot + 1\<rparr>"

lemma slot_append_simps [simp]:
  "sl_count (slot_append slot f) = sl_count slot + 1"
  "length (sl_frames (slot_append slot f)) = length (sl_frames slot)"
  by (simp_all add: slot_append_def)

lemma schedule_cases:
  "schedule f d w =
    (if d > of_nat (tw_SlotCount w) then (DelayTooLarge, w\<lparr>tw_schedule_failures := tw_schedule_failures w + 1\<rparr>)
     else if sl_count (tw_slots w ! schedule_slot f d w) \<ge> tw_MaxFramesPerSlot w
     then (SlotFull, w\<lparr>tw_schedule_failures := tw_schedule_failures w + 1\<rparr>)
     else (Scheduled, w\<lparr>tw_slots := (tw_slots w)[schedule_slot f d w :=
          slot_append (tw_slots w ! schedule_slot f d w) (scheduled_frame f d w)],
        tw_pending_count := tw_pending_count w + 1\<rparr>))"
  by (simp add: schedule_def schedule_slot_def scheduled_frame_def slot_append_def Let_def)

lemma scheduled_remaining:
  assumes "is_pow2 (tw_SlotCount w)" "\<not> d > of_nat (tw_SlotCount w)"
  shows "remaining w (scheduled_frame f d w) = (if d = 0 then 1 else unat d)"
    and "remaining w (scheduled_frame f d w) \<le> tw_SlotCount w"
    and "1 \<le> remaining w (scheduled_frame f d w)"
proof -
  show r: "remaining w (scheduled_frame f d w) = (if d = 0 then 1 else unat d)"
    by (simp add: remaining_def scheduled_frame_def)
  show "remaining w (scheduled_frame f d w) \<le> tw_SlotCount w"
    using assms is_pow2_gt0 [OF assms(1)] is_pow2_lt [OF assms(1)]
    by (simp add: r not_less word_le_nat_alt unat_of_nat)
  show "1 \<le> remaining w (scheduled_frame f d w)"
    by (simp add: r Suc_le_eq unat_gt_0)
qed

lemma schedule_slot_less: "is_pow2 (tw_SlotCount w) \<Longrightarrow> schedule_slot f d w < tw_SlotCount w"
  by (simp add: schedule_slot_def)

lemma slot_live_append:
  "sl_count slot < length (sl_frames slot) \<Longrightarrow> slot_live (slot_append slot f) = slot_live slot @ [f]"
  by (simp add: slot_live_def slot_append_def take_Suc_conv_app_nth)

lemma schedule_ok:
  assumes inv: "wheel_inv w" and st: "fst (schedule f d w) = Scheduled"
  shows "wheel_inv (snd (schedule f d w))"
    and "wheel_pending (snd (schedule f d w)) = add_mset (scheduled_frame f d w) (wheel_pending w)"
proof -
  let ?i = "schedule_slot f d w" and ?w = "snd (schedule f d w)"
  let ?slot = "tw_slots w ! ?i"
  let ?slot' = "slot_append ?slot (scheduled_frame f d w)"
  have n: "is_pow2 (tw_SlotCount w)" and len: "length (tw_slots w) = tw_SlotCount w"
    and slots: "\<And>i. i < tw_SlotCount w \<Longrightarrow> slot_ok w i (tw_slots w ! i)"
    using inv by (auto simp: wheel_inv_def)
  have d: "\<not> d > of_nat (tw_SlotCount w)" and room: "sl_count ?slot < tw_MaxFramesPerSlot w"
    and w': "?w = w\<lparr>tw_slots := (tw_slots w)[?i := ?slot'], tw_pending_count := tw_pending_count w + 1\<rparr>"
    using st by (auto simp: schedule_cases split: if_splits)
  have i: "?i < tw_SlotCount w" using n by (rule schedule_slot_less)
  have live: "slot_live ?slot' = slot_live ?slot @ [scheduled_frame f d w]"
    using slot_live_append room slots [OF i] by (simp add: slot_ok_def)
  have "slot_ok w ?i ?slot'"
    using slots [OF i] room live scheduled_remaining [OF n d, of f]
    by (auto simp: slot_ok_def schedule_slot_def)
  moreover have cong: "slot_ok ?w j s \<longleftrightarrow> slot_ok w j s" for j s
    by (rule slot_ok_cong) (simp_all add: w')
  ultimately have ok: "slot_ok ?w j (tw_slots ?w ! j)" if "j < tw_SlotCount w" for j
    using that slots [OF that] i len by (simp only: cong) (auto simp: w' nth_list_update)
  have "wheel_pending ?w + mset (slot_live ?slot) = wheel_pending w + mset (slot_live ?slot')"
    using mset_concat_update [of ?i "tw_slots w" slot_live ?slot'] i len by (simp add: w' wheel_pending_def)
  then show pend: "wheel_pending ?w = add_mset (scheduled_frame f d w) (wheel_pending w)"
    by (simp add: live)
  show "wheel_inv ?w"
    using inv ok pend by (simp add: wheel_inv_def w' len)
qed

lemma schedule_failed:
  "fst (schedule f d w) \<noteq> Scheduled \<Longrightarrow>
     snd (schedule f d w) = w\<lparr>tw_schedule_failures := tw_schedule_failures w + 1\<rparr>"
  by (auto simp: schedule_cases split: if_splits)

lemma wheel_failures_irrelevant [simp]:
  "wheel_inv (w\<lparr>tw_schedule_failures := k\<rparr>) \<longleftrightarrow> wheel_inv w"
  "wheel_pending (w\<lparr>tw_schedule_failures := k\<rparr>) = wheel_pending w"
  by (simp_all add: wheel_inv_def wheel_pending_def slot_ok_def remaining_def)

lemma schedule_inv: "wheel_inv w \<Longrightarrow> wheel_inv (snd (schedule f d w))"
  using schedule_ok(1) [of w f d] schedule_failed [of f d w]
  by (cases "fst (schedule f d w) = Scheduled") simp_all

lemma schedule_pending:
  "wheel_inv w \<Longrightarrow> wheel_pending (snd (schedule f d w)) =
     (if fst (schedule f d w) = Scheduled then add_mset (scheduled_frame f d w) (wheel_pending w)
      else wheel_pending w)"
  using schedule_ok(2) [of w f d] schedule_failed [of f d w] by simp

lemma schedule_const [simp]:
  "tw_current_tick (snd (schedule f d w)) = tw_current_tick w"
  "tw_SlotCount (snd (schedule f d w)) = tw_SlotCount w"
  "tw_MaxFramesPerSlot (snd (schedule f d w)) = tw_MaxFramesPerSlot w"
  by (simp_all add: schedule_cases)

subsection \<open>\<open>tick\<close>\<close>

definition tick_slot :: "TimingWheel \<Rightarrow> nat" where
  "tick_slot w = ring_idx (tw_SlotCount w) (tw_current_tick w + 1)"

lemma live_in_slot_due:
  assumes "wheel_inv w" "j < tw_SlotCount w" "f \<in> set (slot_live (tw_slots w ! j))"
  shows "df_release_tick f = tw_current_tick w + 1 \<longleftrightarrow> j = tick_slot w"
proof -
  have "slot_ok w j (tw_slots w ! j)" and n: "is_pow2 (tw_SlotCount w)"
    using assms by (auto simp: wheel_inv_def)
  then have "ring_idx (tw_SlotCount w) (df_release_tick f) = j" "1 \<le> remaining w f"
    "remaining w f \<le> tw_SlotCount w" using assms(3) by (auto simp: slot_ok_def)
  then show ?thesis
    using due_iff_slot [OF n, of "df_release_tick f" "tw_current_tick w"]
    by (auto simp: tick_slot_def remaining_def)
qed

text \<open>
  The visited slot is emptied completely and in the order in which its frames were scheduled; nothing
  else of the wheel changes but the clock and the pending counter.
\<close>

lemma tick_effect:
  assumes inv: "wheel_inv w"
  obtains frames expired where
    "tick w = (slot_live (tw_slots w ! tick_slot w),
       w\<lparr>tw_current_tick := tw_current_tick w + 1, tw_expired := expired,
         tw_expired_count := length (slot_live (tw_slots w ! tick_slot w)),
         tw_pending_count := tw_pending_count w - of_nat (length (slot_live (tw_slots w ! tick_slot w))),
         tw_slots := (tw_slots w)[tick_slot w := \<lparr>sl_frames = frames, sl_count = 0\<rparr>]\<rparr>)"
    and "length frames = tw_MaxFramesPerSlot w" and "length expired = tw_MaxFramesPerSlot w"
proof -
  let ?slot = "tw_slots w ! tick_slot w" and ?now = "tw_current_tick w + 1"
  have n: "is_pow2 (tw_SlotCount w)" using inv by (simp add: wheel_inv_def)
  then have i: "tick_slot w < tw_SlotCount w" by (simp add: tick_slot_def)
  have slot: "length (sl_frames ?slot) = tw_MaxFramesPerSlot w" "sl_count ?slot \<le> tw_MaxFramesPerSlot w"
    "length (tw_expired w) = tw_MaxFramesPerSlot w" using inv i by (auto simp: wheel_inv_def slot_ok_def)
  have due: "\<forall>f \<in> set (slot_live ?slot). df_release_tick f \<le> ?now"
    using live_in_slot_due [OF inv i] by fastforce
  obtain frames expired ec pc kc where loop: "tick_loop ?now (sl_count ?slot) 0 (sl_frames ?slot) (tw_expired w) 0
      (tw_pending_count w) 0 = (frames, expired, ec, pc, kc)" by (metis prod_cases5)
  note spec = tick_loop_spec [OF loop, simplified, folded slot_live_def, OF _ _]
  have fil: "filter (\<lambda>f. df_release_tick f \<le> ?now) (slot_live ?slot) = slot_live ?slot"
    "filter (\<lambda>f. \<not> df_release_tick f \<le> ?now) (slot_live ?slot) = []"
    using due by (auto simp: filter_id_conv)
  have s: "take kc frames = []" "take ec expired = slot_live ?slot"
    "pc = tw_pending_count w - of_nat (length (slot_live ?slot))" "length frames = length (sl_frames ?slot)"
    "length expired = length (tw_expired w)" "kc \<le> sl_count ?slot" "ec \<le> length expired"
    using spec slot fil by (auto simp: slot_live_def)
  have "kc = 0" using s slot by (cases frames) auto
  moreover have "ec = length (slot_live ?slot)" using s by (metis length_take min.absorb2)
  ultimately have "tick w = (slot_live ?slot,
       w\<lparr>tw_current_tick := ?now, tw_expired := expired, tw_expired_count := length (slot_live ?slot),
         tw_pending_count := tw_pending_count w - of_nat (length (slot_live ?slot)),
         tw_slots := (tw_slots w)[tick_slot w := \<lparr>sl_frames = frames, sl_count = 0\<rparr>]\<rparr>)"
    using loop s by (simp add: tick_def Let_def tick_slot_def [symmetric])
  then show ?thesis using that s slot by simp
qed

lemma tick_pending_split:
  assumes inv: "wheel_inv w"
  shows "wheel_pending w = mset (fst (tick w)) + wheel_pending (snd (tick w))"
    and "f \<in> set (fst (tick w)) \<Longrightarrow> df_release_tick f = tw_current_tick w + 1"
    and "f \<in># wheel_pending (snd (tick w)) \<Longrightarrow> df_release_tick f \<noteq> tw_current_tick w + 1"
proof -
  have n: "is_pow2 (tw_SlotCount w)" and len: "length (tw_slots w) = tw_SlotCount w"
    using inv by (auto simp: wheel_inv_def)
  then have i: "tick_slot w < tw_SlotCount w" by (simp add: tick_slot_def)
  obtain frames expired where t: "tick w = (slot_live (tw_slots w ! tick_slot w),
       w\<lparr>tw_current_tick := tw_current_tick w + 1, tw_expired := expired,
         tw_expired_count := length (slot_live (tw_slots w ! tick_slot w)),
         tw_pending_count := tw_pending_count w - of_nat (length (slot_live (tw_slots w ! tick_slot w))),
         tw_slots := (tw_slots w)[tick_slot w := \<lparr>sl_frames = frames, sl_count = 0\<rparr>]\<rparr>)"
    using tick_effect [OF inv] .
  have e: "slot_live \<lparr>sl_frames = frames, sl_count = 0\<rparr> = []" by (simp add: slot_live_def)
  show "wheel_pending w = mset (fst (tick w)) + wheel_pending (snd (tick w))"
    using mset_concat_update [of "tick_slot w" "tw_slots w" slot_live "\<lparr>sl_frames = frames, sl_count = 0\<rparr>"] i len
    by (simp add: t wheel_pending_def e add.commute)
  show "df_release_tick f = tw_current_tick w + 1" if "f \<in> set (fst (tick w))"
    using live_in_slot_due [OF inv i] that by (simp add: t)
  show "df_release_tick f \<noteq> tw_current_tick w + 1" if pend: "f \<in># wheel_pending (snd (tick w))"
  proof -
    obtain j where j: "j < tw_SlotCount w" and f: "f \<in> set (slot_live (tw_slots (snd (tick w)) ! j))"
      using pend len by (auto simp: in_wheel_pending t)
    then have "j \<noteq> tick_slot w" using len by (auto simp: t e)
    then show ?thesis using live_in_slot_due [OF inv j] f by (simp add: t)
  qed
qed

lemma tick_const [simp]:
  "tw_current_tick (snd (tick w)) = tw_current_tick w + 1"
  "tw_SlotCount (snd (tick w)) = tw_SlotCount w"
  "tw_MaxFramesPerSlot (snd (tick w)) = tw_MaxFramesPerSlot w"
  by (simp_all add: tick_def Let_def split: prod.splits)

lemma slot_ok_advance:
  assumes "slot_ok w i slot" "tw_SlotCount w' = tw_SlotCount w" "tw_MaxFramesPerSlot w' = tw_MaxFramesPerSlot w"
    and "tw_current_tick w' = tw_current_tick w + 1"
    and "\<And>f. f \<in> set (slot_live slot) \<Longrightarrow> df_release_tick f \<noteq> tw_current_tick w + 1"
  shows "slot_ok w' i slot"
proof -
  have "1 \<le> remaining w' f \<and> remaining w' f \<le> tw_SlotCount w" if f: "f \<in> set (slot_live slot)" for f
  proof -
    have r: "1 \<le> remaining w f" "remaining w f \<le> tw_SlotCount w" using assms(1) f by (auto simp: slot_ok_def)
    have "df_release_tick f - tw_current_tick w \<noteq> 1"
      using assms(5) [OF f] by (simp add: diff_eq_eq add.commute)
    then have "remaining w f \<noteq> 1" by (simp add: remaining_def word_unat_eq_iff)
    with r have far: "1 < unat (df_release_tick f - tw_current_tick w)" by (simp add: remaining_def)
    then show ?thesis using distance_step(1) [OF far] r
      by (simp add: remaining_def assms(4)) arith
  qed
  then show ?thesis using assms(1-3) by (auto simp: slot_ok_def)
qed

lemma tick_inv: assumes inv: "wheel_inv w" shows "wheel_inv (snd (tick w))"
proof -
  have n: "is_pow2 (tw_SlotCount w)" and len: "length (tw_slots w) = tw_SlotCount w"
    and slots: "\<And>i. i < tw_SlotCount w \<Longrightarrow> slot_ok w i (tw_slots w ! i)"
    using inv by (auto simp: wheel_inv_def)
  obtain frames expired where t: "tick w = (slot_live (tw_slots w ! tick_slot w),
       w\<lparr>tw_current_tick := tw_current_tick w + 1, tw_expired := expired,
         tw_expired_count := length (slot_live (tw_slots w ! tick_slot w)),
         tw_pending_count := tw_pending_count w - of_nat (length (slot_live (tw_slots w ! tick_slot w))),
         tw_slots := (tw_slots w)[tick_slot w := \<lparr>sl_frames = frames, sl_count = 0\<rparr>]\<rparr>)"
    and l: "length frames = tw_MaxFramesPerSlot w" "length expired = tw_MaxFramesPerSlot w"
    using tick_effect [OF inv] .
  have "slot_ok (snd (tick w)) j (tw_slots (snd (tick w)) ! j)" if j: "j < tw_SlotCount w" for j
  proof (cases "j = tick_slot w")
    case True
    then show ?thesis using j len l by (simp add: t slot_ok_def slot_live_def)
  next
    case False
    then have "tw_slots (snd (tick w)) ! j = tw_slots w ! j" by (simp add: t)
    moreover have "slot_ok (snd (tick w)) j (tw_slots w ! j)"
      by (rule slot_ok_advance [OF slots [OF j]]) (use live_in_slot_due [OF inv j] False in auto)
    ultimately show ?thesis by simp
  qed
  moreover have "tw_pending_count (snd (tick w)) = of_nat (size (wheel_pending (snd (tick w))))"
  proof -
    have "size (wheel_pending w) = length (fst (tick w)) + size (wheel_pending (snd (tick w)))"
      using arg_cong [OF tick_pending_split(1) [OF inv], of size] by simp
    moreover have "tw_pending_count (snd (tick w)) = tw_pending_count w - of_nat (length (fst (tick w)))"
      by (simp add: t)
    ultimately show ?thesis using inv by (simp add: wheel_inv_def)
  qed
  moreover have "length (tw_slots (snd (tick w))) = tw_SlotCount w"
    "length (tw_expired (snd (tick w))) = tw_MaxFramesPerSlot w" by (simp_all add: t len l)
  ultimately show ?thesis using n by (simp add: wheel_inv_def)
qed

lemma filter_split_mset:
  assumes "M = A + B" "\<And>x. x \<in># A \<Longrightarrow> P x" "\<And>x. x \<in># B \<Longrightarrow> \<not> P x"
  shows "filter_mset P M = A" "filter_mset (\<lambda>x. \<not> P x) M = B"
  by (rule multiset_eqI, use assms in \<open>auto simp: not_in_iff [symmetric]\<close>)+

lemma tick_filters:
  assumes "wheel_inv w"
  shows "mset (fst (tick w)) = filter_mset (\<lambda>f. df_release_tick f = tw_current_tick w + 1) (wheel_pending w)"
    and "wheel_pending (snd (tick w)) = filter_mset (\<lambda>f. df_release_tick f \<noteq> tw_current_tick w + 1) (wheel_pending w)"
  using filter_split_mset [OF tick_pending_split(1) [OF assms], of "\<lambda>f. df_release_tick f = tw_current_tick w + 1"]
    tick_pending_split(2,3) [OF assms] by simp_all

lemma wheel_pending_due:
  "wheel_inv w \<Longrightarrow> f \<in># wheel_pending w \<Longrightarrow> 1 \<le> remaining w f \<and> remaining w f \<le> tw_SlotCount w"
  by (auto simp: in_wheel_pending wheel_inv_def slot_ok_def)

interpretation wheel: delay_scheduler wheel_inv tw_current_tick wheel_pending df_release_tick tw_SlotCount
  scheduled_frame schedule tick
  by unfold_locales
    (auto simp: schedule_inv schedule_pending tick_inv tick_filters
      dest: wheel_pending_due [unfolded remaining_def])

subsection \<open>Properties of the wheel\<close>

text \<open>A tick advances the clock by one and returns exactly the pending frames whose release time is
  the new time; all other frames stay pending and the invariant (every pending frame is in the slot of
  its release time, at most \<open>SlotCount\<close> ticks ahead of the clock) is kept.\<close>

lemma tick_releases_exactly_due:
  assumes "wheel_inv w"
  shows "(case tick w of (out, w') \<Rightarrow> wheel_inv w' \<and> tw_current_tick w' = tw_current_tick w + 1 \<and>
    mset out = filter_mset (\<lambda>f. df_release_tick f = tw_current_tick w + 1) (wheel_pending w) \<and>
    wheel_pending w' = filter_mset (\<lambda>f. df_release_tick f \<noteq> tw_current_tick w + 1) (wheel_pending w))"
  using tick_inv [OF assms] tick_filters [OF assms] tick_const(1) [of w] by (cases "tick w") simp

text \<open>\<open>schedule\<close> rejects a delay above \<open>SlotCount\<close> ticks and a full slot, counting the failure and
  changing nothing else; otherwise it adds the frame with release time \<open>now + max 1 delay\<close>.\<close>

lemma schedule_outcome:
  assumes "wheel_inv w"
  shows "(case schedule f d w of (st, w') \<Rightarrow> wheel_inv w' \<and>
     (st = DelayTooLarge \<longleftrightarrow> tw_SlotCount w < unat d) \<and>
     (st = SlotFull \<longleftrightarrow> unat d \<le> tw_SlotCount w \<and>
        length (slot_live (tw_slots w ! schedule_slot f d w)) = tw_MaxFramesPerSlot w) \<and>
     (st \<noteq> Scheduled \<longrightarrow> w' = w\<lparr>tw_schedule_failures := tw_schedule_failures w + 1\<rparr>) \<and>
     (st = Scheduled \<longrightarrow> wheel_pending w' = add_mset (scheduled_frame f d w) (wheel_pending w) \<and>
        remaining w' (scheduled_frame f d w) = max 1 (unat d)))"
proof -
  have n: "is_pow2 (tw_SlotCount w)" using assms by (simp add: wheel_inv_def)
  have big: "d > of_nat (tw_SlotCount w) \<longleftrightarrow> tw_SlotCount w < unat d"
    using is_pow2_lt [OF n] by (simp add: word_less_nat_alt unat_of_nat)
  have slot: "slot_ok w (schedule_slot f d w) (tw_slots w ! schedule_slot f d w)"
    using assms schedule_slot_less [OF n] by (simp add: wheel_inv_def)
  then have full: "length (slot_live (tw_slots w ! schedule_slot f d w)) = tw_MaxFramesPerSlot w \<longleftrightarrow>
      sl_count (tw_slots w ! schedule_slot f d w) \<ge> tw_MaxFramesPerSlot w"
    by (auto simp: slot_ok_def slot_live_def)
  have st: "fst (schedule f d w) = (if tw_SlotCount w < unat d then DelayTooLarge
      else if length (slot_live (tw_slots w ! schedule_slot f d w)) = tw_MaxFramesPerSlot w then SlotFull
      else Scheduled)"
    by (simp add: schedule_cases big full)
  have rem: "remaining (snd (schedule f d w)) (scheduled_frame f d w) = (if d = 0 then 1 else unat d)"
    by (simp add: remaining_def scheduled_frame_def)
  have "(if d = 0 then 1 else unat d) = max 1 (unat d)"
    using unat_gt_0 [of d] by auto
  then show ?thesis
    using schedule_inv [OF assms, of f d] schedule_pending [OF assms, of f d] schedule_failed [of f d w] st rem
    by (cases "schedule f d w") auto
qed

text \<open>C2: The deadline of a delayed frame is exact. After \<open>schedule\<close> has accepted a frame with delay \<open>d\<close>
  (0 counts as 1), the frame is pending until the tick number \<open>d\<close> and is returned by that tick, whatever
  calls of \<open>schedule\<close> come in between and even if the 64-bit clock wraps around meanwhile.\<close>

theorem wheel_deadline_exact:
  assumes "wheel_inv w" and "schedule f d w = (Scheduled, w1)"
  shows "(ticks es < max 1 (unat d) \<longrightarrow>
      scheduled_frame f d w \<in># wheel_pending (final (sched_run schedule tick scheduled_frame es w1))) \<and>
    (Suc (ticks es) = max 1 (unat d) \<longrightarrow>
      scheduled_frame f d w \<in> set (fst (tick (final (sched_run schedule tick scheduled_frame es w1)))))"
proof -
  have w1: "wheel_inv w1" "scheduled_frame f d w \<in># wheel_pending w1"
    using schedule_inv [OF assms(1), of f d] schedule_pending [OF assms(1), of f d] assms(2) by simp_all
  have "remaining (snd (schedule f d w)) (scheduled_frame f d w) = (if d = 0 then 1 else unat d)"
    by (simp add: remaining_def scheduled_frame_def)
  then have "remaining w1 (scheduled_frame f d w) = max 1 (unat d)" using unat_gt_0 [of d] assms(2) by auto
  note w1 = w1 this
  show ?thesis
    using wheel.run_keeps [OF w1(1,2), of es] wheel.deadline [OF w1(1,2), of es] w1(3)
    unfolding remaining_def by simp
qed

text \<open>Over any sequence of calls on a new wheel, the accepted frames are exactly the released frames
  and the still pending ones (no frame is lost or released twice), the clock counts the ticks, and the
  pending counter is the number of pending frames.\<close>

lemma wheel_conserves_frames:
  assumes "is_pow2 n" and "sched_run schedule tick scheduled_frame es (TimingWheel_init n m) = (ins, outs, w')"
  shows "ins = outs + wheel_pending w' \<and> tw_current_tick w' = of_nat (ticks es) \<and>
    tw_pending_count w' = of_nat (size (wheel_pending w'))"
  using wheel.run_conserves [OF wheel_inv_init [OF assms(1)] assms(2)]
  by (simp add: wheel_inv_def) (simp add: TimingWheel_init_def)

subsection \<open>Witnesses: a wheel whose clock is about to wrap around\<close>

definition wrap_wheel :: TimingWheel where
  "wrap_wheel = (TimingWheel_init 4 1)\<lparr>tw_current_tick := - 1\<rparr>"

lemma four_is_pow2: "is_pow2 4"
  by (rule is_pow2I [of _ 2]) simp_all

lemma wrap_wheel_inv: "wheel_inv wrap_wheel"
  using four_is_pow2
  by (simp add: wheel_inv_def wrap_wheel_def TimingWheel_init_def slot_ok_def slot_live_def wheel_pending_def)

definition wrap_wheel1 :: TimingWheel where
  "wrap_wheel1 = snd (schedule DelayedFrame_init 3 wrap_wheel)"

lemma wrap_wheel1_schedule: "schedule DelayedFrame_init 3 wrap_wheel = (Scheduled, wrap_wheel1)"
proof -
  have "fst (schedule DelayedFrame_init 3 wrap_wheel) = Scheduled" by code_simp
  then show ?thesis by (simp add: wrap_wheel1_def prod_eq_iff)
qed

lemma wrap_wheel1_inv: "wheel_inv wrap_wheel1"
  using schedule_inv [OF wrap_wheel_inv, of DelayedFrame_init 3] by (simp add: wrap_wheel1_def)

lemma wheel_deadline_exact_witness:
  "scheduled_frame DelayedFrame_init 3 wrap_wheel \<in>
     set (fst (tick (final (sched_run schedule tick scheduled_frame [Tick, Sched DelayedFrame_init 1, Tick] wrap_wheel1))))"
  using wheel_deadline_exact [OF wrap_wheel_inv wrap_wheel1_schedule, of "[Tick, Sched DelayedFrame_init 1, Tick]"]
  by simp

end
