(* ===== verification/Data_Plane.thy ===== *)
theory Data_Plane
  imports Chaos_Engine Timing_Wheel
begin

section \<open>The data plane (\<open>include/chronosx/data_plane.hpp\<close>)\<close>

text \<open>
  \<open>process_packet_batch\<close> takes a batch of received descriptors and decides, for every one, whether its
  frame is transmitted, put into the timing wheel or recycled. The packet memory is one byte list
  (\<open>None\<close> is the null pointer); frames are ranges of it, and all reads and writes go through the
  guarded accesses of the prelude, so that the result \<open>None\<close> is an access outside the packet memory.
  The counters keep their 64 bits; the fill counts of the two output arrays are bounded by the
  arrays and are natural numbers.
\<close>

definition kDataPlaneBatchSize :: nat where "kDataPlaneBatchSize = 64"
definition kDefaultTimingWheelTickNs :: u64 where "kDefaultTimingWheelTickNs = 1000000"

record PacketDescriptor =
  pd_frame_address :: u64
  pd_frame_length :: u32
  pd_options :: u32

record ProcessedFrame =
  pf_frame_address :: u64
  pf_frame_length :: u32
  pf_rule_id :: u32
  pf_action :: PacketAction

record DataPlaneBatchStats =
  bs_packets_seen :: u64
  bs_packets_dropped :: u64
  bs_packets_delayed :: u64
  bs_packets_corrupted :: u64
  bs_packets_malformed :: u64
  bs_tx_frames :: u64
  bs_recycle_frames :: u64
  bs_schedule_failures :: u64
  bs_output_overflows :: u64
  bs_invalid_descriptors :: u64
  bs_bytes_seen :: u64

definition DataPlaneBatchStats_init :: DataPlaneBatchStats where
  "DataPlaneBatchStats_init = \<lparr>bs_packets_seen = 0, bs_packets_dropped = 0, bs_packets_delayed = 0,
     bs_packets_corrupted = 0, bs_packets_malformed = 0, bs_tx_frames = 0, bs_recycle_frames = 0,
     bs_schedule_failures = 0, bs_output_overflows = 0, bs_invalid_descriptors = 0, bs_bytes_seen = 0\<rparr>"

record DataPlaneBatchResult =
  br_stats :: DataPlaneBatchStats
  br_tx_count :: nat
  br_recycle_count :: nat

definition DataPlaneBatchResult_init :: DataPlaneBatchResult where
  "DataPlaneBatchResult_init = \<lparr>br_stats = DataPlaneBatchStats_init, br_tx_count = 0, br_recycle_count = 0\<rparr>"

definition delay_ns_to_ticks :: "u64 \<Rightarrow> u64 \<Rightarrow> u64" where
  "delay_ns_to_ticks delay_ns tick_ns =
     (if delay_ns = 0 then 1
      else if tick_ns = 0 then delay_ns
      else (delay_ns + tick_ns - 1) div tick_ns)"

text \<open>\<open>swap_ethernet_macs\<close> works on the span of \<open>span_size\<close> bytes at \<open>base\<close>; the loop runs \<open>n\<close> more times.\<close>

fun swap_loop :: "bytes \<Rightarrow> nat \<Rightarrow> nat \<Rightarrow> nat \<Rightarrow> bytes option" where
  "swap_loop umem base index 0 = Some umem"
| "swap_loop umem base index (Suc n) = do {
     temporary \<leftarrow> rd umem (base + index);
     b \<leftarrow> rd umem (base + (index + 6));
     umem \<leftarrow> wr umem (base + index) b;
     umem \<leftarrow> wr umem (base + (index + 6)) temporary;
     swap_loop umem base (index + 1) n
   }"

definition swap_ethernet_macs :: "bytes \<Rightarrow> nat \<Rightarrow> nat \<Rightarrow> (bool \<times> bytes) option" where
  "swap_ethernet_macs umem base span_size =
     (if span_size < kEthernetHeaderBytes then Some (False, umem)
      else do { umem \<leftarrow> swap_loop umem base 0 6; Some (True, umem) })"

text \<open>The frame pointer of \<open>corrupt_packet_payload\<close> is the offset \<open>base\<close> into the packet memory.\<close>

definition corrupt_packet_payload :: "bytes \<Rightarrow> nat option \<Rightarrow> PacketView \<Rightarrow> u64 \<Rightarrow> (bool \<times> bytes) option" where
  "corrupt_packet_payload umem frame packet selector =
     (case frame of
        None \<Rightarrow> Some (False, umem)
      | Some base \<Rightarrow>
          if \<not> view_ok packet \<or> pv_payload_length packet = 0 \<or> pv_payload_offset packet \<ge> pv_frame_length packet
          then Some (False, umem)
          else
            let byte_offset = pv_payload_offset packet + unat selector mod pv_payload_length packet in
            if byte_offset \<ge> pv_frame_length packet then Some (False, umem)
            else do {
              b \<leftarrow> rd umem (base + byte_offset);
              umem \<leftarrow> wr umem (base + byte_offset) (b XOR 0x01);
              Some (True, umem)
            })"

definition descriptor_within_umem :: "PacketDescriptor \<Rightarrow> nat \<Rightarrow> bool" where
  "descriptor_within_umem descriptor umem_size =
     (if unat (pd_frame_address descriptor) > 2 ^ 64 - 1 then False
      else
        let address = unat (pd_frame_address descriptor) in
        if address > umem_size then False
        else unat (pd_frame_length descriptor) \<le> umem_size - address)"

definition append_recycle :: "ProcessedFrame \<Rightarrow> ProcessedFrame list \<Rightarrow> DataPlaneBatchResult
    \<Rightarrow> bool \<times> ProcessedFrame list \<times> DataPlaneBatchResult" where
  "append_recycle processed recycle_output result =
     (if br_recycle_count result \<ge> length recycle_output then
        (False, recycle_output,
         result\<lparr>br_stats := (br_stats result)\<lparr>bs_output_overflows := bs_output_overflows (br_stats result) + 1\<rparr>\<rparr>)
      else
        (True, recycle_output[br_recycle_count result := processed],
         result\<lparr>br_recycle_count := br_recycle_count result + 1,
           br_stats := (br_stats result)\<lparr>bs_recycle_frames := bs_recycle_frames (br_stats result) + 1\<rparr>\<rparr>))"

subsection \<open>\<open>process_packet_batch\<close>\<close>

text \<open>What the loop works on: the packet memory, the timing wheel, the two outputs and the result.\<close>

record dp_state =
  dp_umem :: "bytes option"
  dp_wheel :: TimingWheel
  dp_tx :: "ProcessedFrame list"
  dp_recycle :: "ProcessedFrame list"
  dp_result :: DataPlaneBatchResult

abbreviation upd_stats :: "(DataPlaneBatchStats \<Rightarrow> DataPlaneBatchStats) \<Rightarrow> dp_state \<Rightarrow> dp_state" where
  "upd_stats f \<equiv> dp_result_update (br_stats_update f)"

abbreviation count_seen :: "u32 \<Rightarrow> DataPlaneBatchStats \<Rightarrow> DataPlaneBatchStats" where
  "count_seen len \<equiv> \<lambda>t. t\<lparr>bs_packets_seen := bs_packets_seen t + 1, bs_bytes_seen := bs_bytes_seen t + ucast len\<rparr>"

definition recycle_frame :: "ProcessedFrame \<Rightarrow> dp_state \<Rightarrow> dp_state" where
  "recycle_frame processed s =
     (case append_recycle processed (dp_recycle s) (dp_result s) of (ok, recycle, result) \<Rightarrow>
        s\<lparr>dp_recycle := recycle, dp_result := result\<rparr>)"

text \<open>The three ways a packet leaves the loop body: dropped, put into the wheel, forwarded.\<close>

definition drop_frame :: "ProcessedFrame \<Rightarrow> dp_state \<Rightarrow> dp_state" where
  "drop_frame processed s =
     recycle_frame processed (upd_stats (\<lambda>t. t\<lparr>bs_packets_dropped := bs_packets_dropped t + 1\<rparr>) s)"

definition delay_frame :: "u64 \<Rightarrow> PacketDescriptor \<Rightarrow> ChaosDecision \<Rightarrow> ProcessedFrame \<Rightarrow> dp_state \<Rightarrow> dp_state" where
  "delay_frame tick_ns descriptor decision processed s =
     (let delayed = \<lparr>df_frame_address = pd_frame_address descriptor, df_frame_length = pd_frame_length descriptor,
            df_rule_id = cd_rule_id decision, df_release_tick = 0\<rparr>;
          delay_ticks = delay_ns_to_ticks (cd_delay_ns decision) tick_ns in
      case schedule delayed delay_ticks (dp_wheel s) of (status, wheel) \<Rightarrow>
        let s = s\<lparr>dp_wheel := wheel\<rparr> in
        if status = Scheduled then upd_stats (\<lambda>t. t\<lparr>bs_packets_delayed := bs_packets_delayed t + 1\<rparr>) s
        else drop_frame processed (upd_stats (\<lambda>t. t\<lparr>bs_schedule_failures := bs_schedule_failures t + 1\<rparr>) s))"

definition emit_frame :: "ProcessedFrame \<Rightarrow> dp_state \<Rightarrow> dp_state" where
  "emit_frame processed s =
     (let n = br_tx_count (dp_result s) in
      if n < length (dp_tx s) then
        upd_stats (\<lambda>t. t\<lparr>bs_tx_frames := bs_tx_frames t + 1\<rparr>)
          (s\<lparr>dp_tx := (dp_tx s)[n := processed], dp_result := (dp_result s)\<lparr>br_tx_count := n + 1\<rparr>\<rparr>)
      else
        drop_frame processed (upd_stats (\<lambda>t. t\<lparr>bs_output_overflows := bs_output_overflows t + 1\<rparr>) s))"

definition forward_frame :: "bytes \<Rightarrow> nat \<Rightarrow> PacketDescriptor \<Rightarrow> PacketView \<Rightarrow> ChaosDecision \<Rightarrow> ProcessedFrame
    \<Rightarrow> dp_state \<Rightarrow> dp_state option" where
  "forward_frame umem base descriptor packet decision processed s = do {
     (corrupted, umem) \<leftarrow> (if should_corrupt decision
        then corrupt_packet_payload umem (Some base) packet (cd_hash decision) else Some (False, umem));
     let s = (if corrupted then upd_stats (\<lambda>t. t\<lparr>bs_packets_corrupted := bs_packets_corrupted t + 1\<rparr>) s else s);
     (swapped, umem) \<leftarrow> swap_ethernet_macs umem base (unat (pd_frame_length descriptor));
     Some (emit_frame processed (s\<lparr>dp_umem := Some umem\<rparr>))
   }"

text \<open>The loop body.\<close>

definition process_packet :: "nat \<Rightarrow> ChaosRule list \<Rightarrow> u64 \<Rightarrow> PacketDescriptor \<Rightarrow> dp_state \<Rightarrow> dp_state option" where
  "process_packet umem_size rules tick_ns descriptor s = do {
     let s = upd_stats (count_seen (pd_frame_length descriptor)) s;
     let descriptor_valid = (dp_umem s \<noteq> None \<and> descriptor_within_umem descriptor umem_size);
     let base = unat (pd_frame_address descriptor);
     let frame = (if descriptor_valid then map_option (drop base) (dp_umem s) else None);
     packet \<leftarrow> parse_packet frame (unat (pd_frame_length descriptor));
     let decision = (if view_ok packet then decide_packet_fast packet rules else pass_decision);
     let processed = \<lparr>pf_frame_address = pd_frame_address descriptor, pf_frame_length = pd_frame_length descriptor,
           pf_rule_id = cd_rule_id decision, pf_action = cd_action decision\<rparr>;
     case (if descriptor_valid then dp_umem s else None) of
       None \<Rightarrow>
         Some (drop_frame processed
           (upd_stats (\<lambda>t. t\<lparr>bs_packets_malformed := bs_packets_malformed t + 1,
              bs_invalid_descriptors := bs_invalid_descriptors t + 1\<rparr>) s))
     | Some umem \<Rightarrow>
         if \<not> view_ok packet then
           Some (drop_frame processed (upd_stats (\<lambda>t. t\<lparr>bs_packets_malformed := bs_packets_malformed t + 1\<rparr>) s))
         else if should_drop decision then Some (drop_frame processed s)
         else if should_delay decision then Some (delay_frame tick_ns descriptor decision processed s)
         else forward_frame umem base descriptor packet decision processed s
   }"

fun process_loop :: "nat \<Rightarrow> ChaosRule list \<Rightarrow> u64 \<Rightarrow> PacketDescriptor list \<Rightarrow> dp_state \<Rightarrow> dp_state option" where
  "process_loop umem_size rules tick_ns [] s = Some s"
| "process_loop umem_size rules tick_ns (descriptor # descriptors) s = do {
     s \<leftarrow> process_packet umem_size rules tick_ns descriptor s;
     process_loop umem_size rules tick_ns descriptors s
   }"

definition process_packet_batch :: "bytes option \<Rightarrow> nat \<Rightarrow> PacketDescriptor list \<Rightarrow> ChaosRule list \<Rightarrow> TimingWheel
    \<Rightarrow> ProcessedFrame list \<Rightarrow> ProcessedFrame list \<Rightarrow> u64 \<Rightarrow> dp_state option" where
  "process_packet_batch umem umem_size rx rules wheel tx_output recycle_output tick_ns =
     process_loop umem_size rules tick_ns rx
       \<lparr>dp_umem = umem, dp_wheel = wheel, dp_tx = tx_output, dp_recycle = recycle_output,
        dp_result = DataPlaneBatchResult_init\<rparr>"

text \<open>The overload without a size bound.\<close>

definition process_packet_batch_unbounded :: "bytes option \<Rightarrow> PacketDescriptor list \<Rightarrow> ChaosRule list \<Rightarrow> TimingWheel
    \<Rightarrow> ProcessedFrame list \<Rightarrow> ProcessedFrame list \<Rightarrow> u64 \<Rightarrow> dp_state option" where
  "process_packet_batch_unbounded umem rx rules wheel tx_output recycle_output tick_ns =
     process_packet_batch umem (2 ^ 64 - 1) rx rules wheel tx_output recycle_output tick_ns"

subsection \<open>The two memory operations\<close>

text \<open>Where the byte at a position comes from when the two addresses of the frame at \<open>base\<close> are exchanged.\<close>

definition mac_partner :: "nat \<Rightarrow> nat \<Rightarrow> nat" where
  "mac_partner base i = (if base \<le> i \<and> i < base + 6 then i + 6 else if base + 6 \<le> i \<and> i < base + 12 then i - 6 else i)"

definition macs_swapped :: "nat \<Rightarrow> bytes \<Rightarrow> bytes" where
  "macs_swapped base umem = map (\<lambda>i. umem ! mac_partner base i) [0..<length umem]"

lemma mac_partner_involution [simp]: "mac_partner base (mac_partner base i) = i"
  by (auto simp: mac_partner_def)

lemma mac_partner_less: "base + 12 \<le> n \<Longrightarrow> i < n \<Longrightarrow> mac_partner base i < n"
  by (auto simp: mac_partner_def)

lemma macs_swapped_involution: "base + 12 \<le> length umem \<Longrightarrow> macs_swapped base (macs_swapped base umem) = umem"
  by (intro nth_equalityI) (simp_all add: macs_swapped_def mac_partner_less)

lemma swap_loop_spec:
  assumes "index + n \<le> 6" "base + index + n + 6 \<le> length umem"
  shows "\<exists>umem'. swap_loop umem base index n = Some umem' \<and> length umem' = length umem \<and>
    (\<forall>i < length umem. umem' ! i =
       (if base + index \<le> i \<and> i < base + index + n then umem ! (i + 6)
        else if base + index + 6 \<le> i \<and> i < base + index + n + 6 then umem ! (i - 6) else umem ! i))"
  using assms
proof (induction n arbitrary: index umem)
  case (Suc n)
  let ?m = "umem[base + index := umem ! (base + (index + 6)), base + (index + 6) := umem ! (base + index)]"
  obtain umem' where IH: "swap_loop ?m base (index + 1) n = Some umem'" "length umem' = length ?m"
    "\<forall>i < length ?m. umem' ! i =
       (if base + (index + 1) \<le> i \<and> i < base + (index + 1) + n then ?m ! (i + 6)
        else if base + (index + 1) + 6 \<le> i \<and> i < base + (index + 1) + n + 6 then ?m ! (i - 6) else ?m ! i)"
    using Suc.IH [of "index + 1" ?m] Suc.prems by auto
  have "swap_loop umem base index (Suc n) = Some umem'"
    using IH(1) Suc.prems by simp
  moreover have "umem' ! i = (if base + index \<le> i \<and> i < base + index + Suc n then umem ! (i + 6)
        else if base + index + 6 \<le> i \<and> i < base + index + Suc n + 6 then umem ! (i - 6) else umem ! i)"
    if i: "i < length umem" for i
  proof -
    consider "i = base + index" | "i = base + (index + 6)" | "i \<noteq> base + index" "i \<noteq> base + (index + 6)" by blast
    then show ?thesis
    proof cases
      case 1 then show ?thesis using IH(3) i Suc.prems by (simp add: nth_list_update add.assoc)
    next
      case 2 then show ?thesis using IH(3) i Suc.prems by (simp add: nth_list_update add.assoc)
    next
      case 3 then show ?thesis using IH(3) i Suc.prems by (auto simp: nth_list_update)
    qed
  qed
  ultimately show ?case using IH(2) by auto
qed auto

lemma swap_ethernet_macs_spec:
  assumes "base + len \<le> length umem" "14 \<le> len"
  shows "swap_ethernet_macs umem base len = Some (True, macs_swapped base umem)"
proof -
  obtain m where m: "swap_loop umem base 0 6 = Some m" "length m = length umem"
    "\<forall>i < length umem. m ! i = (if base + 0 \<le> i \<and> i < base + 0 + 6 then umem ! (i + 6)
        else if base + 0 + 6 \<le> i \<and> i < base + 0 + 6 + 6 then umem ! (i - 6) else umem ! i)"
    using swap_loop_spec [of 0 6 base umem] assms by auto
  have "m = macs_swapped base umem"
    using m(2,3) by (intro nth_equalityI) (auto simp: macs_swapped_def mac_partner_def)
  then show ?thesis using m(1) assms(2) by (simp add: swap_ethernet_macs_def header_sizes)
qed

text \<open>The payload byte that \<open>corrupt_packet_payload\<close> changes, if it changes one.\<close>

definition corrupt_offset :: "PacketView \<Rightarrow> u64 \<Rightarrow> nat" where
  "corrupt_offset packet selector = pv_payload_offset packet + unat selector mod pv_payload_length packet"

definition payload_corrupted :: "nat \<Rightarrow> PacketView \<Rightarrow> u64 \<Rightarrow> bytes \<Rightarrow> bytes" where
  "payload_corrupted base packet selector umem =
     (if pv_payload_length packet = 0 then umem
      else umem[base + corrupt_offset packet selector := umem ! (base + corrupt_offset packet selector) XOR 1])"

text \<open>A view of the frame at \<open>base\<close>: the parsed packet lies inside the memory.\<close>

definition view_at :: "nat \<Rightarrow> bytes \<Rightarrow> PacketView \<Rightarrow> bool" where
  "view_at base umem packet \<longleftrightarrow> view_ok packet \<and> 34 \<le> pv_payload_offset packet \<and>
     pv_payload_offset packet + pv_payload_length packet \<le> pv_frame_length packet \<and>
     base + pv_frame_length packet \<le> length umem"

lemma corrupt_packet_payload_spec:
  assumes "view_at base umem packet"
  shows "corrupt_packet_payload umem (Some base) packet selector =
    Some (pv_payload_length packet \<noteq> 0, payload_corrupted base packet selector umem)"
proof (cases "pv_payload_length packet = 0")
  case True
  then show ?thesis by (simp add: corrupt_packet_payload_def payload_corrupted_def)
next
  case False
  then have "unat selector mod pv_payload_length packet < pv_payload_length packet" by simp
  then have "base + corrupt_offset packet selector < length umem" "corrupt_offset packet selector < pv_frame_length packet"
    "pv_payload_offset packet < pv_frame_length packet"
    using assms by (simp_all add: view_at_def corrupt_offset_def)
  then show ?thesis using False assms
    by (simp add: corrupt_packet_payload_def payload_corrupted_def view_at_def Let_def corrupt_offset_def [symmetric])
qed

lemma parsed_view_at:
  assumes "parse_packet (Some (drop base umem)) len = Some packet" "view_ok packet" "base + len \<le> length umem"
  shows "view_at base umem packet" "pv_frame_length packet = len" "34 \<le> len"
proof -
  have "ipv4_layout (drop base umem) len packet \<and> transport_layout (drop base umem) packet"
    using parse_packet_ok [OF assms(1)] assms(2,3) by (simp add: view_ok_def)
  then show "view_at base umem packet" "pv_frame_length packet = len" "34 \<le> len"
    using assms(2,3) unfolding view_at_def ipv4_layout_def transport_layout_def by (auto split: if_splits)
qed

subsection \<open>One packet\<close>

text \<open>The memory after a packet has been forwarded.\<close>

definition forwarded_memory :: "nat \<Rightarrow> PacketView \<Rightarrow> ChaosDecision \<Rightarrow> bytes \<Rightarrow> bytes" where
  "forwarded_memory base packet decision umem =
     macs_swapped base (if should_corrupt decision then payload_corrupted base packet (cd_hash decision) umem else umem)"

lemma length_forwarded_memory [simp]: "length (forwarded_memory base packet decision umem) = length umem"
  by (simp add: forwarded_memory_def macs_swapped_def payload_corrupted_def)

text \<open>\<open>s1\<close> is \<open>s\<close> after the packet of descriptor \<open>d\<close> has been counted, and before it leaves the loop body.\<close>

definition counted :: "PacketDescriptor \<Rightarrow> dp_state \<Rightarrow> dp_state \<Rightarrow> bool" where
  "counted d s s1 \<longleftrightarrow> dp_wheel s1 = dp_wheel s \<and> dp_tx s1 = dp_tx s \<and> dp_recycle s1 = dp_recycle s \<and>
     br_tx_count (dp_result s1) = br_tx_count (dp_result s) \<and>
     br_recycle_count (dp_result s1) = br_recycle_count (dp_result s) \<and>
     (let t = br_stats (dp_result s); t1 = br_stats (dp_result s1) in
      bs_packets_seen t1 = bs_packets_seen t + 1 \<and> bs_bytes_seen t1 = bs_bytes_seen t + ucast (pd_frame_length d) \<and>
      bs_tx_frames t1 = bs_tx_frames t \<and> bs_recycle_frames t1 = bs_recycle_frames t \<and>
      bs_packets_delayed t1 = bs_packets_delayed t \<and> bs_packets_dropped t1 = bs_packets_dropped t)"

lemma within_umem_iff:
  "descriptor_within_umem d n \<longleftrightarrow> unat (pd_frame_address d) + unat (pd_frame_length d) \<le> n"
proof -
  have "unat (pd_frame_address d) < 2 ^ 64" using unat_less_2_64 .
  then have "\<not> unat (pd_frame_address d) > 2 ^ 64 - 1" by linarith
  then have "descriptor_within_umem d n \<longleftrightarrow> (if unat (pd_frame_address d) > n then False
      else unat (pd_frame_length d) \<le> n - unat (pd_frame_address d))"
    by (simp only: descriptor_within_umem_def Let_def if_False)
  then show ?thesis by auto
qed

lemma forward_frame_spec:
  assumes "view_at base umem packet" "base + unat (pd_frame_length d) \<le> length umem" "14 \<le> unat (pd_frame_length d)"
  shows "forward_frame umem base d packet decision processed s =
    Some (emit_frame processed
      ((if should_corrupt decision \<and> pv_payload_length packet \<noteq> 0
        then upd_stats (\<lambda>t. t\<lparr>bs_packets_corrupted := bs_packets_corrupted t + 1\<rparr>) s else s)
       \<lparr>dp_umem := Some (forwarded_memory base packet decision umem)\<rparr>))"
proof -
  have len: "length (payload_corrupted base packet x umem) = length umem" for x
    by (simp add: payload_corrupted_def)
  show ?thesis
    using swap_ethernet_macs_spec [OF _ assms(3), of base] assms(2)
    by (simp add: forward_frame_def corrupt_packet_payload_spec [OF assms(1)] len forwarded_memory_def Let_def)
qed

lemma process_packet_valid:
  assumes "dp_umem s = Some umem" "descriptor_within_umem d umem_size"
    and "parse_packet (Some (drop (unat (pd_frame_address d)) umem)) (unat (pd_frame_length d)) = Some v"
  shows "process_packet umem_size rules tick_ns d s =
    (let dec = (if view_ok v then decide_packet_fast v rules else pass_decision);
         p = \<lparr>pf_frame_address = pd_frame_address d, pf_frame_length = pd_frame_length d,
           pf_rule_id = cd_rule_id dec, pf_action = cd_action dec\<rparr>;
         s1 = upd_stats (count_seen (pd_frame_length d)) s in
     if \<not> view_ok v then
       Some (drop_frame p (upd_stats (\<lambda>t. t\<lparr>bs_packets_malformed := bs_packets_malformed t + 1\<rparr>) s1))
     else if should_drop dec then Some (drop_frame p s1)
     else if should_delay dec then Some (delay_frame tick_ns d dec p s1)
     else forward_frame umem (unat (pd_frame_address d)) d v dec p s1)"
  by (simp add: process_packet_def Let_def assms)

text \<open>The size the caller passes is the size of the memory it passes, or less.\<close>

definition mem_ok :: "nat \<Rightarrow> dp_state \<Rightarrow> bool" where
  "mem_ok umem_size s \<longleftrightarrow> (\<forall>umem. dp_umem s = Some umem \<longrightarrow> umem_size \<le> length umem)"

text \<open>Every packet leaves the loop body in one of three ways.\<close>

lemma process_packet_cases:
  assumes mem: "mem_ok umem_size s"
  obtains
    (dropped) p s1 where "process_packet umem_size rules tick_ns d s = Some (drop_frame p s1)"
      "pf_frame_address p = pd_frame_address d" "counted d s s1" "dp_umem s1 = dp_umem s"
  | (delayed) p s1 decision where "process_packet umem_size rules tick_ns d s = Some (delay_frame tick_ns d decision p s1)"
      "pf_frame_address p = pd_frame_address d" "counted d s s1" "dp_umem s1 = dp_umem s"
  | (forwarded) p s1 umem packet decision where "process_packet umem_size rules tick_ns d s = Some (emit_frame p s1)"
      "pf_frame_address p = pd_frame_address d" "counted d s s1" "dp_umem s = Some umem"
      "descriptor_within_umem d umem_size" "view_at (unat (pd_frame_address d)) umem packet"
      "pv_frame_length packet = unat (pd_frame_length d)" "34 \<le> unat (pd_frame_length d)"
      "dp_umem s1 = Some (forwarded_memory (unat (pd_frame_address d)) packet decision umem)"
proof -
  let ?base = "unat (pd_frame_address d)" and ?len = "unat (pd_frame_length d)"
  let ?s = "upd_stats (count_seen (pd_frame_length d)) s"
  have c: "counted d s ?s" "counted d s (upd_stats (\<lambda>t. t\<lparr>bs_packets_malformed := bs_packets_malformed t + 1\<rparr>) ?s)"
    "counted d s (upd_stats (\<lambda>t. t\<lparr>bs_packets_malformed := bs_packets_malformed t + 1,
              bs_invalid_descriptors := bs_invalid_descriptors t + 1\<rparr>) ?s)"
    by (simp_all add: counted_def Let_def)
  show thesis
  proof (cases "dp_umem s \<noteq> None \<and> descriptor_within_umem d umem_size")
    case False
    obtain v where v: "parse_packet None ?len = Some v" "\<not> view_ok v"
      by (auto simp: parse_packet_def view_ok_def Let_def)
    let ?p = "\<lparr>pf_frame_address = pd_frame_address d, pf_frame_length = pd_frame_length d,
           pf_rule_id = cd_rule_id pass_decision, pf_action = cd_action pass_decision\<rparr>"
    have "process_packet umem_size rules tick_ns d s = Some (drop_frame ?p
      (upd_stats (\<lambda>t. t\<lparr>bs_packets_malformed := bs_packets_malformed t + 1,
              bs_invalid_descriptors := bs_invalid_descriptors t + 1\<rparr>) ?s))"
      using False v by (auto simp: process_packet_def Let_def)
    then show ?thesis by (rule dropped [OF _ _ c(3)]) simp_all
  next
    case True
    then obtain umem where umem: "dp_umem s = Some umem" and w: "descriptor_within_umem d umem_size" by auto
    have b: "?base + ?len \<le> length umem" using w mem umem by (simp add: within_umem_iff mem_ok_def)
    obtain v where v: "parse_packet (Some (drop ?base umem)) ?len = Some v"
      using parse_packet_safe [of ?len "Some (drop ?base umem)"] b by fastforce
    let ?dec = "if view_ok v then decide_packet_fast v rules else pass_decision"
    let ?p = "\<lparr>pf_frame_address = pd_frame_address d, pf_frame_length = pd_frame_length d,
           pf_rule_id = cd_rule_id ?dec, pf_action = cd_action ?dec\<rparr>"
    note pp = process_packet_valid [OF umem w v, of rules tick_ns]
    show ?thesis
    proof (cases "view_ok v")
      case False
      then show ?thesis using dropped [OF _ _ c(2)] pp by (simp add: Let_def)
    next
      case ok: True
      note at = parsed_view_at [OF v ok b]
      consider "should_drop ?dec" | "\<not> should_drop ?dec" "should_delay ?dec" | "\<not> should_drop ?dec" "\<not> should_delay ?dec" by blast
      then show ?thesis
      proof cases
        case 1 then show ?thesis using dropped [OF _ _ c(1)] pp ok by (simp add: Let_def)
      next
        case 2 then show ?thesis using delayed [OF _ _ c(1)] pp ok by (simp add: Let_def)
      next
        case 3
        let ?s1 = "(if should_corrupt ?dec \<and> pv_payload_length v \<noteq> 0
          then upd_stats (\<lambda>t. t\<lparr>bs_packets_corrupted := bs_packets_corrupted t + 1\<rparr>) ?s else ?s)
          \<lparr>dp_umem := Some (forwarded_memory ?base v ?dec umem)\<rparr>"
        have "process_packet umem_size rules tick_ns d s = Some (emit_frame ?p ?s1)"
          using 3 pp ok forward_frame_spec [OF at(1) b] at(3) by (simp add: Let_def)
        moreover have "counted d s ?s1" by (simp add: counted_def Let_def)
        ultimately show ?thesis using forwarded [of ?p ?s1 umem v ?dec] umem w at by simp
      qed
    qed
  qed
qed

subsection \<open>Frames and counters\<close>

definition dp_ok :: "dp_state \<Rightarrow> bool" where
  "dp_ok s \<longleftrightarrow> br_tx_count (dp_result s) \<le> length (dp_tx s) \<and>
     br_recycle_count (dp_result s) \<le> length (dp_recycle s) \<and> wheel_inv (dp_wheel s)"

text \<open>The addresses of all frames the data plane has passed on: to the transmit output, to the recycle
  output, and to the wheel.\<close>

definition dp_frames :: "dp_state \<Rightarrow> u64 multiset" where
  "dp_frames s = mset (map pf_frame_address (take (br_tx_count (dp_result s)) (dp_tx s))) +
     mset (map pf_frame_address (take (br_recycle_count (dp_result s)) (dp_recycle s))) +
     image_mset df_frame_address (wheel_pending (dp_wheel s))"

definition outcomes :: "dp_state \<Rightarrow> u64" where
  "outcomes s = bs_tx_frames (br_stats (dp_result s)) + bs_packets_delayed (br_stats (dp_result s)) +
     bs_packets_dropped (br_stats (dp_result s))"

definition counts_ok :: "dp_state \<Rightarrow> bool" where
  "counts_ok s \<longleftrightarrow> bs_tx_frames (br_stats (dp_result s)) = of_nat (br_tx_count (dp_result s)) \<and>
     bs_recycle_frames (br_stats (dp_result s)) = of_nat (br_recycle_count (dp_result s)) \<and>
     bs_packets_seen (br_stats (dp_result s)) = outcomes s"

text \<open>What every exit from the loop body does with a frame address \<open>a\<close>.\<close>

definition exited :: "u64 \<Rightarrow> dp_state \<Rightarrow> dp_state \<Rightarrow> bool" where
  "exited a s s' \<longleftrightarrow> dp_ok s' \<and> dp_umem s' = dp_umem s \<and> length (dp_tx s') = length (dp_tx s) \<and>
     length (dp_recycle s') = length (dp_recycle s) \<and>
     br_recycle_count (dp_result s') \<le> br_recycle_count (dp_result s) + 1 \<and>
     (br_recycle_count (dp_result s) < length (dp_recycle s) \<longrightarrow> dp_frames s' = add_mset a (dp_frames s)) \<and>
     outcomes s' = outcomes s + 1 \<and>
     bs_packets_seen (br_stats (dp_result s')) = bs_packets_seen (br_stats (dp_result s)) \<and>
     bs_bytes_seen (br_stats (dp_result s')) = bs_bytes_seen (br_stats (dp_result s)) \<and>
     bs_tx_frames (br_stats (dp_result s')) - of_nat (br_tx_count (dp_result s')) =
       bs_tx_frames (br_stats (dp_result s)) - of_nat (br_tx_count (dp_result s)) \<and>
     bs_recycle_frames (br_stats (dp_result s')) - of_nat (br_recycle_count (dp_result s')) =
       bs_recycle_frames (br_stats (dp_result s)) - of_nat (br_recycle_count (dp_result s))"

lemma drop_frame_exited: assumes "dp_ok s" shows "exited (pf_frame_address p) s (drop_frame p s)"
  using assms
  by (cases "br_recycle_count (dp_result s) < length (dp_recycle s)")
    (simp_all add: exited_def drop_frame_def recycle_frame_def append_recycle_def dp_ok_def dp_frames_def outcomes_def
      take_Suc_conv_app_nth)

lemma exited_upd_stats:
  assumes "exited a (upd_stats f s) s'"
    and "\<And>t. bs_tx_frames (f t) = bs_tx_frames t \<and> bs_packets_delayed (f t) = bs_packets_delayed t \<and>
      bs_packets_dropped (f t) = bs_packets_dropped t \<and> bs_recycle_frames (f t) = bs_recycle_frames t \<and>
      bs_packets_seen (f t) = bs_packets_seen t \<and> bs_bytes_seen (f t) = bs_bytes_seen t"
  shows "exited a s s'"
  using assms by (simp add: exited_def outcomes_def dp_frames_def)

lemma emit_frame_exited: assumes "dp_ok s" shows "exited (pf_frame_address p) s (emit_frame p s)"
proof (cases "br_tx_count (dp_result s) < length (dp_tx s)")
  case True
  then show ?thesis using assms
    by (simp add: exited_def emit_frame_def Let_def dp_ok_def dp_frames_def outcomes_def take_Suc_conv_app_nth)
next
  case False
  let ?f = "\<lambda>t. t\<lparr>bs_output_overflows := bs_output_overflows t + 1\<rparr>"
  have "exited (pf_frame_address p) (upd_stats ?f s) (drop_frame p (upd_stats ?f s))"
    by (rule drop_frame_exited) (use assms in \<open>simp add: dp_ok_def\<close>)
  then show ?thesis using False by (simp add: emit_frame_def Let_def exited_upd_stats)
qed

lemma delay_frame_exited:
  assumes "dp_ok s" "pf_frame_address p = pd_frame_address d"
  shows "exited (pd_frame_address d) s (delay_frame tick_ns d decision p s)"
proof -
  let ?df = "\<lparr>df_frame_address = pd_frame_address d, df_frame_length = pd_frame_length d,
            df_rule_id = cd_rule_id decision, df_release_tick = 0\<rparr>"
  let ?ticks = "delay_ns_to_ticks (cd_delay_ns decision) tick_ns"
  obtain st w where sch: "schedule ?df ?ticks (dp_wheel s) = (st, w)" by (cases "schedule ?df ?ticks (dp_wheel s)")
  have winv: "wheel_inv (dp_wheel s)" using assms(1) by (simp add: dp_ok_def)
  have w: "wheel_inv w" using schedule_inv [OF winv, of ?df ?ticks] sch by simp
  have pend: "wheel_pending w = (if st = Scheduled then add_mset (scheduled_frame ?df ?ticks (dp_wheel s)) (wheel_pending (dp_wheel s))
      else wheel_pending (dp_wheel s))" using schedule_pending [OF winv, of ?df ?ticks] sch by simp
  show ?thesis
  proof (cases "st = Scheduled")
    case True
    then show ?thesis using assms(1) sch w pend
      by (simp add: exited_def delay_frame_def Let_def dp_ok_def dp_frames_def outcomes_def scheduled_frame_def)
  next
    case False
    let ?f = "\<lambda>t. t\<lparr>bs_schedule_failures := bs_schedule_failures t + 1\<rparr>" and ?s = "s\<lparr>dp_wheel := w\<rparr>"
    have "exited (pf_frame_address p) (upd_stats ?f ?s) (drop_frame p (upd_stats ?f ?s))"
      by (rule drop_frame_exited) (use assms w in \<open>simp add: dp_ok_def\<close>)
    then have "exited (pf_frame_address p) ?s (drop_frame p (upd_stats ?f ?s))"
      by (rule exited_upd_stats) simp
    then have "exited (pf_frame_address p) s (drop_frame p (upd_stats ?f ?s))"
      using pend False by (simp add: exited_def dp_frames_def outcomes_def)
    then show ?thesis using False sch assms(2) by (simp add: delay_frame_def Let_def)
  qed
qed

subsection \<open>The batch\<close>

text \<open>The bytes of the frame a descriptor names.\<close>

definition in_frame :: "PacketDescriptor \<Rightarrow> nat \<Rightarrow> bool" where
  "in_frame d i \<longleftrightarrow> unat (pd_frame_address d) \<le> i \<and> i < unat (pd_frame_address d) + unat (pd_frame_length d)"

lemma forwarded_memory_outside:
  assumes "view_at base umem packet" "34 \<le> pv_frame_length packet" "i < length umem"
    and "\<not> (base \<le> i \<and> i < base + pv_frame_length packet)"
  shows "forwarded_memory base packet decision umem ! i = umem ! i"
proof -
  have p: "mac_partner base i = i" using assms(2,4) by (auto simp: mac_partner_def)
  have "payload_corrupted base packet x umem ! i = umem ! i" for x
  proof (cases "pv_payload_length packet = 0")
    case False
    then have "unat x mod pv_payload_length packet < pv_payload_length packet" by simp
    then have "i \<noteq> base + corrupt_offset packet x" using assms(1,4) by (auto simp: view_at_def corrupt_offset_def)
    then show ?thesis by (simp add: payload_corrupted_def)
  qed (simp add: payload_corrupted_def)
  moreover have "length (payload_corrupted base packet x umem) = length umem" for x by (simp add: payload_corrupted_def)
  ultimately show ?thesis using p assms(3) by (simp add: forwarded_memory_def macs_swapped_def)
qed

text \<open>A byte list that agrees with another one outside the frames of the descriptors.\<close>

definition same_outside :: "PacketDescriptor list \<Rightarrow> bytes option \<Rightarrow> bytes option \<Rightarrow> bool" where
  "same_outside ds m m' \<longleftrightarrow> (case (m, m') of (None, None) \<Rightarrow> True
     | (Some u, Some u') \<Rightarrow> length u' = length u \<and> (\<forall>i < length u. (\<forall>d \<in> set ds. \<not> in_frame d i) \<longrightarrow> u' ! i = u ! i)
     | _ \<Rightarrow> False)"

lemma same_outside_refl [simp]: "same_outside ds m m"
  by (simp add: same_outside_def split: option.splits)

lemma same_outside_trans: "same_outside ds m m' \<Longrightarrow> same_outside ds' m' m'' \<Longrightarrow> same_outside (ds @ ds') m m''"
  by (auto simp: same_outside_def split: option.splits)

lemma same_outside_mem_ok: "mem_ok n s \<Longrightarrow> same_outside ds (dp_umem s) (dp_umem s') \<Longrightarrow> mem_ok n s'"
  by (auto simp: mem_ok_def same_outside_def split: option.splits)

lemma process_packet_step:
  assumes mem: "mem_ok umem_size s" and ok: "dp_ok s"
  obtains s1 s' where "process_packet umem_size rules tick_ns d s = Some s'" "counted d s s1"
    "exited (pd_frame_address d) s1 s'" "same_outside [d] (dp_umem s) (dp_umem s')"
proof -
  have ok1: "dp_ok s1" if "counted d s s1" for s1 using ok that by (simp add: counted_def dp_ok_def)
  show thesis
    using mem
  proof (cases rule: process_packet_cases [where rules = rules and tick_ns = tick_ns and d = d, consumes 1])
    case (dropped p s1)
    have e: "exited (pd_frame_address d) s1 (drop_frame p s1)"
      using drop_frame_exited [OF ok1 [OF dropped(3)], of p] dropped(2) by simp
    then have "dp_umem (drop_frame p s1) = dp_umem s1" by (simp add: exited_def)
    then show ?thesis using that [OF dropped(1,3) e] dropped(4) by simp
  next
    case (delayed p s1 decision)
    have e: "exited (pd_frame_address d) s1 (delay_frame tick_ns d decision p s1)"
      using delay_frame_exited [OF ok1 [OF delayed(3)] delayed(2)] .
    then have "dp_umem (delay_frame tick_ns d decision p s1) = dp_umem s1" by (simp add: exited_def)
    then show ?thesis using that [OF delayed(1,3) e] delayed(4) by simp
  next
    case (forwarded p s1 umem packet decision)
    have e: "exited (pd_frame_address d) s1 (emit_frame p s1)"
      using emit_frame_exited [OF ok1 [OF forwarded(3)], of p] forwarded(2) by simp
    then have "dp_umem (emit_frame p s1) = dp_umem s1" by (simp add: exited_def)
    moreover have "same_outside [d] (dp_umem s) (dp_umem s1)"
      using forwarded_memory_outside [OF forwarded(6)] forwarded(4,7,8,9)
      by (simp add: same_outside_def in_frame_def)
    ultimately show ?thesis using that [OF forwarded(1,3) e] by simp
  qed
qed

lemma process_loop_spec:
  assumes "mem_ok umem_size s" "dp_ok s"
  shows "\<exists>s'. process_loop umem_size rules tick_ns ds s = Some s' \<and> dp_ok s' \<and>
    same_outside ds (dp_umem s) (dp_umem s') \<and>
    (br_recycle_count (dp_result s) + length ds \<le> length (dp_recycle s) \<longrightarrow>
       dp_frames s' = dp_frames s + mset (map pd_frame_address ds)) \<and>
    (counts_ok s \<longrightarrow> counts_ok s') \<and>
    bs_packets_seen (br_stats (dp_result s')) = bs_packets_seen (br_stats (dp_result s)) + of_nat (length ds) \<and>
    bs_bytes_seen (br_stats (dp_result s')) =
      bs_bytes_seen (br_stats (dp_result s)) + sum_list (map (\<lambda>d. ucast (pd_frame_length d)) ds)"
  using assms
proof (induction ds arbitrary: s)
  case (Cons d ds)
  obtain s1 s2 where p: "process_packet umem_size rules tick_ns d s = Some s2" and c: "counted d s s1"
    and e: "exited (pd_frame_address d) s1 s2" and m: "same_outside [d] (dp_umem s) (dp_umem s2)"
    using process_packet_step [OF Cons.prems] .
  have fr: "dp_frames s1 = dp_frames s" using c by (simp add: counted_def dp_frames_def)
  have ok2: "mem_ok umem_size s2" "dp_ok s2"
    using same_outside_mem_ok [OF Cons.prems(1) m] e by (simp_all add: exited_def)
  obtain s' where IH: "process_loop umem_size rules tick_ns ds s2 = Some s'" "dp_ok s'"
    "same_outside ds (dp_umem s2) (dp_umem s')"
    "br_recycle_count (dp_result s2) + length ds \<le> length (dp_recycle s2) \<longrightarrow>
       dp_frames s' = dp_frames s2 + mset (map pd_frame_address ds)"
    "counts_ok s2 \<longrightarrow> counts_ok s'"
    "bs_packets_seen (br_stats (dp_result s')) = bs_packets_seen (br_stats (dp_result s2)) + of_nat (length ds)"
    "bs_bytes_seen (br_stats (dp_result s')) =
      bs_bytes_seen (br_stats (dp_result s2)) + sum_list (map (\<lambda>d. ucast (pd_frame_length d)) ds)"
    using Cons.IH [OF ok2] by blast
  have "process_loop umem_size rules tick_ns (d # ds) s = Some s'" using p IH(1) by simp
  moreover have "same_outside (d # ds) (dp_umem s) (dp_umem s')"
    using same_outside_trans [OF m IH(3)] by simp
  moreover have "dp_frames s' = dp_frames s + mset (map pd_frame_address (d # ds))"
    if "br_recycle_count (dp_result s) + length (d # ds) \<le> length (dp_recycle s)"
    using that c e IH(4) fr by (simp add: counted_def exited_def)
  moreover have "counts_ok s2" if "counts_ok s"
  proof -
    have "outcomes s1 = outcomes s" using c by (simp add: counted_def outcomes_def Let_def)
    then show ?thesis using that c e by (simp add: counted_def exited_def counts_ok_def Let_def)
  qed
  ultimately show ?case using IH(2,5,6,7) c e by (auto simp: counted_def exited_def Let_def)
qed auto

subsection \<open>Properties\<close>

definition batch_start :: "bytes option \<Rightarrow> TimingWheel \<Rightarrow> ProcessedFrame list \<Rightarrow> ProcessedFrame list \<Rightarrow> dp_state" where
  "batch_start umem wheel tx recycle = \<lparr>dp_umem = umem, dp_wheel = wheel, dp_tx = tx, dp_recycle = recycle,
     dp_result = DataPlaneBatchResult_init\<rparr>"

lemma batch_start_ok: "wheel_inv w \<Longrightarrow> dp_ok (batch_start m w tx rc)"
  by (simp add: batch_start_def dp_ok_def DataPlaneBatchResult_init_def)

lemma batch_start_mem: "(case m of None \<Rightarrow> True | Some u \<Rightarrow> n \<le> length u) \<Longrightarrow> mem_ok n (batch_start m w tx rc)"
  by (auto simp: batch_start_def mem_ok_def)

lemma batch_start_counts: "counts_ok (batch_start m w tx rc)"
  "bs_packets_seen (br_stats (dp_result (batch_start m w tx rc))) = 0"
  "bs_bytes_seen (br_stats (dp_result (batch_start m w tx rc))) = 0"
  by (simp_all add: batch_start_def counts_ok_def outcomes_def DataPlaneBatchResult_init_def DataPlaneBatchStats_init_def)

lemma process_packet_batch_start:
  "process_packet_batch m n ds rules w tx rc tick_ns = process_loop n rules tick_ns ds (batch_start m w tx rc)"
  by (simp add: process_packet_batch_def batch_start_def)

text \<open>C15: The data plane is memory safe for every batch: whatever the descriptors and the bytes in the frames are, with
  a null packet memory or one of at least the stated size, \<open>process_packet_batch\<close> finishes without an
  access outside the packet memory, and it changes no byte outside the frames of the batch. The timing
  wheel stays well formed.\<close>

theorem data_plane_memory_safe:
  assumes "wheel_inv w" "case umem of None \<Rightarrow> True | Some u \<Rightarrow> umem_size \<le> length u"
  shows "\<exists>s. process_packet_batch umem umem_size ds rules w tx rc tick_ns = Some s \<and> wheel_inv (dp_wheel s) \<and>
    same_outside ds umem (dp_umem s)"
  using process_loop_spec [OF batch_start_mem [OF assms(2)] batch_start_ok [OF assms(1)], of rules tick_ns ds tx rc]
  unfolding process_packet_batch_start by (auto simp: dp_ok_def batch_start_def)

text \<open>C14: No frame is lost or duplicated: if the recycle output has an entry for every descriptor, the frames of the
  batch are exactly those that end up in the transmit output, in the recycle output and, newly, in
  the timing wheel, as multisets of addresses, on every path through the loop.\<close>

theorem data_plane_conserves_frames:
  assumes "wheel_inv w" "case umem of None \<Rightarrow> True | Some u \<Rightarrow> umem_size \<le> length u" "length ds \<le> length rc"
    and "process_packet_batch umem umem_size ds rules w tx rc tick_ns = Some s"
  shows "mset (map pd_frame_address ds) + image_mset df_frame_address (wheel_pending w) =
    mset (map pf_frame_address (take (br_tx_count (dp_result s)) (dp_tx s))) +
    mset (map pf_frame_address (take (br_recycle_count (dp_result s)) (dp_recycle s))) +
    image_mset df_frame_address (wheel_pending (dp_wheel s))"
proof -
  have "dp_frames s = dp_frames (batch_start umem w tx rc) + mset (map pd_frame_address ds)"
    using process_loop_spec [OF batch_start_mem [OF assms(2)] batch_start_ok [OF assms(1)], of rules tick_ns ds tx rc] assms(3,4)
    unfolding process_packet_batch_start by (auto simp: batch_start_def DataPlaneBatchResult_init_def)
  then show ?thesis by (simp add: dp_frames_def batch_start_def DataPlaneBatchResult_init_def add.commute)
qed

text \<open>C17: The counters of a batch add up: every descriptor is counted as seen, and as exactly one of transmitted,
  delayed or dropped; the byte counter is the sum of the frame lengths (modulo \<open>2 ^ 64\<close>); and the
  counters of transmitted and recycled frames are the numbers of entries written to the outputs.\<close>

theorem data_plane_accounting:
  assumes "wheel_inv w" "case umem of None \<Rightarrow> True | Some u \<Rightarrow> umem_size \<le> length u"
    and "process_packet_batch umem umem_size ds rules w tx rc tick_ns = Some s"
  shows "let t = br_stats (dp_result s) in
    bs_packets_seen t = of_nat (length ds) \<and>
    bs_packets_seen t = bs_tx_frames t + bs_packets_delayed t + bs_packets_dropped t \<and>
    bs_bytes_seen t = sum_list (map (\<lambda>d. ucast (pd_frame_length d)) ds) \<and>
    bs_tx_frames t = of_nat (br_tx_count (dp_result s)) \<and> br_tx_count (dp_result s) \<le> length (dp_tx s) \<and>
    bs_recycle_frames t = of_nat (br_recycle_count (dp_result s)) \<and> br_recycle_count (dp_result s) \<le> length (dp_recycle s)"
  using process_loop_spec [OF batch_start_mem [OF assms(2)] batch_start_ok [OF assms(1)], of rules tick_ns ds tx rc] assms(3)
    batch_start_counts [of umem w tx rc]
  unfolding process_packet_batch_start by (auto simp: Let_def counts_ok_def outcomes_def dp_ok_def)

lemma umem_exits [simp]:
  "dp_umem (drop_frame p s) = dp_umem s" "dp_umem (delay_frame tick_ns d dec p s) = dp_umem s"
  "dp_umem (emit_frame p s) = dp_umem s"
proof -
  show drop: "dp_umem (drop_frame p s) = dp_umem s" for s
    by (simp add: drop_frame_def recycle_frame_def append_recycle_def)
  show "dp_umem (delay_frame tick_ns d dec p s) = dp_umem s"
    by (simp add: delay_frame_def Let_def drop split: prod.splits)
  show "dp_umem (emit_frame p s) = dp_umem s"
    by (simp add: emit_frame_def Let_def drop)
qed

lemma forwarded_memory_nth:
  assumes at: "view_at base umem v" and i: "i < length umem"
  shows "forwarded_memory base v dec umem ! i =
    (if base \<le> i \<and> i < base + 6 then umem ! (i + 6) else if base + 6 \<le> i \<and> i < base + 12 then umem ! (i - 6)
     else if should_corrupt dec \<and> pv_payload_length v \<noteq> 0 \<and> i = base + corrupt_offset v (cd_hash dec) then umem ! i XOR 1
     else umem ! i)"
proof -
  let ?k = "base + corrupt_offset v (cd_hash dec)"
  let ?m = "if should_corrupt dec then payload_corrupted base v (cd_hash dec) umem else umem"
  have k: "base + 34 \<le> ?k" "base + 34 \<le> length umem" using at by (simp_all add: view_at_def corrupt_offset_def)
  have len: "length ?m = length umem" by (simp add: payload_corrupted_def)
  have m: "?m ! j = (if should_corrupt dec \<and> pv_payload_length v \<noteq> 0 \<and> j = ?k then umem ! j XOR 1 else umem ! j)"
    if "j < length umem" for j using that by (auto simp: payload_corrupted_def)
  have "forwarded_memory base v dec umem ! i = ?m ! mac_partner base i"
    using i len by (simp add: forwarded_memory_def macs_swapped_def)
  also have "\<dots> = (if should_corrupt dec \<and> pv_payload_length v \<noteq> 0 \<and> mac_partner base i = ?k
      then umem ! mac_partner base i XOR 1 else umem ! mac_partner base i)"
    using k(2) i by (intro m mac_partner_less) simp_all
  finally show ?thesis using k(1) by (auto simp: mac_partner_def)
qed

text \<open>C16: What happens to the bytes of a packet: a packet that is malformed, dropped or delayed is left alone; a
  forwarded packet has its two Ethernet addresses exchanged; with the action \<open>Corrupt\<close> and a payload,
  exactly the lowest bit of one payload byte is flipped as well; every other byte of the memory is kept.\<close>

theorem packet_effect:
  assumes "dp_umem s = Some umem" "umem_size \<le> length umem" "descriptor_within_umem d umem_size"
    and "parse_packet (Some (drop (unat (pd_frame_address d)) umem)) (unat (pd_frame_length d)) = Some v"
    and "decide_packet_fast v rules = dec"
    and "process_packet umem_size rules tick_ns d s = Some s'" and "i < length umem"
  shows "\<exists>umem'. dp_umem s' = Some umem' \<and> length umem' = length umem \<and> umem' ! i =
    (if \<not> view_ok v \<or> should_drop dec \<or> should_delay dec then umem ! i
     else if unat (pd_frame_address d) \<le> i \<and> i < unat (pd_frame_address d) + 6 then umem ! (i + 6)
     else if unat (pd_frame_address d) + 6 \<le> i \<and> i < unat (pd_frame_address d) + 12 then umem ! (i - 6)
     else if should_corrupt dec \<and> pv_payload_length v \<noteq> 0 \<and> i = unat (pd_frame_address d) + corrupt_offset v (cd_hash dec)
     then umem ! i XOR 1 else umem ! i)"
proof -
  let ?base = "unat (pd_frame_address d)"
  have b: "?base + unat (pd_frame_length d) \<le> length umem" using assms(2,3) by (simp add: within_umem_iff)
  note pv = process_packet_valid [OF assms(1,3,4), of rules tick_ns] and at = parsed_view_at [OF assms(4) _ b]
  show ?thesis
  proof (cases "\<not> view_ok v \<or> should_drop dec \<or> should_delay dec")
    case True
    then show ?thesis using pv assms(1,5,6) by (auto simp: Let_def split: if_splits)
  next
    case False
    then have "dp_umem s' = Some (forwarded_memory ?base v dec umem)"
      using pv assms(5,6) forward_frame_spec [OF at(1) b] at(3) by (auto simp: Let_def)
    then show ?thesis using False forwarded_memory_nth [OF at(1) assms(7), of dec] by simp
  qed
qed

text \<open>\<open>delay_ns_to_ticks\<close> rounds a positive delay up to whole ticks: the returned number of ticks covers the
  delay and one tick fewer does not, for all delays whose sum with the tick length fits into 64 bits.\<close>

lemma delay_ns_to_ticks_ceiling:
  assumes "delay_ns \<noteq> 0" "tick_ns \<noteq> 0" "unat delay_ns + unat tick_ns \<le> 2 ^ 64"
  shows "unat delay_ns \<le> unat (delay_ns_to_ticks delay_ns tick_ns) * unat tick_ns \<and>
    (unat (delay_ns_to_ticks delay_ns tick_ns) - 1) * unat tick_ns < unat delay_ns"
proof -
  let ?d = "unat delay_ns" and ?t = "unat tick_ns"
  have pos: "0 < ?d" "0 < ?t" using assms(1,2) by (simp_all add: unat_gt_0)
  have "unat (delay_ns + (tick_ns - 1)) = ?d + (?t - 1)"
    using assms(3) pos unat_pred [OF assms(2)] by (subst unat_add_lem [THEN iffD1]) (simp_all only: len_num1 len_bit0, auto)
  then have q: "unat (delay_ns_to_ticks delay_ns tick_ns) = (?d + ?t - 1) div ?t"
    using assms(1,2) pos by (simp add: delay_ns_to_ticks_def unat_div_distrib add_diff_eq)
  have "?d \<le> (?d + ?t - 1) div ?t * ?t"
    using div_mult_mod_eq [of "?d + ?t - 1" ?t] mod_less_divisor [OF pos(2), of "?d + ?t - 1"] pos by linarith
  moreover have "((?d + ?t - 1) div ?t - 1) * ?t < ?d"
  proof -
    have "((?d + ?t - 1) div ?t - 1) * ?t = (?d + ?t - 1) div ?t * ?t - ?t" by (simp add: diff_mult_distrib)
    then show ?thesis using div_times_less_eq_dividend [of "?d + ?t - 1" ?t] pos by linarith
  qed
  ultimately show ?thesis by (simp only: q)
qed

text \<open>C18: For longer delays the sum wraps around and the result is 0 ticks, so that the wheel, instead of refusing the
  frame with \<open>DelayTooLarge\<close>, handles it exactly like a delay of one tick.\<close>

theorem huge_delay_is_one_tick:
  assumes "delay_ns \<noteq> 0" "2 ^ 64 < unat delay_ns + unat tick_ns" "wheel_inv w"
  shows "delay_ns_to_ticks delay_ns tick_ns = 0 \<and>
    schedule f (delay_ns_to_ticks delay_ns tick_ns) w = schedule f 1 w \<and>
    fst (schedule f (delay_ns_to_ticks delay_ns tick_ns) w) \<noteq> DelayTooLarge"
proof -
  let ?d = "unat delay_ns" and ?t = "unat tick_ns"
  have lt: "?d < 2 ^ 64" "?t < 2 ^ 64" by (rule unat_less_2_64)+
  then have t0: "tick_ns \<noteq> 0" using assms(2) by auto
  have tp: "0 < ?t" using t0 by (simp add: unat_gt_0)
  have "unat (delay_ns + (tick_ns - 1)) = (?d + (?t - 1)) mod 2 ^ 64"
    by (simp only: unat_word_ariths(1) unat_pred [OF t0]) simp
  also have "\<dots> = ?d + (?t - 1) - 2 ^ 64"
    using assms(2) lt tp by (subst mod_if) simp
  finally have "unat (delay_ns + tick_ns - 1) < ?t" using lt tp by (simp only: add_diff_eq)
  then have "unat (delay_ns_to_ticks delay_ns tick_ns) = 0"
    using assms(1) t0 by (simp add: delay_ns_to_ticks_def unat_div_distrib)
  then have z: "delay_ns_to_ticks delay_ns tick_ns = 0" by (simp only: unat_eq_0)
  have n: "is_pow2 (tw_SlotCount w)" using assms(3) by (simp add: wheel_inv_def)
  have "unat (of_nat (tw_SlotCount w) :: u64) = tw_SlotCount w" using is_pow2_lt [OF n] by (simp add: unat_of_nat)
  then have "\<not> (1 :: u64) > of_nat (tw_SlotCount w)" using is_pow2_gt0 [OF n] by (simp add: word_less_nat_alt)
  then show ?thesis by (simp add: z schedule_def Let_def)
qed

subsection \<open>Witnesses: one frame at the start of the packet memory\<close>

definition demo_descriptor :: PacketDescriptor where
  "demo_descriptor = \<lparr>pd_frame_address = 0, pd_frame_length = 48, pd_options = 0\<rparr>"

definition no_frame :: ProcessedFrame where
  "no_frame = \<lparr>pf_frame_address = 0, pf_frame_length = 0, pf_rule_id = 0, pf_action = Pass\<rparr>"

lemma length_demo_frame: "length (demo_frame [1, 2]) = 48"
  by (simp add: wire_frame_def ipv4_frame_def demo_fields_def udp_datagram_def)

lemma demo_wheel_inv: "wheel_inv (TimingWheel_init 4 1)"
  using wheel_inv_init [OF four_is_pow2] .

lemma demo_batch:
  obtains s where "process_packet_batch (Some (demo_frame [1, 2])) 48 [demo_descriptor] [drop_half] (TimingWheel_init 4 1)
    [no_frame] [no_frame] 1000000 = Some s"
proof -
  have "mem_ok 48 (batch_start (Some (demo_frame [1, 2])) (TimingWheel_init 4 1) [no_frame] [no_frame])"
    by (rule batch_start_mem) (simp add: length_demo_frame)
  from process_loop_spec [OF this batch_start_ok [OF demo_wheel_inv]] that show thesis
    unfolding process_packet_batch_start by blast
qed

theorem data_plane_memory_safe_witness:
  "\<exists>s. process_packet_batch (Some (demo_frame [1, 2])) 48 [demo_descriptor] [drop_half] (TimingWheel_init 4 1)
    [no_frame] [no_frame] 1000000 = Some s \<and> same_outside [demo_descriptor] (Some (demo_frame [1, 2])) (dp_umem s)"
  using data_plane_memory_safe [OF demo_wheel_inv, where umem = "Some (demo_frame [1, 2])" and umem_size = 48]
  by (fastforce simp: length_demo_frame)

theorem data_plane_conserves_frames_witness:
  "\<exists>s. process_packet_batch (Some (demo_frame [1, 2])) 48 [demo_descriptor] [drop_half] (TimingWheel_init 4 1)
    [no_frame] [no_frame] 1000000 = Some s \<and>
    {#0#} + image_mset df_frame_address (wheel_pending (TimingWheel_init 4 1)) =
    mset (map pf_frame_address (take (br_tx_count (dp_result s)) (dp_tx s))) +
    mset (map pf_frame_address (take (br_recycle_count (dp_result s)) (dp_recycle s))) +
    image_mset df_frame_address (wheel_pending (dp_wheel s))"
proof -
  obtain s where s: "process_packet_batch (Some (demo_frame [1, 2])) 48 [demo_descriptor] [drop_half] (TimingWheel_init 4 1)
    [no_frame] [no_frame] 1000000 = Some s" by (rule demo_batch)
  show ?thesis using data_plane_conserves_frames [OF demo_wheel_inv _ _ s] s by (simp add: length_demo_frame demo_descriptor_def)
qed

theorem data_plane_accounting_witness:
  "\<exists>s. process_packet_batch (Some (demo_frame [1, 2])) 48 [demo_descriptor] [drop_half] (TimingWheel_init 4 1)
    [no_frame] [no_frame] 1000000 = Some s \<and> bs_packets_seen (br_stats (dp_result s)) = 1 \<and>
    bs_bytes_seen (br_stats (dp_result s)) = 48"
proof -
  obtain s where s: "process_packet_batch (Some (demo_frame [1, 2])) 48 [demo_descriptor] [drop_half] (TimingWheel_init 4 1)
    [no_frame] [no_frame] 1000000 = Some s" by (rule demo_batch)
  show ?thesis using data_plane_accounting [OF demo_wheel_inv _ s] s
    by (simp add: length_demo_frame demo_descriptor_def Let_def)
qed

theorem packet_effect_witness:
  "\<exists>s' umem'. process_packet 48 [] 1000000 demo_descriptor
     (batch_start (Some (demo_frame [1, 2])) (TimingWheel_init 4 1) [no_frame] [no_frame]) = Some s' \<and>
     dp_umem s' = Some umem' \<and> umem' ! 0 = demo_frame [1, 2] ! 6"
proof -
  let ?s = "batch_start (Some (demo_frame [1, 2])) (TimingWheel_init 4 1) [no_frame] [no_frame]"
  obtain v where v: "parse_packet (Some (demo_frame [1, 2])) (length (demo_frame [1, 2])) = Some v" "view_ok v"
    by (rule demo_frame_parses [of "[1, 2]"]) simp_all
  have "mem_ok 48 ?s" by (rule batch_start_mem) (simp add: length_demo_frame)
  then obtain s' where s': "process_packet 48 [] 1000000 demo_descriptor ?s = Some s'"
    using process_packet_step [OF _ batch_start_ok [OF demo_wheel_inv]] by blast
  have u: "dp_umem ?s = Some (demo_frame [1, 2])" by (simp add: batch_start_def)
  have "\<exists>umem'. dp_umem s' = Some umem' \<and> umem' ! 0 = demo_frame [1, 2] ! 6"
    using packet_effect [OF u _ _ _ _ s', where v = v and i = 0] v
    by (simp add: length_demo_frame within_umem_iff demo_descriptor_def should_drop_def should_delay_def
        pass_decision_def PacketAction_defs) blast
  then show ?thesis using s' by blast
qed

theorem huge_delay_is_one_tick_witness:
  "schedule DelayedFrame_init (delay_ns_to_ticks 0xFFFFFFFFFFFFFFFF 1000000) (TimingWheel_init 4 1) =
   schedule DelayedFrame_init 1 (TimingWheel_init 4 1)"
proof -
  have "(0xFFFFFFFFFFFFFFFF :: u64) \<noteq> 0" "2 ^ 64 < unat (0xFFFFFFFFFFFFFFFF :: u64) + unat (1000000 :: u64)" by simp_all
  from huge_delay_is_one_tick [OF this demo_wheel_inv] show ?thesis by blast
qed

end
