(* ===== verification/Af_Xdp_Runtime.thy ===== *)
theory Af_Xdp_Runtime
  imports Socket_Manager Data_Plane
begin

section \<open>The poll loop (\<open>include/chronosx/af_xdp_runtime.hpp\<close>)\<close>

text \<open>
  \<open>AfXdpRuntimeAdapter\<close> ties the frame allocator, the socket, the data plane and the timing wheel together: it keeps the fill ring
  supplied with frames, takes received frames through the data plane, and transmits or recycles them. The type parameter
  for the socket is its default, the simulated socket. \<open>poll_once\<close> returns \<open>None\<close> if it would access the packet memory out of
  bounds.
\<close>

datatype RuntimeStatus =
  RuntimeOk | RuntimeAlreadyInitialized | RuntimeNotInitialized | FrameAllocationFailed | RuntimeInvalidFrame
  | RuntimeInvalidOwner | RuntimeRingFull

record RuntimePollStats =
  ps_rx_frames :: u64
  ps_tx_submitted :: u64
  ps_tx_completed :: u64
  ps_fill_refilled :: u64
  ps_fill_failures :: u64
  ps_owner_failures :: u64
  ps_data_plane :: DataPlaneBatchStats

definition RuntimePollStats_init :: RuntimePollStats where
  "RuntimePollStats_init = \<lparr>ps_rx_frames = 0, ps_tx_submitted = 0, ps_tx_completed = 0, ps_fill_refilled = 0, ps_fill_failures = 0,
     ps_owner_failures = 0, ps_data_plane = DataPlaneBatchStats_init\<rparr>"

record RuntimePollResult =
  po_status :: RuntimeStatus
  po_stats :: RuntimePollStats

record RuntimeConfig =
  initial_fill_frames :: nat

definition RuntimeConfig_init :: RuntimeConfig where
  "RuntimeConfig_init = \<lparr>initial_fill_frames = kDefaultFillRingSize\<rparr>"

record AfXdpRuntimeAdapter =
  ar_umem :: bytes
  ar_allocator :: FrameAllocator
  ar_socket :: SimulatedXskSocket
  ar_timing_wheel :: TimingWheel
  ar_initialized :: bool

definition AfXdpRuntimeAdapter_init :: "nat \<Rightarrow> nat \<Rightarrow> SimulatedXskSocket \<Rightarrow> TimingWheel \<Rightarrow> AfXdpRuntimeAdapter" where
  "AfXdpRuntimeAdapter_init FrameCount FrameSize sock wheel =
     \<lparr>ar_umem = replicate (FrameCount * FrameSize) 0, ar_allocator = FrameAllocator_init FrameCount FrameSize, ar_socket = sock,
      ar_timing_wheel = wheel, ar_initialized = False\<rparr>"

text \<open>The loop of \<open>init\<close>, with the number of frames still to be put into the fill ring; its result is the early return, if any.\<close>

fun fill_loop :: "nat \<Rightarrow> AfXdpRuntimeAdapter \<Rightarrow> RuntimeStatus option \<times> AfXdpRuntimeAdapter" where
  "fill_loop 0 r = (None, r)"
| "fill_loop (Suc n) r =
     (let (allocation, a) = allocate FillRing (ar_allocator r); r = r\<lparr>ar_allocator := a\<rparr> in
      if \<not> allocation_ok allocation then (Some FrameAllocationFailed, r)
      else
        let (fill, sock) = refill [fh_address (fa_frame allocation)] (ar_socket r); r = r\<lparr>ar_socket := sock\<rparr> in
        if ba_count fill \<noteq> 1 then
          (Some RuntimeRingFull, r\<lparr>ar_allocator := snd (transition (fa_frame allocation) FillRing Free (ar_allocator r))\<rparr>)
        else fill_loop n r)"

definition runtime_init :: "RuntimeConfig \<Rightarrow> AfXdpRuntimeAdapter \<Rightarrow> RuntimeStatus \<times> AfXdpRuntimeAdapter" where
  "runtime_init config r =
     (if ar_initialized r then (RuntimeAlreadyInitialized, r)
      else
        let fill_target = (if initial_fill_frames config < fr_FrameCount (ar_allocator r) then initial_fill_frames config
                           else fr_FrameCount (ar_allocator r)) in
        case fill_loop fill_target r of
          (Some status, r) \<Rightarrow> (status, r)
        | (None, r) \<Rightarrow> (RuntimeOk, r\<lparr>ar_initialized := True\<rparr>))"

definition refill_one :: "FrameHandle \<Rightarrow> FrameOwner \<Rightarrow> RuntimePollStats \<times> AfXdpRuntimeAdapter \<Rightarrow> RuntimePollStats \<times> AfXdpRuntimeAdapter" where
  "refill_one frame expected_owner sr = (case sr of (stats, r) \<Rightarrow>
     let (status, a) = transition frame expected_owner FillRing (ar_allocator r); r = r\<lparr>ar_allocator := a\<rparr> in
     if status \<noteq> FrameOk then (stats\<lparr>ps_owner_failures := ps_owner_failures stats + 1\<rparr>, r)
     else
       let (fill, sock) = refill [fh_address frame] (ar_socket r); r = r\<lparr>ar_socket := sock\<rparr> in
       if ba_count fill = 1 then (stats\<lparr>ps_fill_refilled := ps_fill_refilled stats + 1\<rparr>, r)
       else (stats\<lparr>ps_fill_failures := ps_fill_failures stats + 1\<rparr>,
             r\<lparr>ar_allocator := snd (transition frame FillRing expected_owner (ar_allocator r))\<rparr>))"

definition refill_address :: "FrameOwner \<Rightarrow> u64 \<Rightarrow> RuntimePollStats \<times> AfXdpRuntimeAdapter \<Rightarrow> RuntimePollStats \<times> AfXdpRuntimeAdapter" where
  "refill_address expected_owner address sr = (case sr of (stats, r) \<Rightarrow>
     let handle = handle_from_address (ar_allocator r) address in
     if \<not> allocation_ok handle then (stats\<lparr>ps_owner_failures := ps_owner_failures stats + 1\<rparr>, r)
     else refill_one (fa_frame handle) expected_owner (stats, r))"

definition runtime_drain_completions :: "RuntimePollStats \<times> AfXdpRuntimeAdapter \<Rightarrow> RuntimePollStats \<times> AfXdpRuntimeAdapter" where
  "runtime_drain_completions sr = (case sr of (stats, r) \<Rightarrow>
     let (completed, result, sock) = drain_completions kDataPlaneBatchSize (ar_socket r);
         stats = stats\<lparr>ps_tx_completed := ps_tx_completed stats + of_nat (ba_count result)\<rparr>
     in fold (refill_address TxRing) (take (ba_count result) completed) (stats, r\<lparr>ar_socket := sock\<rparr>))"

definition submit_one :: "ProcessedFrame \<Rightarrow> RuntimePollStats \<times> AfXdpRuntimeAdapter \<Rightarrow> RuntimePollStats \<times> AfXdpRuntimeAdapter" where
  "submit_one frame sr = (case sr of (stats, r) \<Rightarrow>
     let handle = handle_from_address (ar_allocator r) (pf_frame_address frame) in
     if \<not> allocation_ok handle then (stats\<lparr>ps_owner_failures := ps_owner_failures stats + 1\<rparr>, r)
     else
       let owner = owner_of (ar_allocator r) (fh_index (fa_frame handle));
           (status, a) = transition (fa_frame handle) owner TxRing (ar_allocator r);
           r = r\<lparr>ar_allocator := a\<rparr> in
       if status \<noteq> FrameOk then (stats\<lparr>ps_owner_failures := ps_owner_failures stats + 1\<rparr>, r)
       else
         let tx = \<lparr>tx_address = pf_frame_address frame, tx_length = pf_frame_length frame, tx_options = 0\<rparr>;
             (result, sock) = submit_tx [tx] (ar_socket r);
             r = r\<lparr>ar_socket := sock\<rparr> in
         if ba_count result = 1 then
           (stats\<lparr>ps_tx_submitted := ps_tx_submitted stats + 1\<rparr>, r\<lparr>ar_socket := snd (kick_tx (ar_socket r))\<rparr>)
         else (stats\<lparr>ps_fill_failures := ps_fill_failures stats + 1\<rparr>,
               r\<lparr>ar_allocator := snd (transition (fa_frame handle) TxRing owner (ar_allocator r))\<rparr>))"

definition runtime_submit_tx :: "ProcessedFrame list \<Rightarrow> RuntimePollStats \<times> AfXdpRuntimeAdapter \<Rightarrow> RuntimePollStats \<times> AfXdpRuntimeAdapter" where
  "runtime_submit_tx frames sr = fold submit_one frames sr"

definition processed_of_delayed :: "DelayedFrame \<Rightarrow> ProcessedFrame" where
  "processed_of_delayed frame = \<lparr>pf_frame_address = df_frame_address frame, pf_frame_length = df_frame_length frame,
     pf_rule_id = df_rule_id frame, pf_action = Delay\<rparr>"

definition release_delayed :: "RuntimePollStats \<times> AfXdpRuntimeAdapter \<Rightarrow> RuntimePollStats \<times> AfXdpRuntimeAdapter" where
  "release_delayed sr = (case sr of (stats, r) \<Rightarrow>
     let (expired, wheel) = tick (ar_timing_wheel r)
     in fold (\<lambda>frame. runtime_submit_tx [processed_of_delayed frame]) expired (stats, r\<lparr>ar_timing_wheel := wheel\<rparr>))"

definition refill_recycled :: "ProcessedFrame list \<Rightarrow> RuntimePollStats \<times> AfXdpRuntimeAdapter \<Rightarrow> RuntimePollStats \<times> AfXdpRuntimeAdapter" where
  "refill_recycled frames sr = fold (\<lambda>frame. refill_address DataPlane (pf_frame_address frame)) frames sr"

text \<open>The loop that takes received frames over; the list collects the descriptors.\<close>

definition take_over :: "RxDescriptor \<Rightarrow> PacketDescriptor list \<times> RuntimePollStats \<times> AfXdpRuntimeAdapter
    \<Rightarrow> PacketDescriptor list \<times> RuntimePollStats \<times> AfXdpRuntimeAdapter" where
  "take_over rx dsr = (case dsr of (descriptors, stats, r) \<Rightarrow>
     let frame = handle_from_address (ar_allocator r) (rx_address rx) in
     if \<not> allocation_ok frame then (descriptors, stats\<lparr>ps_owner_failures := ps_owner_failures stats + 1\<rparr>, r)
     else
       let owner = owner_of (ar_allocator r) (fh_index (fa_frame frame));
           (status, a) = transition (fa_frame frame) owner DataPlane (ar_allocator r);
           r = r\<lparr>ar_allocator := a\<rparr> in
       if status \<noteq> FrameOk then (descriptors, stats\<lparr>ps_owner_failures := ps_owner_failures stats + 1\<rparr>, r)
       else (descriptors @ [\<lparr>pd_frame_address = rx_address rx, pd_frame_length = rx_length rx, pd_options = rx_options rx\<rparr>], stats, r))"

definition ProcessedFrame_init :: ProcessedFrame where
  "ProcessedFrame_init = \<lparr>pf_frame_address = 0, pf_frame_length = 0, pf_rule_id = 0, pf_action = Pass\<rparr>"

definition poll_once :: "ChaosRule list \<Rightarrow> AfXdpRuntimeAdapter \<Rightarrow> (RuntimePollResult \<times> AfXdpRuntimeAdapter) option" where
  "poll_once rules r =
     (if \<not> ar_initialized r then Some (\<lparr>po_status = RuntimeNotInitialized, po_stats = RuntimePollStats_init\<rparr>, r)
      else do {
        let (stats, r) = release_delayed (runtime_drain_completions (RuntimePollStats_init, r));
        let (rx, rx_result, sock) = consume_rx kDataPlaneBatchSize (ar_socket r);
        let r = r\<lparr>ar_socket := sock\<rparr>;
        let stats = stats\<lparr>ps_rx_frames := of_nat (ba_count rx_result)\<rparr>;
        let (descriptors, stats, r) = fold take_over (take (ba_count rx_result) rx) ([], stats, r);
        batch \<leftarrow> process_packet_batch (Some (ar_umem r)) (length (ar_umem r)) descriptors rules (ar_timing_wheel r)
          (replicate kDataPlaneBatchSize ProcessedFrame_init) (replicate kDataPlaneBatchSize ProcessedFrame_init) kDefaultTimingWheelTickNs;
        let r = r\<lparr>ar_umem := (case dp_umem batch of None \<Rightarrow> ar_umem r | Some umem \<Rightarrow> umem), ar_timing_wheel := dp_wheel batch\<rparr>;
        let stats = stats\<lparr>ps_data_plane := br_stats (dp_result batch)\<rparr>;
        let (stats, r) = runtime_submit_tx (take (br_tx_count (dp_result batch)) (dp_tx batch)) (stats, r);
        let (stats, r) = refill_recycled (take (br_recycle_count (dp_result batch)) (dp_recycle batch)) (stats, r);
        Some (\<lparr>po_status = RuntimeOk, po_stats = stats\<rparr>, r)
      })"

end
