(* ===== verification/Frame_Lifecycle.thy ===== *)
theory Frame_Lifecycle
  imports Af_Xdp_Runtime
begin

section \<open>No frame is lost: the runtime, the rings and the network card together\<close>

text \<open>
  Every frame of the packet memory is, at any time, in exactly one place: free, in one of the four rings, in the
  timing wheel, or with the network card, on its way to be filled or to be sent. The owner that the allocator
  records says which group of places that is. The theory shows that the poll loop and the card keep
  this up, provided the fill ring and the transmit ring have room for all frames; without that room the
  poll loop does lose frames.
\<close>

subsection \<open>Frames by owner\<close>

definition frame_address :: "FrameAllocator \<Rightarrow> u32 \<Rightarrow> u64" where
  "frame_address a k = fh_address (make_handle a k)"

definition owned_set :: "FrameAllocator \<Rightarrow> FrameOwner \<Rightarrow> u64 set" where
  "owned_set a owner = frame_address a ` {k. unat k < fr_FrameCount a \<and> owner_of a k = owner}"

definition owned :: "FrameAllocator \<Rightarrow> FrameOwner \<Rightarrow> u64 multiset" where
  "owned a owner = mset_set (owned_set a owner)"

lemma frame_address_inj:
  assumes "params_ok a" "unat j < fr_FrameCount a" "unat k < fr_FrameCount a" "frame_address a j = frame_address a k"
  shows "j = k"
proof -
  have "unat j * fr_FrameSize a = unat k * fr_FrameSize a"
    using unat_make_handle [OF assms(1,2)] unat_make_handle [OF assms(1,3)] assms(4) by (metis frame_address_def)
  then show ?thesis using params_ok_bound(2) [OF assms(1), of 0] by (simp add: word_unat_eq_iff)
qed

lemma finite_owned_set [simp]: "finite (owned_set a owner)"
  by (simp add: owned_set_def)

lemma in_owned [simp]: "x \<in># owned a owner \<longleftrightarrow> x \<in> owned_set a owner"
  by (simp add: owned_def)

lemma owned_setE:
  assumes "x \<in> owned_set a owner"
  obtains k where "x = frame_address a k" "unat k < fr_FrameCount a" "owner_of a k = owner"
  using assms by (auto simp: owned_set_def)

lemma owned_disjoint:
  assumes "params_ok a" "x \<in> owned_set a e" "x \<in> owned_set a n"
  shows "e = n"
  using assms frame_address_inj by (metis owned_setE)

lemma card_frames: "card {k :: u32. unat k < n} \<le> n"
proof -
  have "card (unat ` {k :: u32. unat k < n}) \<le> card {..<n}" by (intro card_mono) auto
  moreover have "inj_on unat {k :: u32. unat k < n}" by (simp add: inj_on_def word_unat_eq_iff)
  ultimately show ?thesis by (simp add: card_image)
qed

lemma owned_room:
  assumes "params_ok a" "x \<in> owned_set a e" "e \<noteq> n"
  shows "size (owned a n) < fr_FrameCount a"
proof -
  let ?all = "frame_address a ` {k. unat k < fr_FrameCount a}"
  have "owned_set a n \<subset> ?all"
    using assms owned_disjoint [OF assms(1,2), of n] by (auto simp: owned_set_def)
  then have "card (owned_set a n) < card ?all" by (intro psubset_card_mono) simp_all
  also have "card ?all \<le> fr_FrameCount a" using card_image_le [of "{k. unat k < fr_FrameCount a}" "frame_address a"] card_frames [of "fr_FrameCount a"] by simp
  finally show ?thesis by (simp add: owned_def)
qed

text \<open>Changing the owner of one frame moves its address.\<close>

lemma owned_move:
  assumes "params_ok a" "fr_FrameCount a' = fr_FrameCount a" "fr_FrameSize a' = fr_FrameSize a"
    and k: "unat k < fr_FrameCount a" "owner_of a k = e" "owner_of a' = (owner_of a)(k := n)" "e \<noteq> n"
  shows "owned a e = add_mset (frame_address a k) (owned a' e)" "owned a' n = add_mset (frame_address a k) (owned a n)"
    "owner \<noteq> e \<Longrightarrow> owner \<noteq> n \<Longrightarrow> owned a' owner = owned a owner"
proof -
  let ?x = "frame_address a k"
  have fa: "frame_address a' = frame_address a" using make_handle_cong [OF assms(3)] by (simp add: frame_address_def fun_eq_iff)
  have only: "owner_of b k = owner" if "?x \<in> frame_address a ` {j. unat j < fr_FrameCount a \<and> owner_of b j = owner}" for b owner
    using that frame_address_inj [OF assms(1) _ k(1)] by auto
  have "{j. unat j < fr_FrameCount a \<and> owner_of a j = e} = insert k {j. unat j < fr_FrameCount a \<and> owner_of a' j = e}"
    using k by auto
  then have "owned_set a e = insert ?x (owned_set a' e)" by (simp add: owned_set_def fa assms(2))
  moreover have "?x \<notin> owned_set a' e" using only [of a' e] k by (auto simp: owned_set_def fa assms(2))
  ultimately show "owned a e = add_mset ?x (owned a' e)" by (simp add: owned_def)
  have "{j. unat j < fr_FrameCount a \<and> owner_of a' j = n} = insert k {j. unat j < fr_FrameCount a \<and> owner_of a j = n}"
    using k by auto
  then have "owned_set a' n = insert ?x (owned_set a n)" by (simp add: owned_set_def fa assms(2))
  moreover have "?x \<notin> owned_set a n" using only [of a n] k by (auto simp: owned_set_def)
  ultimately show "owned a' n = add_mset ?x (owned a n)" by (simp add: owned_def)
  show "owned a' owner = owned a owner" if "owner \<noteq> e" "owner \<noteq> n"
  proof -
    have "owned_set a' owner = owned_set a owner" using k that assms(2) by (auto simp: owned_set_def fa)
    then show ?thesis by (simp add: owned_def)
  qed
qed

lemma transition_params: "fr_FrameCount (snd (transition h e n a)) = fr_FrameCount a" "fr_FrameSize (snd (transition h e n a)) = fr_FrameSize a"
  by (simp_all add: transition_def release_def Let_def)

lemma transition_moves:
  assumes inv: "pool_inv a" and x: "x \<in> owned_set a e" and ne: "e \<noteq> Free" "e \<noteq> n"
  obtains h a' where "handle_from_address a x = \<lparr>fa_frame = h, fa_status = FrameOk\<rparr>" "fh_address h = x" "owner_of a (fh_index h) = e"
    "transition h e n a = (FrameOk, a')" "pool_inv a'" "fr_FrameCount a' = fr_FrameCount a" "fr_FrameSize a' = fr_FrameSize a"
    "owned a e = add_mset x (owned a' e)" "owned a' n = add_mset x (owned a n)"
    "\<And>owner. owner \<noteq> e \<Longrightarrow> owner \<noteq> n \<Longrightarrow> owned a' owner = owned a owner"
proof -
  note p = pool_invD(1) [OF inv]
  obtain k where k: "x = frame_address a k" "unat k < fr_FrameCount a" "owner_of a k = e" using x by (rule owned_setE)
  let ?h = "make_handle a k"
  have h: "handle_from_address a x = \<lparr>fa_frame = ?h, fa_status = FrameOk\<rparr>" using handle_from_address_make [OF p k(2)] k(1) by (simp add: frame_address_def)
  have ok: "fst (transition ?h e n a) = FrameOk" using transition_status [OF inv ne(1), of ?h n] k by simp
  note t = transition_ok [OF inv ne(1) ok] transition_params [of ?h e n a]
  obtain a' where a': "transition ?h e n a = (FrameOk, a')" using ok by (metis prod.collapse)
  have t': "pool_inv a'" "owner_of a' = (owner_of a)(k := n)" "fr_FrameCount a' = fr_FrameCount a" "fr_FrameSize a' = fr_FrameSize a"
    using t a' by simp_all
  note m = owned_move [OF p t'(3,4) k(2,3) t'(2) ne(2)]
  show ?thesis using that [OF h _ _ a' t'(1,3,4)] m k by (simp add: frame_address_def)
qed

subsection \<open>The invariant\<close>

text \<open>\<open>krx\<close> and \<open>ktx\<close> are the frames the network card holds, to be filled and to be sent; \<open>hand\<close> the ones the poll loop is working on.\<close>

definition places :: "AfXdpRuntimeAdapter \<Rightarrow> u64 multiset \<Rightarrow> u64 multiset \<Rightarrow> u64 multiset \<Rightarrow> bool" where
  "places r krx ktx hand \<longleftrightarrow>
     owned (ar_allocator r) FillRing =
       mset (fill_contents (ar_socket r)) + krx + image_mset rx_address (mset (rx_contents (ar_socket r))) \<and>
     owned (ar_allocator r) DataPlane = image_mset df_frame_address (wheel_pending (ar_timing_wheel r)) + hand \<and>
     owned (ar_allocator r) TxRing =
       image_mset tx_address (mset (tx_contents (ar_socket r))) + ktx + mset (completion_contents (ar_socket r)) \<and>
     owned (ar_allocator r) RxRing = {#} \<and> owned (ar_allocator r) TimingWheelOwned = {#} \<and> owned (ar_allocator r) CompletionRing = {#}"

definition parts_ok :: "AfXdpRuntimeAdapter \<Rightarrow> bool" where
  "parts_ok r \<longleftrightarrow> pool_inv (ar_allocator r) \<and> socket_inv (ar_socket r) \<and> wheel_inv (ar_timing_wheel r) \<and>
     fr_FrameCount (ar_allocator r) \<le> sr_capacity (fill_ring (ar_socket r)) \<and>
     fr_FrameCount (ar_allocator r) \<le> sr_capacity (tx_ring (ar_socket r))"

definition runtime_inv :: "AfXdpRuntimeAdapter \<Rightarrow> u64 multiset \<Rightarrow> u64 multiset \<Rightarrow> u64 multiset \<Rightarrow> bool" where
  "runtime_inv r krx ktx hand \<longleftrightarrow> parts_ok r \<and> places r krx ktx hand"

definition failures :: "RuntimePollStats \<Rightarrow> u64 \<times> u64" where
  "failures stats = (ps_owner_failures stats, ps_fill_failures stats)"

lemma failures_simps [simp]:
  "failures (stats\<lparr>ps_rx_frames := v\<rparr>) = failures stats" "failures (stats\<lparr>ps_tx_submitted := v\<rparr>) = failures stats"
  "failures (stats\<lparr>ps_tx_completed := v\<rparr>) = failures stats" "failures (stats\<lparr>ps_fill_refilled := v\<rparr>) = failures stats"
  "failures (stats\<lparr>ps_data_plane := d\<rparr>) = failures stats"
  by (simp_all add: failures_def)

text \<open>What the moves share: a frame of one owner goes to another.\<close>

lemma runtime_room:
  assumes "runtime_inv r krx ktx hand" "x \<in> owned_set (ar_allocator r) e"
  shows "e \<noteq> FillRing \<Longrightarrow> length (fill_contents (ar_socket r)) < sr_capacity (fill_ring (ar_socket r))"
    and "e \<noteq> TxRing \<Longrightarrow> length (tx_contents (ar_socket r)) < sr_capacity (tx_ring (ar_socket r))"
proof -
  have p: "params_ok (ar_allocator r)" using assms(1) pool_invD(1) by (auto simp: runtime_inv_def parts_ok_def)
  have "size (owned (ar_allocator r) FillRing) \<ge> length (fill_contents (ar_socket r))"
    "size (owned (ar_allocator r) TxRing) \<ge> length (tx_contents (ar_socket r))"
    using assms(1) by (simp_all add: runtime_inv_def places_def)
  then show "e \<noteq> FillRing \<Longrightarrow> length (fill_contents (ar_socket r)) < sr_capacity (fill_ring (ar_socket r))"
    "e \<noteq> TxRing \<Longrightarrow> length (tx_contents (ar_socket r)) < sr_capacity (tx_ring (ar_socket r))"
    using owned_room [OF p assms(2), of FillRing] owned_room [OF p assms(2), of TxRing] assms(1) by (auto simp: runtime_inv_def parts_ok_def)
qed

lemma hand_owned: "runtime_inv r krx ktx (add_mset x hand) \<Longrightarrow> x \<in> owned_set (ar_allocator r) DataPlane"
  by (subst in_owned [symmetric]) (simp add: runtime_inv_def places_def)

lemma ktx_owned: "runtime_inv r krx (add_mset x ktx) hand \<Longrightarrow> x \<in> owned_set (ar_allocator r) TxRing"
  by (subst in_owned [symmetric]) (simp add: runtime_inv_def places_def)

lemma krx_owned: "runtime_inv r (add_mset x krx) ktx hand \<Longrightarrow> x \<in> owned_set (ar_allocator r) FillRing"
  by (subst in_owned [symmetric]) (simp add: runtime_inv_def places_def)

lemma refill_address_moves:
  assumes inv: "parts_ok r" and x: "x \<in> owned_set (ar_allocator r) e" and e: "e \<in> {DataPlane, TxRing}"
    and room: "length (fill_contents (ar_socket r)) < sr_capacity (fill_ring (ar_socket r))"
  shows "\<exists>stats' a' ring. refill_address e x (stats, r) = (stats', r\<lparr>ar_allocator := a', ar_socket := (ar_socket r)\<lparr>fill_ring := ring\<rparr>\<rparr>) \<and>
    failures stats' = failures stats \<and> pool_inv a' \<and> fr_FrameCount a' = fr_FrameCount (ar_allocator r) \<and>
    ring_inv ring \<and> ring_contents ring = fill_contents (ar_socket r) @ [x] \<and> sr_capacity ring = sr_capacity (fill_ring (ar_socket r)) \<and>
    owned (ar_allocator r) e = add_mset x (owned a' e) \<and> owned a' FillRing = add_mset x (owned (ar_allocator r) FillRing) \<and>
    (\<forall>owner. owner \<noteq> e \<longrightarrow> owner \<noteq> FillRing \<longrightarrow> owned a' owner = owned (ar_allocator r) owner)"
proof -
  have pool: "pool_inv (ar_allocator r)" and sock: "socket_inv (ar_socket r)" using inv by (simp_all add: parts_ok_def)
  have ne: "e \<noteq> Free" "e \<noteq> FillRing" using e by auto
  obtain h a' where h: "handle_from_address (ar_allocator r) x = \<lparr>fa_frame = h, fa_status = FrameOk\<rparr>" "fh_address h = x"
    "transition h e FillRing (ar_allocator r) = (FrameOk, a')" "pool_inv a'" "fr_FrameCount a' = fr_FrameCount (ar_allocator r)"
    "owned (ar_allocator r) e = add_mset x (owned a' e)" "owned a' FillRing = add_mset x (owned (ar_allocator r) FillRing)"
    "\<And>owner. owner \<noteq> e \<Longrightarrow> owner \<noteq> FillRing \<Longrightarrow> owned a' owner = owned (ar_allocator r) owner"
    using transition_moves [OF pool x ne] by metis
  obtain st ring where s: "refill [x] (ar_socket r) = (st, (ar_socket r)\<lparr>fill_ring := ring\<rparr>)" "ba_count st = 1" "ring_inv ring"
    "ring_contents ring = fill_contents (ar_socket r) @ [x]" "sr_capacity ring = sr_capacity (fill_ring (ar_socket r))"
    using refill_one_room [OF sock room, of x] by blast
  have "refill_address e x (stats, r) =
      (stats\<lparr>ps_fill_refilled := ps_fill_refilled stats + 1\<rparr>, r\<lparr>ar_allocator := a', ar_socket := (ar_socket r)\<lparr>fill_ring := ring\<rparr>\<rparr>)"
    using h(1,2,3) s(1,2) by (simp add: refill_address_def refill_one_def allocation_ok_def)
  then show ?thesis using h(4-) s(3-) by (intro exI conjI) (assumption | simp)+
qed

lemma submit_one_moves:
  assumes inv: "parts_ok r" and x: "pf_frame_address f \<in> owned_set (ar_allocator r) DataPlane"
    and room: "length (tx_contents (ar_socket r)) < sr_capacity (tx_ring (ar_socket r))"
  shows "\<exists>stats' a' ring d k. submit_one f (stats, r) =
      (stats', r\<lparr>ar_allocator := a', ar_socket := (ar_socket r)\<lparr>tx_ring := ring, tx_kick_count := k\<rparr>\<rparr>) \<and>
    failures stats' = failures stats \<and> pool_inv a' \<and> fr_FrameCount a' = fr_FrameCount (ar_allocator r) \<and>
    ring_inv ring \<and> ring_contents ring = tx_contents (ar_socket r) @ [d] \<and> tx_address d = pf_frame_address f \<and>
    sr_capacity ring = sr_capacity (tx_ring (ar_socket r)) \<and>
    owned (ar_allocator r) DataPlane = add_mset (pf_frame_address f) (owned a' DataPlane) \<and>
    owned a' TxRing = add_mset (pf_frame_address f) (owned (ar_allocator r) TxRing) \<and>
    (\<forall>owner. owner \<noteq> DataPlane \<longrightarrow> owner \<noteq> TxRing \<longrightarrow> owned a' owner = owned (ar_allocator r) owner)"
proof -
  let ?x = "pf_frame_address f"
  have pool: "pool_inv (ar_allocator r)" and sock: "socket_inv (ar_socket r)" using inv by (simp_all add: parts_ok_def)
  have ne: "DataPlane \<noteq> Free" "DataPlane \<noteq> TxRing" by simp_all
  obtain h a' where h: "handle_from_address (ar_allocator r) ?x = \<lparr>fa_frame = h, fa_status = FrameOk\<rparr>" "owner_of (ar_allocator r) (fh_index h) = DataPlane"
    "transition h DataPlane TxRing (ar_allocator r) = (FrameOk, a')" "pool_inv a'" "fr_FrameCount a' = fr_FrameCount (ar_allocator r)"
    "owned (ar_allocator r) DataPlane = add_mset ?x (owned a' DataPlane)" "owned a' TxRing = add_mset ?x (owned (ar_allocator r) TxRing)"
    "\<And>owner. owner \<noteq> DataPlane \<Longrightarrow> owner \<noteq> TxRing \<Longrightarrow> owned a' owner = owned (ar_allocator r) owner"
    using transition_moves [OF pool x ne] by metis
  define d where "d = \<lparr>tx_address = ?x, tx_length = pf_frame_length f, tx_options = 0\<rparr>"
  obtain st ring where s: "submit_tx [d] (ar_socket r) = (st, (ar_socket r)\<lparr>tx_ring := ring\<rparr>)" "ba_count st = 1" "ring_inv ring"
    "ring_contents ring = tx_contents (ar_socket r) @ [d]" "sr_capacity ring = sr_capacity (tx_ring (ar_socket r))"
    using submit_one_room [OF sock room, of d] by blast
  have "submit_one f (stats, r) = (stats\<lparr>ps_tx_submitted := ps_tx_submitted stats + 1\<rparr>,
      r\<lparr>ar_allocator := a', ar_socket := (ar_socket r)\<lparr>tx_ring := ring, tx_kick_count := tx_kick_count (ar_socket r) + 1\<rparr>\<rparr>)"
    using h(1,2,3) s(1,2) unfolding d_def by (simp add: submit_one_def allocation_ok_def kick_tx_def)
  moreover have "tx_address d = ?x" by (simp add: d_def)
  ultimately show ?thesis using h(4-) s(3-) by (intro exI conjI) (assumption | simp)+
qed

lemma refill_address_inv:
  shows "runtime_inv r krx ktx (add_mset x hand) \<Longrightarrow>
    \<exists>stats' r'. refill_address DataPlane x (stats, r) = (stats', r') \<and> failures stats' = failures stats \<and> runtime_inv r' krx ktx hand \<and>
      ar_initialized r' = ar_initialized r \<and> ar_umem r' = ar_umem r"
    and "runtime_inv r krx (add_mset x ktx) hand \<Longrightarrow>
    \<exists>stats' r'. refill_address TxRing x (stats, r) = (stats', r') \<and> failures stats' = failures stats \<and> runtime_inv r' krx ktx hand \<and>
      ar_initialized r' = ar_initialized r \<and> ar_umem r' = ar_umem r"
proof -
  show "\<exists>stats' r'. refill_address DataPlane x (stats, r) = (stats', r') \<and> failures stats' = failures stats \<and> runtime_inv r' krx ktx hand \<and>
      ar_initialized r' = ar_initialized r \<and> ar_umem r' = ar_umem r" if inv: "runtime_inv r krx ktx (add_mset x hand)"
  proof -
    have x: "x \<in> owned_set (ar_allocator r) DataPlane" by (rule hand_owned [OF inv])
    have parts: "parts_ok r" using inv by (simp add: runtime_inv_def)
    show ?thesis
      using refill_address_moves [OF parts x _ runtime_room(1) [OF inv x], of stats] inv
      by (auto simp: runtime_inv_def parts_ok_def places_def socket_inv_def)
  qed
  show "\<exists>stats' r'. refill_address TxRing x (stats, r) = (stats', r') \<and> failures stats' = failures stats \<and> runtime_inv r' krx ktx hand \<and>
      ar_initialized r' = ar_initialized r \<and> ar_umem r' = ar_umem r" if inv: "runtime_inv r krx (add_mset x ktx) hand"
  proof -
    have x: "x \<in> owned_set (ar_allocator r) TxRing" by (rule ktx_owned [OF inv])
    have parts: "parts_ok r" using inv by (simp add: runtime_inv_def)
    show ?thesis
      using refill_address_moves [OF parts x _ runtime_room(1) [OF inv x], of stats] inv
      by (auto simp: runtime_inv_def parts_ok_def places_def socket_inv_def)
  qed
qed

lemma submit_one_inv:
  assumes inv: "runtime_inv r krx ktx (add_mset (pf_frame_address f) hand)"
  shows "\<exists>stats' r'. submit_one f (stats, r) = (stats', r') \<and> failures stats' = failures stats \<and> runtime_inv r' krx ktx hand \<and>
    ar_initialized r' = ar_initialized r \<and> ar_umem r' = ar_umem r \<and> ar_timing_wheel r' = ar_timing_wheel r"
proof -
  have x: "pf_frame_address f \<in> owned_set (ar_allocator r) DataPlane" by (rule hand_owned [OF inv])
  have parts: "parts_ok r" using inv by (simp add: runtime_inv_def)
  show ?thesis
    using submit_one_moves [OF parts x runtime_room(2) [OF inv x], of stats] inv
    by (auto simp: runtime_inv_def parts_ok_def places_def socket_inv_def)
qed

lemma take_over_inv:
  assumes inv: "runtime_inv r (add_mset (rx_address d) krx) ktx hand"
  shows "\<exists>p r'. take_over d (ds, stats, r) = (ds @ [p], stats, r') \<and> pd_frame_address p = rx_address d \<and>
    runtime_inv r' krx ktx (add_mset (rx_address d) hand) \<and>
    ar_initialized r' = ar_initialized r \<and> ar_umem r' = ar_umem r \<and> ar_timing_wheel r' = ar_timing_wheel r"
proof -
  let ?x = "rx_address d"
  have x: "?x \<in> owned_set (ar_allocator r) FillRing" by (rule krx_owned [OF inv])
  have pool: "pool_inv (ar_allocator r)" using inv by (simp add: runtime_inv_def parts_ok_def)
  have ne: "FillRing \<noteq> Free" "FillRing \<noteq> DataPlane" by simp_all
  obtain h a' where h: "handle_from_address (ar_allocator r) ?x = \<lparr>fa_frame = h, fa_status = FrameOk\<rparr>" "owner_of (ar_allocator r) (fh_index h) = FillRing"
    "transition h FillRing DataPlane (ar_allocator r) = (FrameOk, a')" "pool_inv a'" "fr_FrameCount a' = fr_FrameCount (ar_allocator r)"
    "owned (ar_allocator r) FillRing = add_mset ?x (owned a' FillRing)" "owned a' DataPlane = add_mset ?x (owned (ar_allocator r) DataPlane)"
    "\<And>owner. owner \<noteq> FillRing \<Longrightarrow> owner \<noteq> DataPlane \<Longrightarrow> owned a' owner = owned (ar_allocator r) owner"
    using transition_moves [OF pool x ne] by metis
  have "take_over d (ds, stats, r) =
      (ds @ [\<lparr>pd_frame_address = ?x, pd_frame_length = rx_length d, pd_options = rx_options d\<rparr>], stats, r\<lparr>ar_allocator := a'\<rparr>)"
    using h(1,2,3) by (simp add: take_over_def allocation_ok_def)
  moreover have "runtime_inv (r\<lparr>ar_allocator := a'\<rparr>) krx ktx (add_mset ?x hand)"
    using inv h(4-) by (simp add: runtime_inv_def parts_ok_def places_def)
  ultimately show ?thesis by simp
qed

subsection \<open>The phases of a poll\<close>

definition same_device :: "AfXdpRuntimeAdapter \<Rightarrow> AfXdpRuntimeAdapter \<Rightarrow> bool" where
  "same_device r r' \<longleftrightarrow> ar_initialized r' = ar_initialized r \<and> length (ar_umem r') = length (ar_umem r)"

lemma same_device_trans: "same_device r r' \<Longrightarrow> same_device r' r'' \<Longrightarrow> same_device r r''"
  by (simp add: same_device_def)

lemma refill_fold_tx:
  "runtime_inv r krx (mset xs + ktx) hand \<Longrightarrow>
    \<exists>stats' r'. fold (refill_address TxRing) xs (stats, r) = (stats', r') \<and> failures stats' = failures stats \<and> runtime_inv r' krx ktx hand \<and> same_device r r'"
proof (induction xs arbitrary: stats r)
  case (Cons x xs)
  obtain stats1 r1 where 1: "refill_address TxRing x (stats, r) = (stats1, r1)" "failures stats1 = failures stats"
    "runtime_inv r1 krx (mset xs + ktx) hand" "same_device r r1"
    using refill_address_inv(2) [of r krx x "mset xs + ktx" hand stats] Cons.prems by (auto simp: same_device_def)
  show ?case using Cons.IH [OF 1(3), of stats1] 1 same_device_trans by fastforce
qed (simp add: same_device_def)

lemma refill_fold_recycled:
  "runtime_inv r krx ktx (mset (map pf_frame_address fs) + hand) \<Longrightarrow>
    \<exists>stats' r'. refill_recycled fs (stats, r) = (stats', r') \<and> failures stats' = failures stats \<and> runtime_inv r' krx ktx hand \<and> same_device r r'"
proof (induction fs arbitrary: stats r)
  case (Cons f fs)
  obtain stats1 r1 where 1: "refill_address DataPlane (pf_frame_address f) (stats, r) = (stats1, r1)" "failures stats1 = failures stats"
    "runtime_inv r1 krx ktx (mset (map pf_frame_address fs) + hand)" "same_device r r1"
    using refill_address_inv(1) [of r krx ktx "pf_frame_address f" "mset (map pf_frame_address fs) + hand" stats] Cons.prems
    by (auto simp: same_device_def)
  show ?case using Cons.IH [OF 1(3), of stats1] 1 same_device_trans by (fastforce simp: refill_recycled_def)
qed (simp add: refill_recycled_def same_device_def)

lemma submit_fold:
  "runtime_inv r krx ktx (mset (map pf_frame_address fs) + hand) \<Longrightarrow>
    \<exists>stats' r'. runtime_submit_tx fs (stats, r) = (stats', r') \<and> failures stats' = failures stats \<and> runtime_inv r' krx ktx hand \<and> same_device r r'"
proof (induction fs arbitrary: stats r)
  case (Cons f fs)
  obtain stats1 r1 where 1: "submit_one f (stats, r) = (stats1, r1)" "failures stats1 = failures stats"
    "runtime_inv r1 krx ktx (mset (map pf_frame_address fs) + hand)" "same_device r r1"
    using submit_one_inv [of r krx ktx f "mset (map pf_frame_address fs) + hand" stats] Cons.prems by (auto simp: same_device_def)
  show ?case using Cons.IH [OF 1(3), of stats1] 1 same_device_trans by (fastforce simp: runtime_submit_tx_def)
qed (simp add: runtime_submit_tx_def same_device_def)

lemma release_fold:
  "fold (\<lambda>frame. runtime_submit_tx [processed_of_delayed frame]) fs sr = runtime_submit_tx (map processed_of_delayed fs) sr"
  by (induction fs arbitrary: sr) (simp_all add: runtime_submit_tx_def)

lemma take_over_fold:
  "runtime_inv r (mset (map rx_address xs) + krx) ktx hand \<Longrightarrow>
    \<exists>ps r'. fold take_over xs (ds, stats, r) = (ds @ ps, stats, r') \<and> map pd_frame_address ps = map rx_address xs \<and>
      runtime_inv r' krx ktx (mset (map rx_address xs) + hand) \<and> same_device r r'"
proof (induction xs arbitrary: ds r hand)
  case (Cons x xs)
  obtain p r1 where 1: "take_over x (ds, stats, r) = (ds @ [p], stats, r1)" "pd_frame_address p = rx_address x"
    "runtime_inv r1 (mset (map rx_address xs) + krx) ktx (add_mset (rx_address x) hand)" "same_device r r1"
    using take_over_inv [of r x "mset (map rx_address xs) + krx" ktx hand ds stats] Cons.prems by (auto simp: same_device_def)
  obtain ps r2 where 2: "fold take_over xs (ds @ [p], stats, r1) = ((ds @ [p]) @ ps, stats, r2)" "map pd_frame_address ps = map rx_address xs"
    "runtime_inv r2 krx ktx (mset (map rx_address xs) + add_mset (rx_address x) hand)" "same_device r1 r2"
    using Cons.IH [OF 1(3), of "ds @ [p]"] by blast
  have "fold take_over (x # xs) (ds, stats, r) = (ds @ (p # ps), stats, r2)" using 1(1) 2(1) by simp
  moreover have "same_device r r2" by (rule same_device_trans [OF 1(4) 2(4)])
  ultimately show ?case using 1(2) 2(2,3) by (intro exI [of _ "p # ps"] exI [of _ r2]) simp
qed (simp add: same_device_def)

lemma mset_take_drop: "mset (take n xs) + mset (drop n xs) = mset xs"
  by (metis append_take_drop_id mset_append)

lemma drain_phase:
  assumes "runtime_inv r krx ktx hand"
  shows "\<exists>stats' r'. runtime_drain_completions (stats, r) = (stats', r') \<and> failures stats' = failures stats \<and> runtime_inv r' krx ktx hand \<and> same_device r r'"
proof -
  have sock: "socket_inv (ar_socket r)" using assms by (simp add: runtime_inv_def parts_ok_def)
  let ?xs = "take kDataPlaneBatchSize (completion_contents (ar_socket r))"
  obtain st ring where d: "drain_completions kDataPlaneBatchSize (ar_socket r) = (?xs, st, (ar_socket r)\<lparr>completion_ring := ring\<rparr>)"
    "ring_inv ring" "ring_contents ring = drop kDataPlaneBatchSize (completion_contents (ar_socket r))" "ba_count st = length ?xs"
    using drain_completions_spec [OF sock] by blast
  have "runtime_inv (r\<lparr>ar_socket := (ar_socket r)\<lparr>completion_ring := ring\<rparr>\<rparr>) krx (mset ?xs + ktx) hand"
    using assms d(2,3) mset_take_drop [of kDataPlaneBatchSize "completion_contents (ar_socket r)"]
    by (auto simp: runtime_inv_def parts_ok_def places_def socket_inv_def ac_simps)
  moreover have "runtime_drain_completions (stats, r) = fold (refill_address TxRing) ?xs
      (stats\<lparr>ps_tx_completed := ps_tx_completed stats + of_nat (ba_count st)\<rparr>, r\<lparr>ar_socket := (ar_socket r)\<lparr>completion_ring := ring\<rparr>\<rparr>)"
    using d(1) take_all [of ?xs "ba_count st"] d(4) by (simp only: runtime_drain_completions_def prod.case Let_def order_refl)
  ultimately show ?thesis
    using refill_fold_tx [of _ krx ?xs ktx hand "stats\<lparr>ps_tx_completed := ps_tx_completed stats + of_nat (ba_count st)\<rparr>"]
    by (fastforce simp: same_device_def)
qed

lemma release_phase:
  assumes "runtime_inv r krx ktx hand"
  shows "\<exists>stats' r'. release_delayed (stats, r) = (stats', r') \<and> failures stats' = failures stats \<and> runtime_inv r' krx ktx hand \<and> same_device r r'"
proof -
  have w: "wheel_inv (ar_timing_wheel r)" using assms by (simp add: runtime_inv_def parts_ok_def)
  obtain expired wheel where t: "tick (ar_timing_wheel r) = (expired, wheel)" by fastforce
  have "runtime_inv (r\<lparr>ar_timing_wheel := wheel\<rparr>) krx ktx (mset (map pf_frame_address (map processed_of_delayed expired)) + hand)"
    using assms tick_inv [OF w] tick_pending_split(1) [OF w] t
    by (simp add: runtime_inv_def parts_ok_def places_def processed_of_delayed_def comp_def ac_simps)
  from submit_fold [OF this, of stats] show ?thesis using t by (auto simp: release_delayed_def release_fold same_device_def)
qed

lemma batch_frames:
  assumes w: "wheel_inv wheel" and len: "length ds \<le> kDataPlaneBatchSize"
  shows "\<exists>batch umem'. process_packet_batch (Some umem) (length umem) ds rules wheel
      (replicate kDataPlaneBatchSize ProcessedFrame_init) (replicate kDataPlaneBatchSize ProcessedFrame_init) kDefaultTimingWheelTickNs = Some batch \<and>
    dp_umem batch = Some umem' \<and> length umem' = length umem \<and> wheel_inv (dp_wheel batch) \<and>
    image_mset df_frame_address (wheel_pending wheel) + mset (map pd_frame_address ds) =
      image_mset df_frame_address (wheel_pending (dp_wheel batch)) +
      (mset (map pf_frame_address (take (br_tx_count (dp_result batch)) (dp_tx batch))) +
       mset (map pf_frame_address (take (br_recycle_count (dp_result batch)) (dp_recycle batch))))"
proof -
  let ?out = "replicate kDataPlaneBatchSize ProcessedFrame_init"
  let ?s = "batch_start (Some umem) wheel ?out ?out"
  have mem: "mem_ok (length umem) ?s" by (rule batch_start_mem) simp
  obtain s where s: "process_loop (length umem) rules kDefaultTimingWheelTickNs ds ?s = Some s" "dp_ok s"
    "same_outside ds (dp_umem ?s) (dp_umem s)" "dp_frames s = dp_frames ?s + mset (map pd_frame_address ds)"
    using process_loop_spec [OF mem batch_start_ok [OF w], of rules kDefaultTimingWheelTickNs ds] len
    by (auto simp: batch_start_def DataPlaneBatchResult_init_def)
  obtain umem' where u: "dp_umem s = Some umem'" "length umem' = length umem"
    using s(3) by (auto simp: same_outside_def batch_start_def split: option.splits)
  have f: "image_mset df_frame_address (wheel_pending wheel) + mset (map pd_frame_address ds) =
      image_mset df_frame_address (wheel_pending (dp_wheel s)) +
      (mset (map pf_frame_address (take (br_tx_count (dp_result s)) (dp_tx s))) +
       mset (map pf_frame_address (take (br_recycle_count (dp_result s)) (dp_recycle s))))"
    using s(4) by (simp add: dp_frames_def batch_start_def DataPlaneBatchResult_init_def ac_simps)
  moreover have "wheel_inv (dp_wheel s)" using s(2) by (simp add: dp_ok_def)
  ultimately show ?thesis using s(1) u unfolding process_packet_batch_start by blast
qed

lemma batch_phase:
  assumes inv: "runtime_inv r krx ktx (mset (map pd_frame_address ds))" and len: "length ds \<le> kDataPlaneBatchSize"
  shows "\<exists>batch umem. process_packet_batch (Some (ar_umem r)) (length (ar_umem r)) ds rules (ar_timing_wheel r)
      (replicate kDataPlaneBatchSize ProcessedFrame_init) (replicate kDataPlaneBatchSize ProcessedFrame_init) kDefaultTimingWheelTickNs = Some batch \<and>
    dp_umem batch = Some umem \<and>
    runtime_inv (r\<lparr>ar_umem := umem, ar_timing_wheel := dp_wheel batch\<rparr>) krx ktx
      (mset (map pf_frame_address (take (br_tx_count (dp_result batch)) (dp_tx batch))) +
       (mset (map pf_frame_address (take (br_recycle_count (dp_result batch)) (dp_recycle batch))) + {#}))"
proof -
  have "wheel_inv (ar_timing_wheel r)" using inv by (simp add: runtime_inv_def parts_ok_def)
  from batch_frames [OF this len, of "ar_umem r" rules] inv show ?thesis
    by (elim exE conjE) (intro exI conjI, assumption, assumption, simp add: runtime_inv_def parts_ok_def places_def ac_simps)
qed

lemma rx_phase:
  assumes "runtime_inv r krx ktx {#}"
  shows "\<exists>rx st sock ps r'. consume_rx kDataPlaneBatchSize (ar_socket r) = (rx, st, sock) \<and>
    fold take_over (take (ba_count st) rx) ([], stats, r\<lparr>ar_socket := sock\<rparr>) = (ps, stats, r') \<and> length ps \<le> kDataPlaneBatchSize \<and>
    runtime_inv r' krx ktx (mset (map pd_frame_address ps)) \<and> same_device r r'"
proof -
  have sock: "socket_inv (ar_socket r)" using assms by (simp add: runtime_inv_def parts_ok_def)
  let ?xs = "take kDataPlaneBatchSize (rx_contents (ar_socket r))"
  obtain st ring where d: "consume_rx kDataPlaneBatchSize (ar_socket r) = (?xs, st, (ar_socket r)\<lparr>rx_ring := ring\<rparr>)"
    "ring_inv ring" "ring_contents ring = drop kDataPlaneBatchSize (rx_contents (ar_socket r))" "ba_count st = length ?xs"
    using consume_rx_spec [OF sock] by blast
  let ?r = "r\<lparr>ar_socket := (ar_socket r)\<lparr>rx_ring := ring\<rparr>\<rparr>"
  have "image_mset rx_address (mset (rx_contents (ar_socket r))) = mset (map rx_address ?xs) + image_mset rx_address (mset (ring_contents ring))"
    using arg_cong [OF mset_take_drop [of kDataPlaneBatchSize "rx_contents (ar_socket r)"], of "image_mset rx_address"] d(3) by simp
  then have "runtime_inv ?r (mset (map rx_address ?xs) + krx) ktx {#}"
    using assms d(2) by (auto simp: runtime_inv_def parts_ok_def places_def socket_inv_def ac_simps)
  from take_over_fold [OF this, of "[]" stats] obtain ps r' where r': "fold take_over ?xs ([], stats, ?r) = (ps, stats, r')"
    "map pd_frame_address ps = map rx_address ?xs" "runtime_inv r' krx ktx (mset (map rx_address ?xs) + {#})" "same_device ?r r'" by auto
  have "length ps \<le> kDataPlaneBatchSize" using arg_cong [OF r'(2), of length] by simp
  moreover have "take (ba_count st) ?xs = ?xs" using d(4) by (intro take_all) simp
  moreover have "mset (map pd_frame_address ps) = mset (map rx_address ?xs) + {#}" by (simp only: r'(2) add_0_right)
  moreover have "same_device r r'" using r'(4) by (simp add: same_device_def)
  ultimately show ?thesis using d(1) r'(1,3) by metis
qed

lemma poll_once_inv:
  assumes inv: "runtime_inv r krx ktx {#}" and i: "ar_initialized r"
  shows "\<exists>res r'. poll_once rules r = Some (res, r') \<and> runtime_inv r' krx ktx {#} \<and> ar_initialized r' \<and>
    po_status res = RuntimeOk \<and> ps_owner_failures (po_stats res) = 0 \<and> ps_fill_failures (po_stats res) = 0"
proof -
  obtain st1 r1 where 1: "runtime_drain_completions (RuntimePollStats_init, r) = (st1, r1)" "failures st1 = failures RuntimePollStats_init"
    "runtime_inv r1 krx ktx {#}" "same_device r r1" using drain_phase [OF inv] by blast
  obtain st2 r2 where 2: "release_delayed (st1, r1) = (st2, r2)" "failures st2 = failures st1" "runtime_inv r2 krx ktx {#}" "same_device r1 r2"
    using release_phase [OF 1(3)] by blast
  obtain rx st sock where c: "consume_rx kDataPlaneBatchSize (ar_socket r2) = (rx, st, sock)" by (metis prod_cases3)
  define st3 where "st3 = st2\<lparr>ps_rx_frames := of_nat (ba_count st)\<rparr>"
  obtain ds r3 where 3: "fold take_over (take (ba_count st) rx) ([], st3, r2\<lparr>ar_socket := sock\<rparr>) = (ds, st3, r3)" "length ds \<le> kDataPlaneBatchSize"
    "runtime_inv r3 krx ktx (mset (map pd_frame_address ds))" "same_device r2 r3"
    using rx_phase [OF 2(3), of st3] c by auto
  obtain batch umem where b: "process_packet_batch (Some (ar_umem r3)) (length (ar_umem r3)) ds rules (ar_timing_wheel r3)
      (replicate kDataPlaneBatchSize ProcessedFrame_init) (replicate kDataPlaneBatchSize ProcessedFrame_init) kDefaultTimingWheelTickNs = Some batch"
    "dp_umem batch = Some umem"
    "runtime_inv (r3\<lparr>ar_umem := umem, ar_timing_wheel := dp_wheel batch\<rparr>) krx ktx
      (mset (map pf_frame_address (take (br_tx_count (dp_result batch)) (dp_tx batch))) +
       (mset (map pf_frame_address (take (br_recycle_count (dp_result batch)) (dp_recycle batch))) + {#}))"
    using batch_phase [OF 3(3,2)] by blast
  let ?st = "st3\<lparr>ps_data_plane := br_stats (dp_result batch)\<rparr>" and ?r = "r3\<lparr>ar_umem := umem, ar_timing_wheel := dp_wheel batch\<rparr>"
  obtain st4 r4 where 4: "runtime_submit_tx (take (br_tx_count (dp_result batch)) (dp_tx batch)) (?st, ?r) = (st4, r4)" "failures st4 = failures ?st"
    "runtime_inv r4 krx ktx (mset (map pf_frame_address (take (br_recycle_count (dp_result batch)) (dp_recycle batch))) + {#})" "same_device ?r r4"
    using submit_fold [OF b(3), of ?st] by blast
  obtain st5 r5 where 5: "refill_recycled (take (br_recycle_count (dp_result batch)) (dp_recycle batch)) (st4, r4) = (st5, r5)" "failures st5 = failures st4"
    "runtime_inv r5 krx ktx {#}" "same_device r4 r5"
    using refill_fold_recycled [OF 4(3), of st4] by blast
  have "poll_once rules r = Some (\<lparr>po_status = RuntimeOk, po_stats = st5\<rparr>, r5)"
    using i 1(1) 2(1) c 3(1) b(1,2) 4(1) 5(1) by (simp add: poll_once_def st3_def)
  moreover have "failures st5 = (0, 0)" using 1(2) 2(2) 4(2) 5(2) by (simp add: st3_def) (simp add: failures_def RuntimePollStats_init_def)
  moreover have "ar_initialized r5" using i 1(4) 2(4) 3(4) 4(4) 5(4) by (simp add: same_device_def)
  ultimately show ?thesis using 5(3) by (simp add: failures_def)
qed

subsection \<open>The geometry of the pool never changes\<close>

definition geometry :: "AfXdpRuntimeAdapter \<Rightarrow> nat \<times> nat" where
  "geometry r = (fr_FrameCount (ar_allocator r), fr_FrameSize (ar_allocator r))"

lemma geometry_simps [simp]:
  "geometry (r\<lparr>ar_socket := s\<rparr>) = geometry r" "geometry (r\<lparr>ar_timing_wheel := w\<rparr>) = geometry r" "geometry (r\<lparr>ar_umem := u\<rparr>) = geometry r"
  "geometry (r\<lparr>ar_initialized := b\<rparr>) = geometry r"
  "geometry (r\<lparr>ar_allocator := snd (transition h e n (ar_allocator r))\<rparr>) = geometry r"
  by (simp_all add: geometry_def transition_params)

lemma allocate_params [simp]: "fr_FrameCount (snd (allocate owner a)) = fr_FrameCount a" "fr_FrameSize (snd (allocate owner a)) = fr_FrameSize a"
  by (simp_all add: allocate_def Let_def)

lemma fold_keeps: "(\<And>x s. g (f x s) = g s) \<Longrightarrow> g (fold f xs s) = g s"
  by (induction xs arbitrary: s) simp_all

lemma refill_address_geometry: "geometry (snd (refill_address owner x sr)) = geometry (snd sr)"
  by (simp add: refill_address_def refill_one_def case_prod_beta Let_def) (simp add: geometry_def transition_params)

lemma submit_one_geometry: "geometry (snd (submit_one f sr)) = geometry (snd sr)"
  by (simp add: submit_one_def case_prod_beta Let_def) (simp add: geometry_def transition_params)

lemma take_over_geometry: "geometry (snd (snd (take_over d dsr))) = geometry (snd (snd dsr))"
  by (simp add: take_over_def case_prod_beta Let_def)

lemma runtime_submit_tx_geometry: "geometry (snd (runtime_submit_tx fs sr)) = geometry (snd sr)"
  unfolding runtime_submit_tx_def by (rule fold_keeps) (rule submit_one_geometry)

lemmas phase_geometry =
  fold_keeps [of "\<lambda>sr. geometry (snd sr)", OF refill_address_geometry]
  fold_keeps [of "\<lambda>sr. geometry (snd sr)", OF runtime_submit_tx_geometry]
  fold_keeps [of "\<lambda>dsr. geometry (snd (snd dsr))", OF take_over_geometry] runtime_submit_tx_geometry

lemma poll_once_geometry: "poll_once rules r = Some (res, r') \<Longrightarrow> geometry r' = geometry r"
  by (auto simp: poll_once_def runtime_drain_completions_def release_delayed_def refill_recycled_def phase_geometry case_prod_beta Let_def
      split: if_splits bind_splits)

lemma fill_loop_geometry: "geometry (snd (fill_loop n r)) = geometry r"
proof (induction n arbitrary: r)
  case (Suc n)
  show ?case by (simp add: case_prod_beta Let_def Suc) (simp add: geometry_def transition_params)
qed simp

lemma runtime_init_geometry: "geometry (snd (runtime_init config r)) = geometry r"
  using fill_loop_geometry by (auto simp: runtime_init_def Let_def split: prod.splits option.splits) (metis snd_conv)+

subsection \<open>Initialisation\<close>

lemma fill_loop_inv:
  assumes "runtime_inv r krx ktx hand" "n \<le> fr_free_count (ar_allocator r)"
  shows "\<exists>r'. fill_loop n r = (None, r') \<and> runtime_inv r' krx ktx hand"
  using assms
proof (induction n arbitrary: r)
  case (Suc n)
  let ?a = "ar_allocator r"
  have inv: "pool_inv ?a" "socket_inv (ar_socket r)" using Suc.prems(1) by (simp_all add: runtime_inv_def parts_ok_def)
  obtain k a' where k: "allocate FillRing ?a = (\<lparr>fa_frame = make_handle ?a k, fa_status = FrameOk\<rparr>, a')" "unat k < fr_FrameCount ?a" "owner_of ?a k = Free"
    "owner_of a' = (owner_of ?a)(k := FillRing)" "pool_inv a'" "fr_free_count a' = fr_free_count ?a - 1" "fr_FrameCount a' = fr_FrameCount ?a"
    "fr_FrameSize a' = fr_FrameSize ?a"
    by (rule allocate_takes [OF inv(1), of FillRing]) (use Suc.prems(2) in simp_all)
  note m = owned_move [OF pool_invD(1) [OF inv(1)] k(7,8,2,3,4), simplified]
  have "frame_address ?a k \<in> owned_set ?a Free" using k(2,3) by (auto simp: owned_set_def)
  note room = runtime_room(1) [OF Suc.prems(1) this, simplified]
  obtain st ring where f: "refill [frame_address ?a k] (ar_socket r) = (st, (ar_socket r)\<lparr>fill_ring := ring\<rparr>)" "ba_count st = 1" "ring_inv ring"
    "ring_contents ring = fill_contents (ar_socket r) @ [frame_address ?a k]" "sr_capacity ring = sr_capacity (fill_ring (ar_socket r))"
    using refill_one_room [OF inv(2) room] by blast
  let ?r = "r\<lparr>ar_allocator := a', ar_socket := (ar_socket r)\<lparr>fill_ring := ring\<rparr>\<rparr>"
  have "runtime_inv ?r krx ktx hand"
    using Suc.prems(1) k(5,7) m f by (simp add: runtime_inv_def parts_ok_def places_def socket_inv_def)
  moreover have "n \<le> fr_free_count (ar_allocator ?r)" using Suc.prems(2) k(6) by simp
  ultimately obtain r' where "fill_loop n ?r = (None, r')" "runtime_inv r' krx ktx hand" using Suc.IH by blast
  then show ?case using k(1) f by (auto simp: frame_address_def allocation_ok_def Let_def)
qed simp

lemma runtime_inv_flag [simp]: "runtime_inv (r\<lparr>ar_initialized := b\<rparr>) krx ktx hand = runtime_inv r krx ktx hand"
  by (simp add: runtime_inv_def parts_ok_def places_def)

lemma runtime_init_inv:
  assumes "runtime_inv r krx ktx hand" "fr_free_count (ar_allocator r) = fr_FrameCount (ar_allocator r)" "\<not> ar_initialized r"
  shows "\<exists>r'. runtime_init config r = (RuntimeOk, r') \<and> runtime_inv r' krx ktx hand \<and> ar_initialized r'"
proof -
  let ?n = "if initial_fill_frames config < fr_FrameCount (ar_allocator r) then initial_fill_frames config else fr_FrameCount (ar_allocator r)"
  obtain r' where "fill_loop ?n r = (None, r')" "runtime_inv r' krx ktx hand" using fill_loop_inv [OF assms(1), of ?n] assms(2) by (metis leI less_imp_le order_refl)
  then show ?thesis using assms(3) by (simp add: runtime_init_def Let_def)
qed

text \<open>A device with \<open>n\<close> frames of \<open>sz\<close> bytes, rings of the given sizes and a wheel with \<open>slots\<close> slots of \<open>depth\<close> frames.\<close>

definition new_device :: "nat \<Rightarrow> nat \<Rightarrow> nat \<Rightarrow> nat \<Rightarrow> nat \<Rightarrow> nat \<Rightarrow> nat \<Rightarrow> nat \<Rightarrow> AfXdpRuntimeAdapter" where
  "new_device n sz fill cmpl rx tx slots depth =
     AfXdpRuntimeAdapter_init n sz (SimulatedXskSocket_init fill cmpl rx tx) (TimingWheel_init slots depth)"

definition device_params :: "nat \<Rightarrow> nat \<Rightarrow> nat \<Rightarrow> nat \<Rightarrow> nat \<Rightarrow> nat \<Rightarrow> nat \<Rightarrow> bool" where
  "device_params n sz fill cmpl rx tx slots \<longleftrightarrow> 0 < n \<and> is_pow2 sz \<and> kMinXdpFrameSizeBytes \<le> sz \<and> n \<le> 2 ^ 32 \<and> n * sz < 2 ^ 64 \<and>
     is_pow2 fill \<and> is_pow2 cmpl \<and> is_pow2 rx \<and> is_pow2 tx \<and> is_pow2 slots"

lemma new_device_inv:
  assumes d: "device_params n sz fill cmpl rx tx slots" and "n \<le> fill" "n \<le> tx"
  shows "runtime_inv (new_device n sz fill cmpl rx tx slots depth) {#} {#} {#}"
proof -
  have "owner_of (FrameAllocator_init n sz) k = Free" for k by (simp add: owner_of_def)
  then have "owned (FrameAllocator_init n sz) owner = {#}" if "owner \<noteq> Free" for owner using that by (simp add: owned_def owned_set_def)
  then show ?thesis using assms pool_inv_init [of n sz] socket_init_inv [of fill cmpl rx tx] wheel_inv_init [of slots depth]
    by (simp add: device_params_def runtime_inv_def parts_ok_def places_def new_device_def AfXdpRuntimeAdapter_init_def)
qed

subsection \<open>The runtime and the network card\<close>

text \<open>
  A state of the whole: the runtime and the frames the card holds, to be filled and to be sent. The runtime polls, with whatever rules
  are in force; the card takes frames from the fill ring, delivers one as received with whatever bytes and length, takes
  descriptors from the transmit ring, and completes a frame it has sent. The last but one has no counterpart in the simulated
  socket, which leaves its transmit ring to grow; it is what the other end of a ring does.
\<close>

type_synonym system = "AfXdpRuntimeAdapter \<times> u64 multiset \<times> u64 multiset"

inductive card_step :: "system \<Rightarrow> system \<Rightarrow> bool" where
  takes_fill: "consume_fill n (ar_socket r) = (xs, sock) \<Longrightarrow> card_step (r, krx, ktx) (r\<lparr>ar_socket := sock\<rparr>, mset xs + krx, ktx)"
| delivers: "rx_address d \<in># krx \<Longrightarrow> inject_rx [d] (ar_socket r) = (1, sock) \<Longrightarrow> length umem = length (ar_umem r) \<Longrightarrow>
    card_step (r, krx, ktx) (r\<lparr>ar_umem := umem, ar_socket := sock\<rparr>, krx - {#rx_address d#}, ktx)"
| takes_tx: "consume n (tx_ring (ar_socket r)) = (xs, ring) \<Longrightarrow>
    card_step (r, krx, ktx) (r\<lparr>ar_socket := (ar_socket r)\<lparr>tx_ring := ring\<rparr>\<rparr>, krx, mset (map tx_address xs) + ktx)"
| completes: "x \<in># ktx \<Longrightarrow> complete_tx [x] (ar_socket r) = (1, sock) \<Longrightarrow> card_step (r, krx, ktx) (r\<lparr>ar_socket := sock\<rparr>, krx, ktx - {#x#})"

inductive frame_step :: "system \<Rightarrow> system \<Rightarrow> bool" where
  polls: "poll_once rules r = Some (res, r') \<Longrightarrow> frame_step (r, krx, ktx) (r', krx, ktx)"
| card: "card_step s s' \<Longrightarrow> frame_step s s'"

definition system_inv :: "nat \<Rightarrow> nat \<Rightarrow> system \<Rightarrow> bool" where
  "system_inv n sz s = (case s of (r, krx, ktx) \<Rightarrow> runtime_inv r krx ktx {#} \<and> ar_initialized r \<and> geometry r = (n, sz))"

lemma produce_count:
  assumes "produce [x] r = (1, r')" "ring_inv r"
  shows "ring_inv r'" "ring_contents r' = ring_contents r @ [x]" "sr_capacity r' = sr_capacity r"
  using produce_spec [OF assms(2) refl, of "[x]"] assms(1) by (auto simp del: produce.simps)

lemma consume_parts:
  assumes "consume n r = (xs, r')" "ring_inv r"
  shows "ring_inv r'" "mset (ring_contents r) = mset xs + mset (ring_contents r')" "sr_capacity r' = sr_capacity r"
  using consume_spec [OF assms(2), of n] assms(1) mset_take_drop [of n "ring_contents r"] by auto

lemma card_step_inv: "card_step s s' \<Longrightarrow> system_inv n sz s \<Longrightarrow> system_inv n sz s'"
proof (induction rule: card_step.induct)
  case (takes_fill m r xs sock krx ktx)
  obtain ring where c: "consume m (fill_ring (ar_socket r)) = (xs, ring)" "sock = (ar_socket r)\<lparr>fill_ring := ring\<rparr>"
    using takes_fill.hyps by (auto simp: consume_fill_def split: prod.splits)
  then show ?case using takes_fill.prems consume_parts [OF c(1)]
    by (auto simp: system_inv_def runtime_inv_def parts_ok_def places_def socket_inv_def)
next
  case (delivers d krx r sock umem ktx)
  obtain ring where c: "produce [d] (rx_ring (ar_socket r)) = (1, ring)" "sock = (ar_socket r)\<lparr>rx_ring := ring\<rparr>"
    using delivers.hyps(2) by (auto simp: inject_rx_def simp del: produce.simps split: prod.splits)
  obtain k where k: "krx = add_mset (rx_address d) k" using delivers.hyps(1) by (metis multi_member_split)
  show ?case using delivers.prems produce_count [OF c(1)] c(2) k
    by (auto simp: system_inv_def runtime_inv_def parts_ok_def places_def socket_inv_def)
next
  case (takes_tx m r xs ring krx ktx)
  have "ring_inv (tx_ring (ar_socket r))" using takes_tx.prems by (simp add: system_inv_def runtime_inv_def parts_ok_def socket_inv_def)
  note c = consume_parts [OF takes_tx.hyps this]
  then show ?case using takes_tx.prems arg_cong [OF c(2), of "image_mset tx_address"]
    by (simp add: system_inv_def runtime_inv_def parts_ok_def places_def socket_inv_def)
next
  case (completes x ktx r sock krx)
  obtain ring where c: "produce [x] (completion_ring (ar_socket r)) = (1, ring)" "sock = (ar_socket r)\<lparr>completion_ring := ring\<rparr>"
    using completes.hyps(2) by (auto simp: complete_tx_def simp del: produce.simps split: prod.splits)
  obtain k where k: "ktx = add_mset x k" using completes.hyps(1) by (metis multi_member_split)
  show ?case using completes.prems produce_count [OF c(1)] c(2) k
    by (auto simp: system_inv_def runtime_inv_def parts_ok_def places_def socket_inv_def)
qed

lemma frame_step_inv: "frame_step s s' \<Longrightarrow> system_inv n sz s \<Longrightarrow> system_inv n sz s'"
proof (induction rule: frame_step.induct)
  case (polls rules r res r' krx ktx)
  have "runtime_inv r krx ktx {#}" "ar_initialized r" using polls.prems by (simp_all add: system_inv_def)
  from poll_once_inv [OF this, of rules] show ?case using polls poll_once_geometry [OF polls.hyps] by (auto simp: system_inv_def)
qed (rule card_step_inv)

lemma frame_steps_inv: "frame_step\<^sup>*\<^sup>* s s' \<Longrightarrow> system_inv n sz s \<Longrightarrow> system_inv n sz s'"
  by (induction rule: rtranclp_induct) (auto intro: frame_step_inv)

subsection \<open>Every frame is somewhere, once\<close>

definition all_places :: "system \<Rightarrow> u64 multiset" where
  "all_places s = (case s of (r, krx, ktx) \<Rightarrow>
     image_mset (frame_address (ar_allocator r)) (mset (free_list (ar_allocator r))) +
     mset (fill_contents (ar_socket r)) + krx + image_mset rx_address (mset (rx_contents (ar_socket r))) +
     image_mset df_frame_address (wheel_pending (ar_timing_wheel r)) +
     image_mset tx_address (mset (tx_contents (ar_socket r))) + ktx + mset (completion_contents (ar_socket r)))"

lemma owned_free:
  assumes "pool_inv a"
  shows "owned a Free = image_mset (frame_address a) (mset (free_list a))"
proof -
  note i = pool_invD [OF assms]
  have set: "{k. unat k < fr_FrameCount a \<and> owner_of a k = Free} = set (free_list a)"
    using i(6,7) by (auto simp: owner_of_def)
  have inj: "inj_on (frame_address a) (set (free_list a))"
    by (rule inj_onI) (use frame_address_inj [OF i(1)] i(6) in blast)
  have "mset (free_list a) = mset_set (set (free_list a))" using i(5) by (simp add: mset_set_set)
  then show ?thesis by (simp add: owned_def owned_set_def set image_mset_mset_set [OF inj])
qed

lemma owned_union:
  assumes "params_ok a" "owner \<notin> set os"
  shows "mset_set (owned_set a owner \<union> (\<Union>o' \<in> set os. owned_set a o')) = owned a owner + mset_set (\<Union>o' \<in> set os. owned_set a o')"
proof -
  have "owned_set a owner \<inter> (\<Union>o' \<in> set os. owned_set a o') = {}" using owned_disjoint [OF assms(1)] assms(2) by auto
  then show ?thesis by (simp add: mset_set_Union owned_def)
qed

lemma owned_all:
  assumes "params_ok a"
  shows "owned a Free + owned a FillRing + owned a RxRing + owned a DataPlane + owned a TimingWheelOwned + owned a TxRing + owned a CompletionRing =
    mset (map (\<lambda>i. of_nat (i * fr_FrameSize a)) [0..<fr_FrameCount a])"
proof -
  let ?os = "[Free, FillRing, RxRing, DataPlane, TimingWheelOwned, TxRing, CompletionRing]"
  let ?n = "fr_FrameCount a"
  have le: "?n \<le> 2 ^ 32" using assms by (simp add: params_ok_def)
  have all: "owner_of a k \<in> set ?os" for k by (cases "owner_of a k") simp_all
  then have "(\<Union>o' \<in> set ?os. owned_set a o') = frame_address a ` {k. unat k < ?n}"
    unfolding owned_set_def by blast
  also have "{k :: u32. unat k < ?n} = of_nat ` {..<?n}"
  proof (intro set_eqI iffI)
    show "k \<in> of_nat ` {..<?n}" if "k \<in> {k :: u32. unat k < ?n}" for k using that by (intro image_eqI [of _ _ "unat k"]) simp_all
    show "k \<in> {k :: u32. unat k < ?n}" if "k \<in> of_nat ` {..<?n}" for k using that le by (auto simp: unat_of_nat)
  qed
  also have "frame_address a ` of_nat ` {..<?n} = (\<lambda>i. of_nat (i * fr_FrameSize a)) ` {..<?n}"
  proof -
    have "frame_address a (of_nat i) = of_nat (i * fr_FrameSize a)" if "i < ?n" for i
    proof -
      have u: "unat (of_nat i :: u32) = i" using that le by (simp add: unat_of_nat)
      then have "unat (frame_address a (of_nat i)) = i * fr_FrameSize a" using unat_make_handle [OF assms, of "of_nat i"] that by (simp add: frame_address_def)
      then have "(of_nat (unat (frame_address a (of_nat i))) :: u64) = of_nat (i * fr_FrameSize a)" by (simp only:)
      then show ?thesis by simp
    qed
    then show ?thesis by (auto simp: image_image)
  qed
  finally have u: "(\<Union>o' \<in> set ?os. owned_set a o') = (\<lambda>i. of_nat (i * fr_FrameSize a)) ` {..<?n}" .
  have "inj_on (\<lambda>i. of_nat (i * fr_FrameSize a) :: u64) {..<?n}"
  proof (rule inj_onI)
    fix i j assume ij: "i \<in> {..<?n}" "j \<in> {..<?n}" "(of_nat (i * fr_FrameSize a) :: u64) = of_nat (j * fr_FrameSize a)"
    have b: "k * fr_FrameSize a < 2 ^ 64" if "k < ?n" for k using params_ok_bound(1) [OF assms, of k] that by simp
    have "i * fr_FrameSize a = j * fr_FrameSize a"
      using arg_cong [OF ij(3), of unat] b ij(1,2) by (simp add: unat_of_nat del: of_nat_mult)
    then show "i = j" using params_ok_bound(2) [OF assms, of 0] by simp
  qed
  then have "mset_set ((\<lambda>i. of_nat (i * fr_FrameSize a) :: u64) ` {..<?n}) = image_mset (\<lambda>i. of_nat (i * fr_FrameSize a)) (mset_set {..<?n})"
    by (simp add: image_mset_mset_set)
  also have "mset_set {..<?n} = mset [0..<?n]" by (metis atLeast_upt distinct_upt mset_set_set)
  finally have m: "mset_set (\<Union>o' \<in> set ?os. owned_set a o') = mset (map (\<lambda>i. of_nat (i * fr_FrameSize a)) [0..<?n])" unfolding u by simp
  have "mset_set (\<Union>o' \<in> set ?os. owned_set a o') =
    owned a Free + owned a FillRing + owned a RxRing + owned a DataPlane + owned a TimingWheelOwned + owned a TxRing + owned a CompletionRing"
    using owned_union [OF assms, of Free "tl ?os"] owned_union [OF assms, of FillRing "drop 2 ?os"] owned_union [OF assms, of RxRing "drop 3 ?os"]
      owned_union [OF assms, of DataPlane "drop 4 ?os"] owned_union [OF assms, of TimingWheelOwned "drop 5 ?os"] owned_union [OF assms, of TxRing "drop 6 ?os"]
    by (simp add: Un_ac owned_def ac_simps)
  with m show ?thesis by simp
qed

lemma system_inv_places:
  assumes "system_inv n sz s"
  shows "all_places s = mset (map (\<lambda>i. of_nat (i * sz)) [0..<n])"
proof -
  obtain r krx ktx where s: "s = (r, krx, ktx)" by (metis prod_cases3)
  have i: "pool_inv (ar_allocator r)" "places r krx ktx {#}" "fr_FrameCount (ar_allocator r) = n" "fr_FrameSize (ar_allocator r) = sz"
    using assms by (simp_all add: s system_inv_def runtime_inv_def parts_ok_def geometry_def)
  show ?thesis using owned_all [OF pool_invD(1) [OF i(1)]] i(2-) owned_free [OF i(1)]
    by (simp add: s all_places_def places_def ac_simps)
qed

text \<open>C28: No frame is lost or duplicated. Take a device whose fill and transmit rings have room for all its frames, initialise it, and let the
  runtime and the network card take any steps in any order: polls under any rules, frames taken from the fill ring, packets
  of any content and length delivered, descriptors taken from the transmit ring, completions. Then initialisation succeeded; the
  addresses in the free list, the four rings, the timing wheel and the card are the \<open>n\<close> frame addresses, each exactly once; and
  the next poll returns, without touching memory outside the packet buffer and without a single owner or ring failure.\<close>

theorem runtime_conserves_frames:
  assumes "device_params n sz fill cmpl rx tx slots" "n \<le> fill" "n \<le> tx"
    and "runtime_init config (new_device n sz fill cmpl rx tx slots depth) = (status, r0)" "frame_step\<^sup>*\<^sup>* (r0, {#}, {#}) s"
  shows "status = RuntimeOk \<and> all_places s = mset (map (\<lambda>i. of_nat (i * sz)) [0..<n]) \<and>
    (\<exists>res r'. poll_once rules (fst s) = Some (res, r') \<and> po_status res = RuntimeOk \<and>
       ps_owner_failures (po_stats res) = 0 \<and> ps_fill_failures (po_stats res) = 0)"
proof -
  let ?r = "new_device n sz fill cmpl rx tx slots depth"
  have fresh: "fr_free_count (ar_allocator ?r) = fr_FrameCount (ar_allocator ?r)" "\<not> ar_initialized ?r" "geometry ?r = (n, sz)"
    by (simp_all add: new_device_def AfXdpRuntimeAdapter_init_def geometry_def)
  have "status = RuntimeOk" "runtime_inv r0 {#} {#} {#}" "ar_initialized r0"
    using runtime_init_inv [OF new_device_inv [OF assms(1-3)] fresh(1,2), of config] assms(4) by auto
  moreover from this have "system_inv n sz (r0, {#}, {#})"
    using runtime_init_geometry [of config ?r] fresh(3) assms(4) by (simp add: system_inv_def)
  then have s: "system_inv n sz s" by (rule frame_steps_inv [OF assms(5)])
  then have "runtime_inv (fst s) (fst (snd s)) (snd (snd s)) {#}" "ar_initialized (fst s)" by (auto simp: system_inv_def)
  from poll_once_inv [OF this, of rules] show ?thesis using calculation(1) system_inv_places [OF s] by blast
qed

theorem runtime_conserves_frames_witness:
  "\<exists>r0 res r'. runtime_init RuntimeConfig_init (new_device 2 2048 2 2 2 2 4 1) = (RuntimeOk, r0) \<and> poll_once [] r0 = Some (res, r') \<and>
     ps_owner_failures (po_stats res) = 0 \<and> all_places (r', {#}, {#}) = {#0, 2048#}"
proof -
  have p: "is_pow2 2" "is_pow2 4" "is_pow2 2048" by (rule is_pow2I [of _ 1] is_pow2I [of _ 2] is_pow2I [of _ 11]; simp)+
  have d: "device_params 2 2048 2 2 2 2 4" using p by (simp add: device_params_def kMinXdpFrameSizeBytes_def)
  obtain status r0 where i: "runtime_init RuntimeConfig_init (new_device 2 2048 2 2 2 2 4 1) = (status, r0)" by fastforce
  note t = runtime_conserves_frames [OF d order_refl order_refl i]
  obtain res r' where "status = RuntimeOk" "poll_once [] r0 = Some (res, r')" "ps_owner_failures (po_stats res) = 0"
    using t [OF rtranclp.rtrancl_refl, of "[]"] by auto
  moreover from this have "frame_step\<^sup>*\<^sup>* (r0, {#}, {#}) (r', {#}, {#})" using polls by blast
  from t [OF this, of "[]"] have "all_places (r', {#}, {#}) = {#0, 2048#}" by (simp add: upt_conv_Cons)
  ultimately show ?thesis using i by blast
qed

end
