(* ===== verification/Frame_Loss.thy ===== *)
theory Frame_Loss
  imports Frame_Lifecycle
begin

section \<open>Frames lost to a full transmit ring\<close>

text \<open>
  When the transmit ring has no room, \<open>submit_tx\<close> gives the frame its old owner back and forgets it: the frame is in no ring, not in the
  wheel and not free. The theory shows that such a frame never comes back, whatever the runtime and the network card do. A
  frame that is nowhere stays nowhere; that needs no bound on the sizes of the rings and nothing about the owners.
\<close>

definition absent :: "u64 \<Rightarrow> AfXdpRuntimeAdapter \<Rightarrow> bool" where
  "absent x r \<longleftrightarrow> params_ok (ar_allocator r) \<and> socket_inv (ar_socket r) \<and> wheel_inv (ar_timing_wheel r) \<and>
     x \<notin> frame_address (ar_allocator r) ` set (free_list (ar_allocator r)) \<and>
     x \<notin> set (fill_contents (ar_socket r)) \<and> x \<notin> rx_address ` set (rx_contents (ar_socket r)) \<and>
     x \<notin> df_frame_address ` set_mset (wheel_pending (ar_timing_wheel r)) \<and>
     x \<notin> tx_address ` set (tx_contents (ar_socket r)) \<and> x \<notin> set (completion_contents (ar_socket r))"

lemma transition_free_list:
  "set (free_list (snd (transition h e n a))) \<subseteq> insert (fh_index h) (set (free_list a))"
proof -
  have "set (take (Suc c) (xs[c := i])) \<subseteq> insert i (set (take c xs))" for c :: nat and i :: u32 and xs
    by (cases "c < length xs") (auto simp: take_Suc_conv_app_nth list_update_beyond)
  then show ?thesis by (auto simp: transition_def release_def free_list_def Let_def split: if_splits)
qed

lemma params_ok_cong: "fr_FrameCount a' = fr_FrameCount a \<Longrightarrow> fr_FrameSize a' = fr_FrameSize a \<Longrightarrow> params_ok a' = params_ok a"
  by (simp add: params_ok_def)

lemma absent_transition:
  assumes "absent x r" "frame_address (ar_allocator r) (fh_index h) \<noteq> x"
  shows "absent x (r\<lparr>ar_allocator := snd (transition h e n (ar_allocator r))\<rparr>)"
proof -
  have "frame_address (snd (transition h e n (ar_allocator r))) = frame_address (ar_allocator r)"
    using make_handle_cong [OF transition_params(2)] by (simp add: frame_address_def fun_eq_iff)
  then show ?thesis
    using assms transition_free_list [of h e n "ar_allocator r"] params_ok_cong [OF transition_params, of h e n "ar_allocator r"] by (auto simp: absent_def)
qed

lemma produce_adds:
  assumes "ring_inv r"
  shows "ring_inv (snd (produce [y] r))" "set (ring_contents (snd (produce [y] r))) \<subseteq> insert y (set (ring_contents r))"
  using produce_spec [OF assms refl, of "[y]"] by (auto simp del: produce.simps dest!: in_set_takeD)

lemma absent_refill: "absent x r \<Longrightarrow> y \<noteq> x \<Longrightarrow> absent x (r\<lparr>ar_socket := snd (refill [y] (ar_socket r))\<rparr>)"
  using produce_adds [of "fill_ring (ar_socket r)" y] by (auto simp: absent_def refill_def socket_inv_def case_prod_beta Let_def simp del: produce.simps)

lemma absent_submit: "absent x r \<Longrightarrow> tx_address d \<noteq> x \<Longrightarrow> absent x (r\<lparr>ar_socket := snd (submit_tx [d] (ar_socket r))\<rparr>)"
  using produce_adds [of "tx_ring (ar_socket r)" d] by (auto simp: absent_def submit_tx_def socket_inv_def case_prod_beta Let_def simp del: produce.simps)

lemma absent_kick: "absent x r \<Longrightarrow> absent x (r\<lparr>ar_socket := snd (kick_tx (ar_socket r))\<rparr>)"
  by (simp add: absent_def kick_tx_def socket_inv_def)

lemma handle_other:
  assumes "absent x r" "allocation_ok (handle_from_address (ar_allocator r) y)" "y \<noteq> x"
  shows "frame_address (ar_allocator r) (fh_index (fa_frame (handle_from_address (ar_allocator r) y))) \<noteq> x"
    "fh_address (fa_frame (handle_from_address (ar_allocator r) y)) = y"
proof -
  have "params_ok (ar_allocator r)" "fa_status (handle_from_address (ar_allocator r) y) = FrameOk"
    using assms by (simp_all add: absent_def allocation_ok_def)
  from handle_from_address_ok [OF this] obtain k where "y = fh_address (make_handle (ar_allocator r) k)"
    "handle_from_address (ar_allocator r) y = \<lparr>fa_frame = make_handle (ar_allocator r) k, fa_status = FrameOk\<rparr>" by blast
  then show "frame_address (ar_allocator r) (fh_index (fa_frame (handle_from_address (ar_allocator r) y))) \<noteq> x"
    "fh_address (fa_frame (handle_from_address (ar_allocator r) y)) = y" using assms(3) by (simp_all add: frame_address_def)
qed

lemma frame_address_transition [simp]: "frame_address (snd (transition h e n a)) = frame_address a"
  using make_handle_cong [OF transition_params(2)] by (simp add: frame_address_def fun_eq_iff)

lemma refill_address_absent:
  assumes "absent x (snd sr)" "y \<noteq> x"
  shows "absent x (snd (refill_address owner y sr))"
proof (cases "allocation_ok (handle_from_address (ar_allocator (snd sr)) y)")
  case True
  let ?h = "fa_frame (handle_from_address (ar_allocator (snd sr)) y)"
  let ?r = "(snd sr)\<lparr>ar_allocator := snd (transition ?h owner FillRing (ar_allocator (snd sr)))\<rparr>"
  note h = handle_other [OF assms(1) True assms(2)]
  have 1: "absent x ?r" by (rule absent_transition [OF assms(1) h(1)])
  have 2: "absent x (?r\<lparr>ar_socket := snd (refill [y] (ar_socket ?r))\<rparr>)" by (rule absent_refill [OF 1 assms(2)])
  have 3: "frame_address (ar_allocator (?r\<lparr>ar_socket := snd (refill [y] (ar_socket ?r))\<rparr>)) (fh_index ?h) \<noteq> x" using h(1) by simp
  show ?thesis using True 1 2 absent_transition [OF 2 3, of FillRing owner] h(2)
    by (simp add: refill_address_def refill_one_def case_prod_beta Let_def)
qed (use assms(1) in \<open>simp add: refill_address_def case_prod_beta Let_def\<close>)

lemma submit_one_absent:
  assumes "absent x (snd sr)" "pf_frame_address f \<noteq> x"
  shows "absent x (snd (submit_one f sr))"
proof (cases "allocation_ok (handle_from_address (ar_allocator (snd sr)) (pf_frame_address f))")
  case True
  let ?h = "fa_frame (handle_from_address (ar_allocator (snd sr)) (pf_frame_address f))"
  let ?o = "owner_of (ar_allocator (snd sr)) (fh_index ?h)"
  let ?r = "(snd sr)\<lparr>ar_allocator := snd (transition ?h ?o TxRing (ar_allocator (snd sr)))\<rparr>"
  let ?d = "\<lparr>tx_address = pf_frame_address f, tx_length = pf_frame_length f, tx_options = 0\<rparr>"
  note h = handle_other [OF assms(1) True assms(2)]
  have 1: "absent x ?r" by (rule absent_transition [OF assms(1) h(1)])
  have 2: "absent x (?r\<lparr>ar_socket := snd (submit_tx [?d] (ar_socket ?r))\<rparr>)" by (rule absent_submit [OF 1]) (simp add: assms(2))
  have 3: "frame_address (ar_allocator (?r\<lparr>ar_socket := snd (submit_tx [?d] (ar_socket ?r))\<rparr>)) (fh_index ?h) \<noteq> x" using h(1) by simp
  show ?thesis using True 1 2 absent_kick [OF 2] absent_transition [OF 2 3, of TxRing ?o]
    by (simp add: submit_one_def case_prod_beta Let_def)
qed (use assms(1) in \<open>simp add: submit_one_def case_prod_beta Let_def\<close>)

lemma fold_absent:
  assumes "\<And>y sr. y \<in> set ys \<Longrightarrow> absent x (snd sr) \<Longrightarrow> absent x (snd (f y sr))" "absent x (snd sr)"
  shows "absent x (snd (fold f ys sr))"
  using assms by (induction ys arbitrary: sr) simp_all

lemma drain_absent:
  assumes "absent x (snd sr)"
  shows "absent x (snd (runtime_drain_completions sr))"
proof -
  obtain stats r where sr: "sr = (stats, r)" by fastforce
  have a: "absent x r" and "socket_inv (ar_socket r)" using assms by (simp_all add: sr absent_def)
  from drain_completions_spec [OF this(2)] obtain st ring where
    d: "drain_completions kDataPlaneBatchSize (ar_socket r) =
      (take kDataPlaneBatchSize (completion_contents (ar_socket r)), st, (ar_socket r)\<lparr>completion_ring := ring\<rparr>)" "ring_inv ring"
    "ring_contents ring = drop kDataPlaneBatchSize (completion_contents (ar_socket r))" by blast
  have "absent x (r\<lparr>ar_socket := (ar_socket r)\<lparr>completion_ring := ring\<rparr>\<rparr>)" using a d(2,3) by (auto simp: absent_def socket_inv_def dest: in_set_dropD)
  moreover have "y \<noteq> x" if "y \<in> set (take (ba_count st) (take kDataPlaneBatchSize (completion_contents (ar_socket r))))" for y
    using that a by (auto simp: absent_def dest!: in_set_takeD)
  ultimately show ?thesis using d(1) by (auto simp: runtime_drain_completions_def sr intro!: fold_absent refill_address_absent)
qed

lemma submit_absent:
  "absent x (snd sr) \<Longrightarrow> x \<notin> pf_frame_address ` set fs \<Longrightarrow> absent x (snd (runtime_submit_tx fs sr))"
  unfolding runtime_submit_tx_def by (intro fold_absent submit_one_absent) auto

lemma recycled_absent:
  "absent x (snd sr) \<Longrightarrow> x \<notin> pf_frame_address ` set fs \<Longrightarrow> absent x (snd (refill_recycled fs sr))"
  unfolding refill_recycled_def by (intro fold_absent refill_address_absent) auto

lemma release_absent:
  assumes "absent x (snd sr)"
  shows "absent x (snd (release_delayed sr))"
proof -
  obtain stats r where sr: "sr = (stats, r)" by fastforce
  have a: "absent x r" and w: "wheel_inv (ar_timing_wheel r)" using assms by (simp_all add: sr absent_def)
  obtain expired wheel where t: "tick (ar_timing_wheel r) = (expired, wheel)" by fastforce
  have "absent x (r\<lparr>ar_timing_wheel := wheel\<rparr>)" "x \<notin> pf_frame_address ` set (map processed_of_delayed expired)"
    using a tick_inv [OF w] tick_pending_split(1) [OF w] t by (auto simp: absent_def processed_of_delayed_def)
  then show ?thesis using submit_absent [of x "(stats, r\<lparr>ar_timing_wheel := wheel\<rparr>)"] t by (simp add: sr release_delayed_def release_fold)
qed

lemma take_over_absent:
  assumes "absent x r" "x \<notin> rx_address ` set ys" "x \<notin> pd_frame_address ` set ds" "fold take_over ys (ds, stats, r) = (ds', stats', r')"
  shows "absent x r' \<and> x \<notin> pd_frame_address ` set ds' \<and> length ds' \<le> length ds + length ys"
  using assms
proof (induction ys arbitrary: ds stats r)
  case (Cons y ys)
  let ?h = "handle_from_address (ar_allocator r) (rx_address y)"
  obtain ds1 stats1 r1 where 1: "take_over y (ds, stats, r) = (ds1, stats1, r1)" by (metis prod_cases3)
  have ne: "rx_address y \<noteq> x" using Cons.prems(2) by auto
  have "absent x r1 \<and> x \<notin> pd_frame_address ` set ds1 \<and> length ds1 \<le> Suc (length ds)"
  proof (cases "allocation_ok ?h")
    case True
    show ?thesis using 1 True ne Cons.prems(3) absent_transition [OF Cons.prems(1) handle_other(1) [OF Cons.prems(1) True ne]]
      by (auto simp: take_over_def case_prod_beta Let_def split: if_splits)
  qed (use 1 Cons.prems in \<open>auto simp: take_over_def Let_def\<close>)
  then show ?case using Cons.IH [of r1 ds1 stats1] Cons.prems(2,4) 1 by auto
qed simp

lemma poll_once_absent:
  assumes "absent x r" "poll_once rules r = Some (res, r')"
  shows "absent x r'"
proof (cases "ar_initialized r")
  case True
  obtain st2 r2 where 2: "release_delayed (runtime_drain_completions (RuntimePollStats_init, r)) = (st2, r2)" by fastforce
  have a2: "absent x r2" using release_absent [OF drain_absent, of x "(RuntimePollStats_init, r)"] assms(1) 2 by simp
  then have "socket_inv (ar_socket r2)" by (simp add: absent_def)
  from consume_rx_spec [OF this] obtain st ring where
    c: "consume_rx kDataPlaneBatchSize (ar_socket r2) = (take kDataPlaneBatchSize (rx_contents (ar_socket r2)), st, (ar_socket r2)\<lparr>rx_ring := ring\<rparr>)"
    "ring_inv ring" "ring_contents ring = drop kDataPlaneBatchSize (rx_contents (ar_socket r2))" by blast
  let ?rx = "take (ba_count st) (take kDataPlaneBatchSize (rx_contents (ar_socket r2)))"
  define st3 where "st3 = st2\<lparr>ps_rx_frames := of_nat (ba_count st)\<rparr>"
  obtain ds st4 r3 where 3: "fold take_over ?rx ([], st3, r2\<lparr>ar_socket := (ar_socket r2)\<lparr>rx_ring := ring\<rparr>\<rparr>) = (ds, st4, r3)" by (metis prod_cases3)
  have "absent x (r2\<lparr>ar_socket := (ar_socket r2)\<lparr>rx_ring := ring\<rparr>\<rparr>)" "x \<notin> rx_address ` set ?rx"
    using a2 c(2,3) by (auto simp: absent_def socket_inv_def dest!: in_set_dropD in_set_takeD)
  from take_over_absent [OF this _ 3] have a3: "absent x r3" "x \<notin> pd_frame_address ` set ds" "length ds \<le> kDataPlaneBatchSize" by auto
  then have "wheel_inv (ar_timing_wheel r3)" by (simp add: absent_def)
  from batch_frames [OF this a3(3), of "ar_umem r3" rules] obtain batch umem where
    b: "process_packet_batch (Some (ar_umem r3)) (length (ar_umem r3)) ds rules (ar_timing_wheel r3)
      (replicate kDataPlaneBatchSize ProcessedFrame_init) (replicate kDataPlaneBatchSize ProcessedFrame_init) kDefaultTimingWheelTickNs = Some batch"
    "dp_umem batch = Some umem" "wheel_inv (dp_wheel batch)"
    "image_mset df_frame_address (wheel_pending (ar_timing_wheel r3)) + mset (map pd_frame_address ds) =
      image_mset df_frame_address (wheel_pending (dp_wheel batch)) +
      (mset (map pf_frame_address (take (br_tx_count (dp_result batch)) (dp_tx batch))) +
       mset (map pf_frame_address (take (br_recycle_count (dp_result batch)) (dp_recycle batch))))" by blast
  have x: "x \<notin> df_frame_address ` set_mset (wheel_pending (dp_wheel batch))"
    "x \<notin> pf_frame_address ` set (take (br_tx_count (dp_result batch)) (dp_tx batch))"
    "x \<notin> pf_frame_address ` set (take (br_recycle_count (dp_result batch)) (dp_recycle batch))"
    using arg_cong [OF b(4), of set_mset] a3(1,2) by (auto simp: absent_def)
  let ?r = "r3\<lparr>ar_umem := umem, ar_timing_wheel := dp_wheel batch\<rparr>"
  have a: "absent x ?r" using a3(1) b(3) x(1) by (simp add: absent_def)
  obtain st5 r5 where 5: "runtime_submit_tx (take (br_tx_count (dp_result batch)) (dp_tx batch)) (st4\<lparr>ps_data_plane := br_stats (dp_result batch)\<rparr>, ?r) = (st5, r5)"
    by fastforce
  obtain st6 r6 where 6: "refill_recycled (take (br_recycle_count (dp_result batch)) (dp_recycle batch)) (st5, r5) = (st6, r6)" by fastforce
  have "absent x r5" using submit_absent [OF _ x(2), of "(st4\<lparr>ps_data_plane := br_stats (dp_result batch)\<rparr>, ?r)"] a 5 by simp
  then have "absent x r6" using recycled_absent [OF _ x(3), of "(st5, r5)"] 6 by simp
  moreover have "poll_once rules r = Some (\<lparr>po_status = RuntimeOk, po_stats = st6\<rparr>, r6)"
    using True 2 c(1) 3 b(1,2) 5 6 by (simp add: poll_once_def st3_def)
  ultimately show ?thesis using assms(2) by simp
qed (use assms in \<open>simp add: poll_once_def\<close>)

definition lost :: "u64 \<Rightarrow> system \<Rightarrow> bool" where
  "lost x s = (case s of (r, krx, ktx) \<Rightarrow> absent x r \<and> x \<notin># krx \<and> x \<notin># ktx)"

lemma absent_ring:
  assumes "absent x r"
  shows "ring_inv ring \<Longrightarrow> x \<notin> set (ring_contents ring) \<Longrightarrow> absent x (r\<lparr>ar_socket := (ar_socket r)\<lparr>fill_ring := ring\<rparr>\<rparr>)"
    "ring_inv ring \<Longrightarrow> x \<notin> set (ring_contents ring) \<Longrightarrow> absent x (r\<lparr>ar_socket := (ar_socket r)\<lparr>completion_ring := ring\<rparr>\<rparr>)"
    "ring_inv ring' \<Longrightarrow> x \<notin> rx_address ` set (ring_contents ring') \<Longrightarrow>
      absent x (r\<lparr>ar_umem := umem, ar_socket := (ar_socket r)\<lparr>rx_ring := ring'\<rparr>\<rparr>)"
    "ring_inv ring'' \<Longrightarrow> x \<notin> tx_address ` set (ring_contents ring'') \<Longrightarrow> absent x (r\<lparr>ar_socket := (ar_socket r)\<lparr>tx_ring := ring''\<rparr>\<rparr>)"
  using assms by (simp_all add: absent_def socket_inv_def)

lemma absentD:
  assumes "absent x r"
  shows "ring_inv (fill_ring (ar_socket r))" "ring_inv (completion_ring (ar_socket r))" "ring_inv (rx_ring (ar_socket r))"
    "ring_inv (tx_ring (ar_socket r))" "x \<notin> set (fill_contents (ar_socket r))" "x \<notin> set (completion_contents (ar_socket r))"
    "x \<notin> rx_address ` set (rx_contents (ar_socket r))" "x \<notin> tx_address ` set (tx_contents (ar_socket r))"
  using assms by (simp_all add: absent_def socket_inv_def)

lemma card_step_lost: "card_step s s' \<Longrightarrow> lost x s \<Longrightarrow> lost x s'"
proof (induction rule: card_step.induct)
  case (takes_fill m r xs sock krx ktx)
  then have a: "absent x r" by (simp add: lost_def)
  obtain ring where c: "consume m (fill_ring (ar_socket r)) = (xs, ring)" "sock = (ar_socket r)\<lparr>fill_ring := ring\<rparr>"
    using takes_fill.hyps by (auto simp: consume_fill_def split: prod.splits)
  note p = consume_parts [OF c(1) absentD(1) [OF a]]
  show ?case using absent_ring(1) [OF a p(1)] arg_cong [OF p(2), of set_mset] absentD(5) [OF a] takes_fill.prems c(2) by (auto simp: lost_def)
next
  case (delivers d krx r sock umem ktx)
  then have a: "absent x r" "rx_address d \<noteq> x" by (auto simp: lost_def)
  obtain ring where c: "produce [d] (rx_ring (ar_socket r)) = (1, ring)" "sock = (ar_socket r)\<lparr>rx_ring := ring\<rparr>"
    using delivers.hyps(2) by (auto simp: inject_rx_def simp del: produce.simps split: prod.splits)
  note p = produce_count [OF c(1) absentD(3) [OF a(1)]]
  show ?case using absent_ring(3) [OF a(1) p(1), of umem] p(2) absentD(7) [OF a(1)] delivers.prems a(2) c(2) by (auto simp: lost_def dest: in_diffD)
next
  case (takes_tx m r xs ring krx ktx)
  then have a: "absent x r" by (simp add: lost_def)
  note p = consume_parts [OF takes_tx.hyps absentD(4) [OF a]]
  show ?case using absent_ring(4) [OF a p(1)] arg_cong [OF p(2), of set_mset] absentD(8) [OF a] takes_tx.prems by (auto simp: lost_def)
next
  case (completes y ktx r sock krx)
  then have a: "absent x r" "y \<noteq> x" by (auto simp: lost_def)
  obtain ring where c: "produce [y] (completion_ring (ar_socket r)) = (1, ring)" "sock = (ar_socket r)\<lparr>completion_ring := ring\<rparr>"
    using completes.hyps(2) by (auto simp: complete_tx_def simp del: produce.simps split: prod.splits)
  note p = produce_count [OF c(1) absentD(2) [OF a(1)]]
  show ?case using absent_ring(2) [OF a(1) p(1)] p(2) absentD(6) [OF a(1)] completes.prems a(2) c(2) by (auto simp: lost_def dest: in_diffD)
qed

lemma frame_step_lost: "frame_step s s' \<Longrightarrow> lost x s \<Longrightarrow> lost x s'"
proof (induction rule: frame_step.induct)
  case (polls rules r res r' krx ktx)
  then show ?case using poll_once_absent by (auto simp: lost_def)
qed (rule card_step_lost)

lemma frame_steps_lost: "frame_step\<^sup>*\<^sup>* s s' \<Longrightarrow> lost x s \<Longrightarrow> lost x s'"
  by (induction rule: rtranclp_induct) (auto intro: frame_step_lost)

lemma lost_nowhere: "lost x s \<Longrightarrow> x \<notin># all_places s"
  by (auto simp: lost_def absent_def all_places_def)

lemma in_hand_lost:
  assumes pool: "pool_inv (ar_allocator r)" and parts: "socket_inv (ar_socket r)" "wheel_inv (ar_timing_wheel r)" and pl: "places r krx ktx {#x#}"
  shows "lost x (r, krx, ktx)"
proof -
  let ?a = "ar_allocator r"
  have dp: "owned ?a DataPlane = add_mset x (image_mset df_frame_address (wheel_pending (ar_timing_wheel r)))" using pl by (simp add: places_def)
  then have x: "x \<in> owned_set ?a DataPlane" by (metis in_owned union_single_eq_member)
  have "count (owned ?a DataPlane) x = 1" using x by (simp add: owned_def)
  then have "x \<notin># image_mset df_frame_address (wheel_pending (ar_timing_wheel r))" unfolding not_in_iff using dp by simp
  moreover have "x \<notin># owned ?a owner" if "owner \<noteq> DataPlane" for owner
    using owned_disjoint [OF pool_invD(1) [OF pool] x] that by auto
  from this [of Free] this [of FillRing] this [of TxRing]
  have "x \<notin># owned ?a Free" "x \<notin># owned ?a FillRing" "x \<notin># owned ?a TxRing" by (simp_all only: FrameOwner.distinct not_False_eq_True)
  ultimately show ?thesis using pl parts pool_invD(1) [OF pool] unfolding owned_free [OF pool]
    by (auto simp: lost_def absent_def places_def simp del: in_owned)
qed

lemma submit_full:
  assumes pool: "pool_inv (ar_allocator r)" and sock: "socket_inv (ar_socket r)" and x: "pf_frame_address f \<in> owned_set (ar_allocator r) DataPlane"
    and full: "length (tx_contents (ar_socket r)) = sr_capacity (tx_ring (ar_socket r))"
  shows "\<exists>a'. runtime_submit_tx [f] (stats, r) = (stats\<lparr>ps_fill_failures := ps_fill_failures stats + 1\<rparr>, r\<lparr>ar_allocator := a'\<rparr>) \<and>
    pool_inv a' \<and> (\<forall>owner. owned a' owner = owned (ar_allocator r) owner)"
proof -
  let ?a = "ar_allocator r" and ?x = "pf_frame_address f"
  have ne: "DataPlane \<noteq> Free" "DataPlane \<noteq> TxRing" "TxRing \<noteq> Free" "TxRing \<noteq> DataPlane" by simp_all
  obtain h a1 where 1: "handle_from_address ?a ?x = \<lparr>fa_frame = h, fa_status = FrameOk\<rparr>" "owner_of ?a (fh_index h) = DataPlane"
    "transition h DataPlane TxRing ?a = (FrameOk, a1)" "pool_inv a1" "fr_FrameCount a1 = fr_FrameCount ?a" "fr_FrameSize a1 = fr_FrameSize ?a"
    "owned ?a DataPlane = add_mset ?x (owned a1 DataPlane)" "owned a1 TxRing = add_mset ?x (owned ?a TxRing)"
    "\<And>owner. owner \<noteq> DataPlane \<Longrightarrow> owner \<noteq> TxRing \<Longrightarrow> owned a1 owner = owned ?a owner"
    using transition_moves [OF pool x ne(1,2)] by metis
  have x1: "?x \<in> owned_set a1 TxRing" using 1(8) by (metis in_owned union_single_eq_member)
  have h1: "handle_from_address a1 ?x = handle_from_address ?a ?x"
    using 1(5,6) by (simp add: handle_from_address_def umem_size_bytes_def make_handle_def)
  obtain a2 where 2: "transition h TxRing DataPlane a1 = (FrameOk, a2)" "pool_inv a2"
    "owned a1 TxRing = add_mset ?x (owned a2 TxRing)" "owned a2 DataPlane = add_mset ?x (owned a1 DataPlane)"
    "\<And>owner. owner \<noteq> TxRing \<Longrightarrow> owner \<noteq> DataPlane \<Longrightarrow> owned a2 owner = owned a1 owner"
    using transition_moves [OF 1(4) x1 ne(3,4)] h1 1(1) by (metis FrameAllocation.select_convs(1))
  have "owned a2 owner = owned ?a owner" for owner using 1(7-9) 2(3-5) by (cases "owner = TxRing"; cases "owner = DataPlane") auto
  moreover have "submit_tx [d] (ar_socket r) = (\<lparr>ba_count = 0, ba_status = SocketRingFull\<rparr>, ar_socket r)" for d
    using produce_full [OF _ full, of "[d]"] sock by (simp add: submit_tx_def socket_inv_def del: produce.simps)
  ultimately show ?thesis using 1(1-3) 2(1,2) by (intro exI [of _ a2]) (simp add: runtime_submit_tx_def submit_one_def allocation_ok_def)
qed

text \<open>C29: A frame that is to be transmitted when the transmit ring is full is lost for good. \<open>submit_tx\<close> counts it as a failed refill and puts its
  owner back to \<open>DataPlane\<close>, so that from then on, after any polls and any steps of the network card, the frame is in no
  ring, not in the wheel, not with the card and not free.\<close>

theorem full_tx_ring_loses_frame:
  assumes "pool_inv (ar_allocator r)" "socket_inv (ar_socket r)" "wheel_inv (ar_timing_wheel r)" "places r krx ktx {#pf_frame_address f#}"
    and "length (tx_contents (ar_socket r)) = sr_capacity (tx_ring (ar_socket r))"
    and "runtime_submit_tx [f] (stats, r) = (stats', r')" "frame_step\<^sup>*\<^sup>* (r', krx, ktx) s"
  shows "ps_fill_failures stats' = ps_fill_failures stats + 1 \<and> pf_frame_address f \<notin># all_places s"
proof -
  have "pf_frame_address f \<in># owned (ar_allocator r) DataPlane" using assms(4) by (simp add: places_def del: in_owned)
  then have x: "pf_frame_address f \<in> owned_set (ar_allocator r) DataPlane" by simp
  obtain a' where a': "stats' = stats\<lparr>ps_fill_failures := ps_fill_failures stats + 1\<rparr>" "r' = r\<lparr>ar_allocator := a'\<rparr>" "pool_inv a'"
    "\<forall>owner. owned a' owner = owned (ar_allocator r) owner"
    using submit_full [OF assms(1,2) x assms(5), of stats] assms(6) by auto
  have "places r' krx ktx {#pf_frame_address f#}" using assms(4) a'(2,4) by (simp add: places_def)
  then have "lost (pf_frame_address f) (r', krx, ktx)" using in_hand_lost [of r'] assms(2,3) a'(2,3) by simp
  from lost_nowhere [OF frame_steps_lost [OF assms(7) this]] show ?thesis using a'(1) by simp
qed

text \<open>A device with two frames and a transmit ring of one entry: frame 0 waits there, frame 1 is about to be sent.\<close>

definition busy_pool :: FrameAllocator where
  "busy_pool = snd (allocate DataPlane (snd (allocate TxRing (FrameAllocator_init 2 2048))))"

definition busy_device :: AfXdpRuntimeAdapter where
  "busy_device = (new_device 2 2048 1 1 1 1 4 1)\<lparr>ar_allocator := busy_pool, ar_socket := snd (submit_tx [demo_tx] (SimulatedXskSocket_init 1 1 1 1))\<rparr>"

definition busy_frame :: ProcessedFrame where
  "busy_frame = ProcessedFrame_init\<lparr>pf_frame_address := 2048, pf_frame_length := 64\<rparr>"

lemma busy_pool_inv: "pool_inv busy_pool"
proof -
  have "is_pow2 2048" by (rule is_pow2I [of _ 11]) simp_all
  then show ?thesis unfolding busy_pool_def by (intro allocate_inv pool_inv_init) (simp_all add: kMinXdpFrameSizeBytes_def)
qed

lemma busy_pool_owned: "owned busy_pool owner = (if owner = TxRing then {#0#} else if owner = DataPlane then {#2048#} else {#})"
proof -
  have two: "unat k < 2 \<longleftrightarrow> k = 0 \<or> k = 1" for k :: u32
    by (metis One_nat_def less_2_cases_iff unat_0 unat_1 unat_eq_zero word_unat_eq_iff)
  have c: "fr_FrameCount busy_pool = 2" "owner_of busy_pool 0 = TxRing" "owner_of busy_pool 1 = DataPlane"
    "frame_address busy_pool 0 = 0" "frame_address busy_pool 1 = 2048" by code_simp+
  have "{k. unat k < fr_FrameCount busy_pool \<and> owner_of busy_pool k = owner} =
      (if owner = TxRing then {0} else if owner = DataPlane then {1} else {})"
    using c(1-3) two by auto
  then show ?thesis using c(4,5) by (simp add: owned_def owned_set_def)
qed

lemma busy_device_ok:
  "socket_inv (ar_socket busy_device) \<and> wheel_inv (ar_timing_wheel busy_device) \<and> places busy_device {#} {#} {#pf_frame_address busy_frame#} \<and>
   length (tx_contents (ar_socket busy_device)) = sr_capacity (tx_ring (ar_socket busy_device))"
proof -
  let ?s = "SimulatedXskSocket_init 1 1 1 1"
  have one: "is_pow2 1" "is_pow2 4" by (rule is_pow2I [of _ 0] is_pow2I [of _ 2]; simp)+
  note i = socket_init_inv [OF one(1) one(1) one(1) one(1)]
  obtain st ring where "submit_tx [demo_tx] ?s = (st, ?s\<lparr>tx_ring := ring\<rparr>)" "ring_inv ring" "ring_contents ring = [demo_tx]" "sr_capacity ring = 1"
    using submit_one_room [OF i(1), of demo_tx] i by auto
  then show ?thesis using i wheel_inv_init [OF one(2), of 1] busy_pool_owned
    by (simp add: busy_device_def new_device_def AfXdpRuntimeAdapter_init_def socket_inv_def places_def busy_frame_def demo_tx_def)
qed

theorem full_tx_ring_loses_frame_witness:
  "\<exists>r'. runtime_submit_tx [busy_frame] (RuntimePollStats_init, busy_device) = (RuntimePollStats_init\<lparr>ps_fill_failures := 1\<rparr>, r') \<and>
     2048 \<notin># all_places (r', {#}, {#})"
proof -
  have p: "pool_inv (ar_allocator busy_device)" by (simp add: busy_device_def busy_pool_inv)
  have x: "pf_frame_address busy_frame \<in> owned_set (ar_allocator busy_device) DataPlane"
    using busy_pool_owned [of DataPlane] by (simp add: busy_device_def busy_frame_def flip: in_owned)
  note ok = busy_device_ok [THEN conjunct1] busy_device_ok [THEN conjunct2, THEN conjunct1]
    busy_device_ok [THEN conjunct2, THEN conjunct2, THEN conjunct1] busy_device_ok [THEN conjunct2, THEN conjunct2, THEN conjunct2]
  obtain a' where s: "runtime_submit_tx [busy_frame] (RuntimePollStats_init, busy_device) =
      (RuntimePollStats_init\<lparr>ps_fill_failures := ps_fill_failures RuntimePollStats_init + 1\<rparr>, busy_device\<lparr>ar_allocator := a'\<rparr>)"
    using submit_full [OF p ok(1) x ok(4), of RuntimePollStats_init] by blast
  from full_tx_ring_loses_frame [OF p ok s rtranclp.rtrancl_refl]
  have "2048 \<notin># all_places (busy_device\<lparr>ar_allocator := a'\<rparr>, {#}, {#})" by (simp add: busy_frame_def)
  then show ?thesis using s by (auto simp: RuntimePollStats_init_def)
qed

end
