(* ===== verification/Delayed_Frames.thy ===== *)
theory Delayed_Frames
  imports Frame_Lifecycle
begin

section \<open>Delayed frames are sent, and on time\<close>

text \<open>
  The timing wheel is advanced by the poll loop only, once per poll. The theory follows one delayed frame through the polls: the data
  plane only adds frames to the wheel, so the frame waits as many polls as it has ticks to go, and the last of them
  puts it into the transmit ring.
\<close>

subsection \<open>The data plane only adds to the wheel\<close>

definition awaits :: "DelayedFrame \<Rightarrow> nat \<Rightarrow> TimingWheel \<Rightarrow> bool" where
  "awaits f k w \<longleftrightarrow> f \<in># wheel_pending w \<and> remaining w f = k"

lemma awaits_schedule: "wheel_inv w \<Longrightarrow> awaits f k w \<Longrightarrow> awaits f k (snd (schedule g d w))"
  by (simp add: awaits_def schedule_pending remaining_def)

lemma awaits_tick:
  assumes "wheel_inv w" "awaits f (Suc k) w"
  shows "k = 0 \<Longrightarrow> f \<in> set (fst (tick w))" "k \<noteq> 0 \<Longrightarrow> awaits f k (snd (tick w))"
proof -
  have r: "unat (df_release_tick f - tw_current_tick w) = Suc k" "f \<in># wheel_pending w" using assms(2) by (simp_all add: awaits_def remaining_def)
  have "df_release_tick f - tw_current_tick w = of_nat (Suc k)" unfolding r(1) [symmetric] by simp
  then have t: "df_release_tick f = tw_current_tick w + 1 + of_nat k" by (simp add: diff_eq_eq ac_simps)
  have k: "Suc k < 2 ^ 64" unfolding r(1) [symmetric] by (rule unat_less_2_64)
  have f: "f \<in> set (fst (tick w)) \<or> f \<in># wheel_pending (snd (tick w))" using r(2) unfolding tick_pending_split(1) [OF assms(1)] by simp
  show "f \<in> set (fst (tick w))" if "k = 0" using f tick_pending_split(3) [OF assms(1), of f] t that by auto
  show "awaits f k (snd (tick w))" if "k \<noteq> 0"
  proof -
    have u: "unat (of_nat k :: u64) = k" using k by (simp add: unat_of_nat)
    then have "(of_nat k :: u64) \<noteq> 0" using that by auto
    then have "f \<notin> set (fst (tick w))" using tick_pending_split(2) [OF assms(1), of f] t by auto
    then show ?thesis using f t u by (simp add: awaits_def remaining_def)
  qed
qed

lemma process_packet_wheel:
  assumes "mem_ok n s" "process_packet n rules tick_ns d s = Some s'"
  shows "dp_wheel s' = dp_wheel s \<or> (\<exists>f t. dp_wheel s' = snd (schedule f t (dp_wheel s)))"
  using assms(1)
proof (cases rule: process_packet_cases [where rules = rules and tick_ns = tick_ns and d = d, consumes 1])
  case (delayed p s1 decision)
  then show ?thesis using assms(2)
    by (auto simp: delay_frame_def counted_def Let_def case_prod_beta drop_frame_def recycle_frame_def)
qed (use assms(2) in \<open>auto simp: counted_def Let_def case_prod_beta drop_frame_def recycle_frame_def emit_frame_def\<close>)

lemma process_loop_awaits:
  "mem_ok n s \<Longrightarrow> dp_ok s \<Longrightarrow> awaits f k (dp_wheel s) \<Longrightarrow> process_loop n rules tick_ns ds s = Some s' \<Longrightarrow> awaits f k (dp_wheel s')"
proof (induction ds arbitrary: s)
  case (Cons d ds)
  obtain s1 s2 where p: "process_packet n rules tick_ns d s = Some s2" "exited (pd_frame_address d) s1 s2" "same_outside [d] (dp_umem s) (dp_umem s2)"
    using process_packet_step [OF Cons.prems(1,2)] .
  have "mem_ok n s2" "dp_ok s2" using same_outside_mem_ok [OF Cons.prems(1) p(3)] p(2) by (simp_all add: exited_def)
  moreover have "awaits f k (dp_wheel s2)"
    using process_packet_wheel [OF Cons.prems(1) p(1)] awaits_schedule [OF _ Cons.prems(3)] Cons.prems(2,3) by (auto simp: dp_ok_def)
  ultimately show ?case using Cons.IH [of s2] Cons.prems(4) p(1) by simp
qed simp

lemma batch_awaits:
  assumes "wheel_inv wheel" "awaits f k wheel"
    "process_packet_batch (Some umem) (length umem) ds rules wheel tx rec tick_ns = Some batch"
  shows "awaits f k (dp_wheel batch)"
proof (rule process_loop_awaits)
  let ?s = "batch_start (Some umem) wheel tx rec"
  show "mem_ok (length umem) ?s" by (rule batch_start_mem) simp
  show "dp_ok ?s" by (rule batch_start_ok [OF assms(1)])
  show "awaits f k (dp_wheel ?s)" using assms(2) by (simp add: batch_start_def)
  show "process_loop (length umem) rules tick_ns ds ?s = Some batch" using assms(3) by (simp add: process_packet_batch_start)
qed

subsection \<open>What the other phases leave alone\<close>

lemma refill_address_keeps:
  "ar_timing_wheel (snd (refill_address owner x sr)) = ar_timing_wheel (snd sr)"
  "tx_ring (ar_socket (snd (refill_address owner x sr))) = tx_ring (ar_socket (snd sr))"
  by (simp_all add: refill_address_def refill_one_def refill_def case_prod_beta Let_def)

lemma submit_one_wheel: "ar_timing_wheel (snd (submit_one f sr)) = ar_timing_wheel (snd sr)"
  by (simp add: submit_one_def case_prod_beta Let_def)

lemma take_over_keeps:
  "ar_timing_wheel (snd (snd (take_over d dsr))) = ar_timing_wheel (snd (snd dsr))"
  "tx_ring (ar_socket (snd (snd (take_over d dsr)))) = tx_ring (ar_socket (snd (snd dsr)))"
  by (simp_all add: take_over_def case_prod_beta Let_def)

lemma take_over_fold_keeps:
  "ar_timing_wheel (snd (snd (fold take_over xs dsr))) = ar_timing_wheel (snd (snd dsr))"
  "tx_ring (ar_socket (snd (snd (fold take_over xs dsr)))) = tx_ring (ar_socket (snd (snd dsr)))"
  by (induction xs arbitrary: dsr) (simp_all add: take_over_keeps)

lemma runtime_submit_tx_wheel: "ar_timing_wheel (snd (runtime_submit_tx fs sr)) = ar_timing_wheel (snd sr)"
  unfolding runtime_submit_tx_def by (rule fold_keeps) (rule submit_one_wheel)

lemma refill_recycled_keeps:
  "ar_timing_wheel (snd (refill_recycled fs sr)) = ar_timing_wheel (snd sr)"
  "tx_ring (ar_socket (snd (refill_recycled fs sr))) = tx_ring (ar_socket (snd sr))"
  unfolding refill_recycled_def
  by (rule fold_keeps [of "\<lambda>sr. ar_timing_wheel (snd sr)"], rule refill_address_keeps,
      rule fold_keeps [of "\<lambda>sr. tx_ring (ar_socket (snd sr))"], rule refill_address_keeps)

lemma drain_wheel: "ar_timing_wheel (snd (runtime_drain_completions sr)) = ar_timing_wheel (snd sr)"
  by (simp add: runtime_drain_completions_def case_prod_beta Let_def
      fold_keeps [of "\<lambda>sr. ar_timing_wheel (snd sr)", OF refill_address_keeps(1)])

lemma submit_one_tx:
  assumes "ring_inv (tx_ring (ar_socket (snd sr)))"
  shows "ring_inv (tx_ring (ar_socket (snd (submit_one f sr))))"
    "set (tx_contents (ar_socket (snd sr))) \<subseteq> set (tx_contents (ar_socket (snd (submit_one f sr))))"
proof -
  have "ring_inv (snd (produce [d] (tx_ring (ar_socket (snd sr)))))"
    "set (tx_contents (ar_socket (snd sr))) \<subseteq> set (ring_contents (snd (produce [d] (tx_ring (ar_socket (snd sr))))))" for d
    using produce_spec [OF assms refl, of "[d]"] by (auto simp del: produce.simps)
  then show "ring_inv (tx_ring (ar_socket (snd (submit_one f sr))))"
    "set (tx_contents (ar_socket (snd sr))) \<subseteq> set (tx_contents (ar_socket (snd (submit_one f sr))))"
    using assms by (simp_all add: submit_one_def submit_tx_def kick_tx_def case_prod_beta Let_def del: produce.simps)
qed

lemma submit_tx_grows:
  "ring_inv (tx_ring (ar_socket (snd sr))) \<Longrightarrow>
    set (tx_contents (ar_socket (snd sr))) \<subseteq> set (tx_contents (ar_socket (snd (runtime_submit_tx fs sr))))"
proof (induction fs arbitrary: sr)
  case (Cons f fs)
  show ?case using Cons.IH [OF submit_one_tx(1) [OF Cons.prems, of f]] submit_one_tx(2) [OF Cons.prems, of f]
    by (simp add: runtime_submit_tx_def)
qed (simp add: runtime_submit_tx_def)

lemma submit_sent:
  "runtime_inv r krx ktx (mset (map pf_frame_address fs) + hand) \<Longrightarrow>
    pf_frame_address ` set fs \<subseteq> tx_address ` set (tx_contents (ar_socket (snd (runtime_submit_tx fs (stats, r)))))"
proof (induction fs arbitrary: stats r)
  case (Cons f fs)
  obtain stats1 r1 where 1: "submit_one f (stats, r) = (stats1, r1)"
    "runtime_inv r1 krx ktx (mset (map pf_frame_address fs) + hand)"
    using submit_one_inv [of r krx ktx f "mset (map pf_frame_address fs) + hand" stats] Cons.prems by auto
  have p: "parts_ok r" "runtime_inv r krx ktx (add_mset (pf_frame_address f) (mset (map pf_frame_address fs) + hand))"
    using Cons.prems by (simp_all add: runtime_inv_def)
  have x: "pf_frame_address f \<in> owned_set (ar_allocator r) DataPlane" using hand_owned [OF p(2)] by simp
  have room: "length (tx_contents (ar_socket r)) < sr_capacity (tx_ring (ar_socket r))" using runtime_room(2) [OF p(2) x] by simp
  obtain d where d: "tx_contents (ar_socket r1) = tx_contents (ar_socket r) @ [d]" "tx_address d = pf_frame_address f"
    using submit_one_moves [OF p(1) x room, of stats] 1(1) by auto
  have "ring_inv (tx_ring (ar_socket r1))" using 1(2) by (simp add: runtime_inv_def parts_ok_def socket_inv_def)
  then have "set (tx_contents (ar_socket r1)) \<subseteq> set (tx_contents (ar_socket (snd (runtime_submit_tx fs (stats1, r1)))))"
    using submit_tx_grows [of "(stats1, r1)" fs] by simp
  then have "pf_frame_address f \<in> tx_address ` set (tx_contents (ar_socket (snd (runtime_submit_tx fs (stats1, r1)))))"
    using d by (intro image_eqI [of _ _ d]) auto
  then show ?case using Cons.IH [OF 1(2), of stats1] 1(1) by (simp add: runtime_submit_tx_def)
qed simp

subsection \<open>One poll\<close>

lemma poll_once_phases:
  assumes "poll_once rules r = Some (res, r')" "ar_initialized r"
  obtains st1 r1 st2 r2 rx st sock ds st3 st4 r4 batch umem st5 r5 st6 where
    "runtime_drain_completions (RuntimePollStats_init, r) = (st1, r1)" "release_delayed (st1, r1) = (st2, r2)"
    "consume_rx kDataPlaneBatchSize (ar_socket r2) = (rx, st, sock)"
    "fold take_over (take (ba_count st) rx) ([], st3, r2\<lparr>ar_socket := sock\<rparr>) = (ds, st4, r4)"
    "process_packet_batch (Some (ar_umem r4)) (length (ar_umem r4)) ds rules (ar_timing_wheel r4)
       (replicate kDataPlaneBatchSize ProcessedFrame_init) (replicate kDataPlaneBatchSize ProcessedFrame_init) kDefaultTimingWheelTickNs = Some batch"
    "runtime_submit_tx (take (br_tx_count (dp_result batch)) (dp_tx batch))
       (st4\<lparr>ps_data_plane := br_stats (dp_result batch)\<rparr>, r4\<lparr>ar_umem := umem, ar_timing_wheel := dp_wheel batch\<rparr>) = (st5, r5)"
    "refill_recycled (take (br_recycle_count (dp_result batch)) (dp_recycle batch)) (st5, r5) = (st6, r')"
proof -
  obtain st1 r1 where 1: "runtime_drain_completions (RuntimePollStats_init, r) = (st1, r1)" by fastforce
  obtain st2 r2 where 2: "release_delayed (st1, r1) = (st2, r2)" by fastforce
  obtain rx st sock where 3: "consume_rx kDataPlaneBatchSize (ar_socket r2) = (rx, st, sock)" by (metis prod_cases3)
  define st3 where "st3 = st2\<lparr>ps_rx_frames := of_nat (ba_count st)\<rparr>"
  obtain ds st4 r4 where 4: "fold take_over (take (ba_count st) rx) ([], st3, r2\<lparr>ar_socket := sock\<rparr>) = (ds, st4, r4)" by (metis prod_cases3)
  define outcome where "outcome = process_packet_batch (Some (ar_umem r4)) (length (ar_umem r4)) ds rules (ar_timing_wheel r4)
       (replicate kDataPlaneBatchSize ProcessedFrame_init) (replicate kDataPlaneBatchSize ProcessedFrame_init) kDefaultTimingWheelTickNs"
  show ?thesis
  proof (cases outcome)
    case None
    then show ?thesis using assms 1 2 3 4 by (simp add: poll_once_def st3_def outcome_def)
  next
    case (Some batch)
    define umem where "umem = (case dp_umem batch of None \<Rightarrow> ar_umem r4 | Some umem \<Rightarrow> umem)"
    obtain st5 r5 where 5: "runtime_submit_tx (take (br_tx_count (dp_result batch)) (dp_tx batch))
       (st4\<lparr>ps_data_plane := br_stats (dp_result batch)\<rparr>, r4\<lparr>ar_umem := umem, ar_timing_wheel := dp_wheel batch\<rparr>) = (st5, r5)" by fastforce
    obtain st6 r6 where 6: "refill_recycled (take (br_recycle_count (dp_result batch)) (dp_recycle batch)) (st5, r5) = (st6, r6)" by fastforce
    have "r6 = r'" using assms 1 2 3 4 5 6 Some by (simp add: poll_once_def st3_def umem_def outcome_def)
    then show ?thesis using that [OF 1 2 3 4 _ 5] 6 Some by (simp add: outcome_def)
  qed
qed

lemma release_delayed_wheel: "ar_timing_wheel (snd (release_delayed sr)) = snd (tick (ar_timing_wheel (snd sr)))"
  by (simp add: release_delayed_def release_fold runtime_submit_tx_wheel case_prod_beta Let_def)

lemma poll_once_awaits:
  assumes inv: "runtime_inv r krx ktx {#}" and i: "ar_initialized r" and p: "poll_once rules r = Some (res, r')"
    and a: "awaits f (Suc k) (ar_timing_wheel r)"
  shows "if k = 0 then df_frame_address f \<in> tx_address ` set (tx_contents (ar_socket r')) else awaits f k (ar_timing_wheel r')"
  using p i
proof (rule poll_once_phases)
  fix st1 r1 st2 r2 rx st sock ds st3 st4 r4 batch umem st5 r5 st6
  assume 1: "runtime_drain_completions (RuntimePollStats_init, r) = (st1, r1)" and 2: "release_delayed (st1, r1) = (st2, r2)"
    and 3: "consume_rx kDataPlaneBatchSize (ar_socket r2) = (rx, st, sock)"
    and 4: "fold take_over (take (ba_count st) rx) ([], st3, r2\<lparr>ar_socket := sock\<rparr>) = (ds, st4, r4)"
    and b: "process_packet_batch (Some (ar_umem r4)) (length (ar_umem r4)) ds rules (ar_timing_wheel r4)
       (replicate kDataPlaneBatchSize ProcessedFrame_init) (replicate kDataPlaneBatchSize ProcessedFrame_init) kDefaultTimingWheelTickNs = Some batch"
    and 5: "runtime_submit_tx (take (br_tx_count (dp_result batch)) (dp_tx batch))
       (st4\<lparr>ps_data_plane := br_stats (dp_result batch)\<rparr>, r4\<lparr>ar_umem := umem, ar_timing_wheel := dp_wheel batch\<rparr>) = (st5, r5)"
    and 6: "refill_recycled (take (br_recycle_count (dp_result batch)) (dp_recycle batch)) (st5, r5) = (st6, r')"
  have inv1: "runtime_inv r1 krx ktx {#}" using drain_phase [OF inv, of RuntimePollStats_init] 1 by auto
  have inv2: "runtime_inv r2 krx ktx {#}" using release_phase [OF inv1, of st1] 2 by auto
  have w: "wheel_inv (ar_timing_wheel r)" "wheel_inv (ar_timing_wheel r2)" "ring_inv (tx_ring (ar_socket r2))"
    using inv inv2 by (simp_all add: runtime_inv_def parts_ok_def socket_inv_def)
  have w1: "ar_timing_wheel r1 = ar_timing_wheel r" using drain_wheel [of "(RuntimePollStats_init, r)"] 1 by simp
  then have w2: "ar_timing_wheel r2 = snd (tick (ar_timing_wheel r))" using release_delayed_wheel [of "(st1, r1)"] 2 by simp
  have "tx_ring sock = tx_ring (ar_socket r2)" using 3 by (auto simp: consume_rx_def case_prod_beta Let_def)
  then have w4: "ar_timing_wheel r4 = ar_timing_wheel r2" "tx_ring (ar_socket r4) = tx_ring (ar_socket r2)"
    using take_over_fold_keeps [of "take (ba_count st) rx" "([], st3, r2\<lparr>ar_socket := sock\<rparr>)"]
    unfolding 4 by simp_all
  let ?txs = "take (br_tx_count (dp_result batch)) (dp_tx batch)"
  let ?sr = "(st4\<lparr>ps_data_plane := br_stats (dp_result batch)\<rparr>, r4\<lparr>ar_umem := umem, ar_timing_wheel := dp_wheel batch\<rparr>)"
  have w6: "ar_timing_wheel r' = dp_wheel batch" "tx_ring (ar_socket r') = tx_ring (ar_socket r5)"
    using refill_recycled_keeps [of "take (br_recycle_count (dp_result batch)) (dp_recycle batch)" "(st5, r5)"]
      runtime_submit_tx_wheel [of ?txs ?sr] unfolding 5 6 by simp_all
  have "awaits f k (ar_timing_wheel r')" if "k \<noteq> 0"
  proof -
    have "awaits f k (ar_timing_wheel r4)" using awaits_tick(2) [OF w(1) a that] w2 w4(1) by simp
    then show ?thesis using batch_awaits [OF _ _ b, of f k] w(2) w4(1) w6(1) by simp
  qed
  moreover have "df_frame_address f \<in> tx_address ` set (tx_contents (ar_socket r'))" if "k = 0"
  proof -
    have e: "f \<in> set (fst (tick (ar_timing_wheel r1)))" using awaits_tick(1) [OF w(1) a that] w1 by simp
    let ?es = "map processed_of_delayed (fst (tick (ar_timing_wheel r1)))" and ?r = "r1\<lparr>ar_timing_wheel := snd (tick (ar_timing_wheel r1))\<rparr>"
    have "runtime_inv ?r krx ktx (mset (map pf_frame_address ?es) + {#})"
      using inv1 tick_inv [of "ar_timing_wheel r1"] tick_pending_split(1) [of "ar_timing_wheel r1"]
      by (simp add: runtime_inv_def parts_ok_def places_def processed_of_delayed_def comp_def ac_simps)
    note sent = submit_sent [OF this, of st1]
    have r2: "runtime_submit_tx ?es (st1, ?r) = (st2, r2)" using 2 by (simp add: release_delayed_def release_fold case_prod_beta)
    have "df_frame_address f \<in> pf_frame_address ` set ?es" using e by (auto simp: image_image processed_of_delayed_def)
    then have "df_frame_address f \<in> tx_address ` set (tx_contents (ar_socket r2))" using sent unfolding r2 by auto
    moreover have "set (tx_contents (ar_socket r2)) \<subseteq> set (tx_contents (ar_socket r'))"
      using submit_tx_grows [of ?sr ?txs] w(3) w4(2) w6(2) unfolding 5 by simp
    ultimately show ?thesis by blast
  qed
  ultimately show ?thesis by simp
qed

subsection \<open>Any number of polls\<close>

text \<open>\<open>polls_run n s s'\<close>: from \<open>s\<close> to \<open>s'\<close> in any steps of the runtime and the card, of which \<open>n\<close> are polls.\<close>

inductive polls_run :: "nat \<Rightarrow> system \<Rightarrow> system \<Rightarrow> bool" where
  none: "polls_run 0 s s"
| card: "polls_run n s s' \<Longrightarrow> card_step s' s'' \<Longrightarrow> polls_run n s s''"
| poll: "polls_run n s (r, krx, ktx) \<Longrightarrow> poll_once rules r = Some (res, r') \<Longrightarrow> polls_run (Suc n) s (r', krx, ktx)"

lemma card_step_wheel: "card_step s s' \<Longrightarrow> ar_timing_wheel (fst s') = ar_timing_wheel (fst s)"
  by (induction rule: card_step.induct) simp_all

lemma polls_run_awaits:
  assumes "polls_run m s s'" "system_inv n sz s" "awaits f k (ar_timing_wheel (fst s))" "m < k"
  shows "system_inv n sz s' \<and> awaits f (k - m) (ar_timing_wheel (fst s'))"
  using assms
proof (induction rule: polls_run.induct)
  case (card m s s' s'')
  then show ?case using card_step_inv [OF card.hyps(2)] card_step_wheel [OF card.hyps(2)] by simp
next
  case (poll m s r krx ktx rules res r')
  then have s: "system_inv n sz (r, krx, ktx)" "awaits f (k - m) (ar_timing_wheel r)" by simp_all
  have "Suc (k - Suc m) = k - m" "k - Suc m \<noteq> 0" using poll.prems(3) by simp_all
  moreover have "runtime_inv r krx ktx {#}" "ar_initialized r" using s(1) by (simp_all add: system_inv_def)
  ultimately have "awaits f (k - Suc m) (ar_timing_wheel r')" using poll_once_awaits [OF _ _ poll.hyps(2), of krx ktx f "k - Suc m"] s(2) by simp
  moreover have "system_inv n sz (r', krx, ktx)" using frame_step_inv [OF polls [OF poll.hyps(2)] s(1)] .
  ultimately show ?case by simp
qed simp

subsection \<open>Property\<close>


text \<open>A device with two frames, of which frame 0 waits in the wheel for two ticks.\<close>

definition waiting_frame :: DelayedFrame where
  "waiting_frame = \<lparr>df_frame_address = 0, df_frame_length = 64, df_rule_id = 1, df_release_tick = 0\<rparr>"

definition waiting_pool :: FrameAllocator where
  "waiting_pool = snd (allocate DataPlane (FrameAllocator_init 2 2048))"

definition waiting_device :: AfXdpRuntimeAdapter where
  "waiting_device = (new_device 2 2048 2 2 2 2 4 1)\<lparr>ar_allocator := waiting_pool,
     ar_timing_wheel := snd (schedule waiting_frame 2 (TimingWheel_init 4 1)), ar_initialized := True\<rparr>"

lemma waiting_pool_owned: "owned waiting_pool owner = (if owner = DataPlane then {#0#} else if owner = Free then {#2048#} else {#})"
proof -
  have two: "unat k < 2 \<longleftrightarrow> k = 0 \<or> k = 1" for k :: u32
    by (metis One_nat_def less_2_cases_iff unat_0 unat_1 unat_eq_zero word_unat_eq_iff)
  have c: "fr_FrameCount waiting_pool = 2" "owner_of waiting_pool 0 = DataPlane" "owner_of waiting_pool 1 = Free"
    "frame_address waiting_pool 0 = 0" "frame_address waiting_pool 1 = 2048" by code_simp+
  have "{k. unat k < fr_FrameCount waiting_pool \<and> owner_of waiting_pool k = owner} =
      (if owner = DataPlane then {0} else if owner = Free then {1} else {})"
    using c(1-3) two by auto
  then show ?thesis using c(4,5) by (simp add: owned_def owned_set_def)
qed

lemma waiting_device_inv:
  "system_inv 2 2048 (waiting_device, {#}, {#}) \<and> waiting_frame\<lparr>df_release_tick := 2\<rparr> \<in># wheel_pending (ar_timing_wheel waiting_device) \<and>
   remaining (ar_timing_wheel waiting_device) (waiting_frame\<lparr>df_release_tick := 2\<rparr>) = Suc 1"
proof -
  have p: "is_pow2 2" "is_pow2 4" "is_pow2 2048" by (rule is_pow2I [of _ 1] is_pow2I [of _ 2] is_pow2I [of _ 11]; simp)+
  have pool: "pool_inv waiting_pool" "fr_FrameCount waiting_pool = 2" "fr_FrameSize waiting_pool = 2048"
    unfolding waiting_pool_def by (intro allocate_inv pool_inv_init) (simp_all add: p kMinXdpFrameSizeBytes_def)
  note w = wheel_inv_init [OF p(2), of 1]
  have "fst (schedule waiting_frame 2 (TimingWheel_init 4 1)) = Scheduled" by code_simp
  then have wheel: "wheel_inv (ar_timing_wheel waiting_device)" "wheel_pending (ar_timing_wheel waiting_device) = {#waiting_frame\<lparr>df_release_tick := 2\<rparr>#}"
    "tw_current_tick (ar_timing_wheel waiting_device) = 0"
    using schedule_inv [OF w, of waiting_frame 2] schedule_pending [OF w, of waiting_frame 2]
    by (simp_all add: waiting_device_def scheduled_frame_def) (simp_all add: TimingWheel_init_def)
  then show ?thesis using pool waiting_pool_owned socket_init_inv [OF p(1) p(1) p(1) p(1)]
    by (simp add: system_inv_def runtime_inv_def parts_ok_def places_def geometry_def remaining_def)
      (simp add: waiting_device_def new_device_def AfXdpRuntimeAdapter_init_def waiting_frame_def)
qed


end
