(* ===== verification/Tui.thy ===== *)
theory Tui
  imports Spsc_Queue "HOL-Library.Monad_Syntax"
begin

section \<open>The dashboard (\<open>include/chronosx/tui.hpp\<close>)\<close>

text \<open>
  The data behind the terminal dashboard: the latency histogram, the rolling window of the sparkline, and the loop that
  drains the statistics queue. A sparkline holds floating-point numbers but only stores and compares them; the model is
  polymorphic in the type of the samples. The loop that drains the queue is \<open>None\<close> if it does not end. What only prints (\<open>render\<close> and
  the bars) is left out; the two padding functions are the part of it that computes.
\<close>

definition kHistogramBucketCount :: nat where "kHistogramBucketCount = 16"
definition kSparklineWindowSize :: nat where "kSparklineWindowSize = 60"
definition kTuiTargetFps :: nat where "kTuiTargetFps = 30"
definition kTuiFrameIntervalNs :: u64 where "kTuiFrameIntervalNs = 1000000000 div of_nat kTuiTargetFps"

subsection \<open>The histogram\<close>

record LatencyHistogram =
  counts :: "u64 list"
  total_count :: u64
  total_sum_ns :: u64
  min_ns :: u64
  max_ns :: u64

definition LatencyHistogram_init :: LatencyHistogram where
  "LatencyHistogram_init = \<lparr>counts = replicate kHistogramBucketCount 0, total_count = 0, total_sum_ns = 0, min_ns = 0, max_ns = 0\<rparr>"

definition bucket_for :: "u64 \<Rightarrow> nat" where
  "bucket_for ns =
     (if ns < 1000 then 0
      else if ns < 10000 then 1
      else if ns < 100000 then 2
      else if ns < 1000000 then 3
      else if ns < 10000000 then 4
      else if ns < 100000000 then 5
      else if ns < 1000000000 then 6
      else 7)"

definition record_latency :: "u64 \<Rightarrow> LatencyHistogram \<Rightarrow> LatencyHistogram" where
  "record_latency latency_ns h =
     (let bucket = bucket_for latency_ns;
          h = h\<lparr>counts := (counts h)[bucket := counts h ! bucket + 1], total_count := total_count h + 1,
                total_sum_ns := total_sum_ns h + latency_ns\<rparr>;
          h = (if latency_ns < min_ns h \<or> total_count h = 1 then h\<lparr>min_ns := latency_ns\<rparr> else h)
      in if latency_ns > max_ns h then h\<lparr>max_ns := latency_ns\<rparr> else h)"

definition bucket_count :: "LatencyHistogram \<Rightarrow> nat \<Rightarrow> u64" where
  "bucket_count h bucket = (if bucket < kHistogramBucketCount then counts h ! bucket else 0)"

definition histogram_total :: "LatencyHistogram \<Rightarrow> u64" where
  "histogram_total h = total_count h"

definition average_ns :: "LatencyHistogram \<Rightarrow> u64" where
  "average_ns h = (if total_count h > 0 then total_sum_ns h div total_count h else 0)"

definition bucket_label :: "nat \<Rightarrow> string" where
  "bucket_label bucket =
     (let labels = [''<1us'', ''<10us'', ''<100us'', ''<1ms'', ''<10ms'', ''<100ms'', ''<1s'', ''1s+'', [], [], [], [], [], [], [], []]
      in if bucket < kHistogramBucketCount then labels ! bucket else [])"

definition reset_histogram :: "LatencyHistogram \<Rightarrow> LatencyHistogram" where
  "reset_histogram h = h\<lparr>counts := replicate kHistogramBucketCount 0, total_count := 0, total_sum_ns := 0, min_ns := 0, max_ns := 0\<rparr>"

subsection \<open>The sparkline\<close>

record 'a Sparkline =
  samples :: "'a list"
  write_pos :: u64
  sample_count :: nat

definition Sparkline_init :: "'a::zero Sparkline" where
  "Sparkline_init = \<lparr>samples = replicate kSparklineWindowSize 0, write_pos = 0, sample_count = 0\<rparr>"

definition push_sample :: "'a \<Rightarrow> 'a Sparkline \<Rightarrow> 'a Sparkline" where
  "push_sample value s =
     (let s = s\<lparr>samples := (samples s)[unat (write_pos s mod of_nat kSparklineWindowSize) := value], write_pos := write_pos s + 1\<rparr>
      in if sample_count s < kSparklineWindowSize then s\<lparr>sample_count := sample_count s + 1\<rparr> else s)"

definition sample_at :: "'a::zero Sparkline \<Rightarrow> nat \<Rightarrow> 'a" where
  "sample_at s index =
     (if index \<ge> sample_count s then 0
      else
        let start = (if write_pos s \<ge> of_nat (sample_count s) then write_pos s - of_nat (sample_count s) else 0)
        in samples s ! unat ((start + of_nat index) mod of_nat kSparklineWindowSize))"

definition latest :: "'a::zero Sparkline \<Rightarrow> 'a" where
  "latest s = (if sample_count s = 0 then 0 else samples s ! unat ((write_pos s - 1) mod of_nat kSparklineWindowSize))"

definition max_value :: "'a::{zero,linorder} Sparkline \<Rightarrow> 'a" where
  "max_value s = fold (\<lambda>index m. if sample_at s index > m then sample_at s index else m) [0..<sample_count s] 0"

definition reset_sparkline :: "'a::zero Sparkline \<Rightarrow> 'a Sparkline" where
  "reset_sparkline s = s\<lparr>samples := replicate kSparklineWindowSize 0, write_pos := 0, sample_count := 0\<rparr>"

subsection \<open>The state of the dashboard\<close>

record 'a DashboardState =
  ds_packets_seen :: u64
  ds_packets_dropped :: u64
  ds_bytes_seen :: u64
  ds_average_latency_ns :: u64
  ds_last_action :: PacketAction
  ds_throughput_mpps :: 'a
  ds_throughput_gbps :: 'a
  ds_drop_rate_percent :: 'a
  ds_histogram :: LatencyHistogram
  ds_throughput_sparkline :: "'a Sparkline"
  ds_drop_rate_sparkline :: "'a Sparkline"
  ds_rule_count :: nat
  ds_update_count :: u64

definition DashboardState_init :: "'a::zero DashboardState" where
  "DashboardState_init = \<lparr>ds_packets_seen = 0, ds_packets_dropped = 0, ds_bytes_seen = 0, ds_average_latency_ns = 0, ds_last_action = Pass,
     ds_throughput_mpps = 0, ds_throughput_gbps = 0, ds_drop_rate_percent = 0, ds_histogram = LatencyHistogram_init,
     ds_throughput_sparkline = Sparkline_init, ds_drop_rate_sparkline = Sparkline_init, ds_rule_count = 0, ds_update_count = 0\<rparr>"

text \<open>The body of the loop.\<close>

definition merge_update :: "StatUpdate \<Rightarrow> 'a DashboardState \<Rightarrow> 'a DashboardState" where
  "merge_update update state =
     state\<lparr>ds_packets_seen := su_packets_seen update, ds_packets_dropped := su_packets_dropped update,
       ds_bytes_seen := su_bytes_seen update, ds_average_latency_ns := su_average_latency_ns update,
       ds_last_action := su_last_action update, ds_update_count := ds_update_count state + 1,
       ds_histogram := record_latency (su_average_latency_ns update) (ds_histogram state)\<rparr>"

partial_function (option) drain_stats_queue ::
  "StatUpdate SPSCQueue \<Rightarrow> 'a DashboardState \<Rightarrow> (StatUpdate SPSCQueue \<times> 'a DashboardState) option" where
  "drain_stats_queue queue state =
     (case try_pop queue of
        (None, queue) \<Rightarrow> Some (queue, state)
      | (Some update, queue) \<Rightarrow> drain_stats_queue queue (merge_update update state))"

subsection \<open>Padding\<close>

text \<open>\<open>std::to_string\<close>: the decimal digits.\<close>

fun to_string :: "nat \<Rightarrow> string" where
  "to_string n = (if n < 10 then [char_of (48 + n)] else to_string (n div 10) @ [char_of (48 + n mod 10)])"

function pad_front :: "string \<Rightarrow> nat \<Rightarrow> string" where
  "pad_front str width = (if length str < width then pad_front (CHR '' '' # str) width else str)"
  by auto
termination by (relation "measure (\<lambda>(str, width). width - length str)") auto

definition pad_left :: "u64 \<Rightarrow> nat \<Rightarrow> string" where
  "pad_left value width = pad_front (to_string (unat value)) width"

function pad_right :: "string \<Rightarrow> nat \<Rightarrow> string" where
  "pad_right str width = (if length str < width then pad_right (str @ '' '') width else str)"
  by auto
termination by (relation "measure (\<lambda>(str, width). width - length str)") auto

declare pad_front.simps [simp del] pad_right.simps [simp del] to_string.simps [simp del]

subsection \<open>The histogram counts every sample once\<close>

lemma bucket_for_less: "bucket_for ns < 8"
  by (simp add: bucket_for_def)

lemma bucket_for_range:
  "bucket_for ns = k \<longleftrightarrow> k < 8 \<and> (0 < k \<longrightarrow> 10 ^ (k + 2) \<le> unat ns) \<and> (k < 7 \<longrightarrow> unat ns < 10 ^ (k + 3))"
proof (cases "k < 8")
  case True
  define n where "n = unat ns"
  have b: "bucket_for ns = (if n < 1000 then 0 else if n < 10000 then 1 else if n < 100000 then 2 else if n < 1000000 then 3
      else if n < 10000000 then 4 else if n < 100000000 then 5 else if n < 1000000000 then 6 else 7)"
    by (simp add: bucket_for_def word_less_nat_alt n_def)
  from True consider "k = 0" | "k = 1" | "k = 2" | "k = 3" | "k = 4" | "k = 5" | "k = 6" | "k = 7" by linarith
  then show ?thesis unfolding b n_def [symmetric] by cases simp_all
next
  case False
  then show ?thesis using bucket_for_less [of ns] by auto
qed

definition recorded :: "u64 list \<Rightarrow> LatencyHistogram" where
  "recorded xs = fold record_latency xs LatencyHistogram_init"

lemma recorded_snoc: "recorded (xs @ [x]) = record_latency x (recorded xs)"
  by (simp add: recorded_def)

lemma record_latency_simps [simp]:
  "counts (record_latency x h) = (counts h)[bucket_for x := counts h ! bucket_for x + 1]"
  "total_count (record_latency x h) = total_count h + 1"
  "total_sum_ns (record_latency x h) = total_sum_ns h + x"
  "min_ns (record_latency x h) = (if x < min_ns h \<or> total_count h = 0 then x else min_ns h)"
  "max_ns (record_latency x h) = (if x > max_ns h then x else max_ns h)"
  by (simp_all add: record_latency_def Let_def)

lemma recorded_totals:
  "total_count (recorded xs) = of_nat (length xs)" "total_sum_ns (recorded xs) = of_nat (sum_list (map unat xs))"
  "length (counts (recorded xs)) = kHistogramBucketCount"
  by (induction xs rule: rev_induct) (simp_all add: recorded_snoc, simp_all add: recorded_def LatencyHistogram_init_def)

lemma recorded_counts:
  "b < kHistogramBucketCount \<Longrightarrow> counts (recorded xs) ! b = of_nat (length (filter (\<lambda>x. bucket_for x = b) xs))"
proof (induction xs rule: rev_induct)
  case (snoc x xs)
  have "bucket_for x < kHistogramBucketCount" using bucket_for_less [of x] by (simp add: kHistogramBucketCount_def)
  then show ?case using snoc recorded_totals(3) [of xs] by (auto simp: recorded_snoc nth_list_update)
qed (simp add: recorded_def LatencyHistogram_init_def)

lemma unat_of_nat_u64: "n < 2 ^ 64 \<Longrightarrow> unat (of_nat n :: u64) = n"
  by (simp add: unat_of_nat)

lemma recorded_extremes:
  "xs \<noteq> [] \<Longrightarrow> length xs < 2 ^ 64 \<Longrightarrow> min_ns (recorded xs) = Min (set xs) \<and> max_ns (recorded xs) = Max (set xs)"
proof (induction xs rule: rev_induct)
  case (snoc x xs)
  show ?case
  proof (cases "xs = []")
    case True
    then show ?thesis by (simp add: recorded_snoc) (auto simp: recorded_def LatencyHistogram_init_def word_gt_0)
  next
    case False
    have "unat (of_nat (length xs) :: u64) = length xs" using snoc.prems by (intro unat_of_nat_u64) simp
    then have "total_count (recorded xs) \<noteq> 0" using False by (auto simp: recorded_totals)
    then have "min_ns (recorded (xs @ [x])) = min x (min_ns (recorded xs))" "max_ns (recorded (xs @ [x])) = max x (max_ns (recorded xs))"
      by (auto simp: recorded_snoc min_def max_def)
    then show ?thesis using snoc False by simp
  qed
qed simp

lemma of_nat_length_filter: "length xs < 2 ^ 64 \<Longrightarrow> unat (of_nat (length (filter P xs)) :: u64) = length (filter P xs)"
  by (intro unat_of_nat_u64) (rule le_less_trans [OF length_filter_le])

subsection \<open>The sparkline is the window of the last samples\<close>

definition pushed :: "'a::zero list \<Rightarrow> 'a Sparkline" where
  "pushed xs = fold push_sample xs Sparkline_init"

lemma window_index: "n < 2 ^ 64 \<Longrightarrow> unat ((of_nat n :: u64) mod of_nat kSparklineWindowSize) = n mod kSparklineWindowSize"
  using unat_of_nat_u64 [of n] by (simp add: unat_mod kSparklineWindowSize_def)

lemma pushed_snoc: "pushed (xs @ [x]) = push_sample x (pushed xs)"
  by (simp add: pushed_def)

lemma push_sample_simps [simp]:
  "samples (push_sample x s) = (samples s)[unat (write_pos s mod of_nat kSparklineWindowSize) := x]"
  "write_pos (push_sample x s) = write_pos s + 1"
  "sample_count (push_sample x s) = min kSparklineWindowSize (sample_count s) + (if sample_count s < kSparklineWindowSize then 1 else 0)
     + (sample_count s - kSparklineWindowSize)"
  by (auto simp: push_sample_def Let_def)

lemma pushed_counts:
  "write_pos (pushed xs) = of_nat (length xs)" "sample_count (pushed xs) = min (length xs) kSparklineWindowSize"
  "length (samples (pushed xs)) = kSparklineWindowSize"
  by (induction xs rule: rev_induct) (simp_all add: pushed_snoc, simp_all add: pushed_def Sparkline_init_def)

lemma pushed_values:
  assumes "length xs < 2 ^ 64" "j < length xs" "length xs \<le> j + kSparklineWindowSize"
  shows "samples (pushed xs) ! (j mod kSparklineWindowSize) = xs ! j"
  using assms
proof (induction xs rule: rev_induct)
  case (snoc x xs)
  have w: "unat ((of_nat (length xs) :: u64) mod of_nat kSparklineWindowSize) = length xs mod kSparklineWindowSize"
    using snoc.prems(1) by (intro window_index) simp
  have lt: "length xs mod kSparklineWindowSize < kSparklineWindowSize" by (simp add: kSparklineWindowSize_def)
  show ?case
  proof (cases "j = length xs")
    case True
    then show ?thesis using lt by (simp add: pushed_snoc pushed_counts w)
  next
    case False
    then have j: "j < length xs" using snoc.prems(2) by simp
    have "j mod kSparklineWindowSize \<noteq> length xs mod kSparklineWindowSize"
    proof
      assume "j mod kSparklineWindowSize = length xs mod kSparklineWindowSize"
      then have "kSparklineWindowSize dvd length xs - j" using j by (metis less_imp_le mod_eq_dvd_iff_nat)
      moreover have "0 < length xs - j" "length xs - j < kSparklineWindowSize" using j snoc.prems(3) by simp_all
      ultimately show False by (simp add: nat_dvd_not_less)
    qed
    then show ?thesis using snoc j by (simp add: pushed_snoc pushed_counts w nth_append)
  qed
qed simp

lemma sample_at_pushed:
  assumes "length xs < 2 ^ 64" "i < sample_count (pushed xs)"
  shows "sample_at (pushed xs) i = drop (length xs - kSparklineWindowSize) xs ! i"
proof -
  let ?c = "min (length xs) kSparklineWindowSize"
  let ?j = "length xs - ?c + i"
  have i: "i < ?c" using assms(2) by (simp add: pushed_counts)
  have le: "(of_nat ?c :: u64) \<le> of_nat (length xs)"
    using unat_of_nat_u64 [of ?c] unat_of_nat_u64 [of "length xs"] assms(1) by (simp add: word_le_nat_alt)
  have "(of_nat (length xs) :: u64) - of_nat ?c + of_nat i = of_nat ?j" by (simp add: of_nat_diff)
  then have "unat (((of_nat (length xs) :: u64) - of_nat ?c + of_nat i) mod of_nat kSparklineWindowSize) = ?j mod kSparklineWindowSize"
    using window_index [of ?j] assms(1) i by (simp only:)
  moreover have "samples (pushed xs) ! (?j mod kSparklineWindowSize) = xs ! ?j" using i by (intro pushed_values [OF assms(1)]) auto
  moreover have "xs ! ?j = drop (length xs - kSparklineWindowSize) xs ! i" using i by (auto simp: min_def)
  moreover have "\<not> ?c \<le> i" using i by (simp only: not_le)
  ultimately show ?thesis using le unfolding sample_at_def pushed_counts Let_def by (simp only: if_True if_False)
qed

lemma latest_pushed:
  assumes "length xs < 2 ^ 64" "xs \<noteq> []"
  shows "latest (pushed xs) = last xs"
proof -
  have "(of_nat (length xs) :: u64) - 1 = of_nat (length xs - 1)" using assms(2) by (simp add: of_nat_diff Suc_le_eq)
  then have "unat (((of_nat (length xs) :: u64) - 1) mod of_nat kSparklineWindowSize) = (length xs - 1) mod kSparklineWindowSize"
    using window_index [of "length xs - 1"] assms(1) by simp
  then show ?thesis using pushed_values [OF assms(1), of "length xs - 1"] assms(2)
    by (auto simp: latest_def pushed_counts last_conv_nth kSparklineWindowSize_def min_def split: if_splits)
qed

lemma fold_max: "fold (\<lambda>i m. if f i > m then f i else m) ns z = Max (insert z (f ` set ns))" for f :: "nat \<Rightarrow> 'a::linorder"
proof (induction ns arbitrary: z)
  case (Cons n ns)
  have "Max (insert (max z (f n)) (f ` set ns)) = Max (insert z (insert (f n) (f ` set ns)))"
    by (cases "set ns = {}") (simp_all add: max.assoc)
  then show ?case using Cons [of "max z (f n)"] by (auto simp: max_def split: if_splits)
qed simp

subsection \<open>Draining the queue\<close>

lemma drain_stats_queue_spec:
  "spsc_inv q \<Longrightarrow> \<exists>q'. drain_stats_queue q state = Some (q', fold merge_update (spsc_contents q) state) \<and> spsc_inv q' \<and> spsc_contents q' = []"
proof (induction "spsc_contents q" arbitrary: q state)
  case Nil
  then show ?case using try_pop_empty [of q] by (subst drain_stats_queue.simps) simp
next
  case (Cons u us)
  note p = try_pop_cons [OF Cons.prems Cons.hyps(2) [symmetric]]
  obtain q' where "drain_stats_queue (snd (try_pop q)) (merge_update u state) = Some (q', fold merge_update us (merge_update u state))"
    "spsc_inv q'" "spsc_contents q' = []" using Cons.hyps(1) [OF p(3) [symmetric] p(2)] p(3) by blast
  then show ?case using p(1) by (subst drain_stats_queue.simps) (auto simp: case_prod_beta Cons.hyps(2) [symmetric] split: option.splits)
qed

lemma merge_fold:
  "ds_histogram (fold merge_update us state) = fold record_latency (map su_average_latency_ns us) (ds_histogram state)"
  "ds_update_count (fold merge_update us state) = ds_update_count state + of_nat (length us)"
  "us \<noteq> [] \<Longrightarrow> ds_packets_seen (fold merge_update us state) = su_packets_seen (last us) \<and>
     ds_packets_dropped (fold merge_update us state) = su_packets_dropped (last us) \<and>
     ds_bytes_seen (fold merge_update us state) = su_bytes_seen (last us) \<and>
     ds_average_latency_ns (fold merge_update us state) = su_average_latency_ns (last us) \<and>
     ds_last_action (fold merge_update us state) = su_last_action (last us)"
  by (induction us rule: rev_induct) (simp_all add: merge_update_def)

subsection \<open>Properties\<close>

text \<open>Draining the statistics queue ends and leaves it empty. Starting from a fresh dashboard, the counters shown are those of the newest
  update in the queue, the number of updates is exact, and the histogram holds every update once: the bucket \<open>b\<close> counts the
  latencies from \<open>10^(b+2)\<close> up to \<open>10^(b+3)\<close> nanoseconds, the first bucket everything below and the eighth everything
  above, the other eight stay empty; the smallest, largest and average latency are exact as long as the sum fits into 64 bits.\<close>

lemma drain_collects_all:
  assumes "spsc_inv q" and us: "us = spsc_contents q" "us \<noteq> []" and "sum_list (map (unat \<circ> su_average_latency_ns) us) < 2 ^ 64"
  shows "\<exists>q' state. drain_stats_queue q DashboardState_init = Some (q', state) \<and> spsc_contents q' = [] \<and>
    ds_packets_seen state = su_packets_seen (last us) \<and> ds_packets_dropped state = su_packets_dropped (last us) \<and>
    ds_bytes_seen state = su_bytes_seen (last us) \<and> unat (ds_update_count state) = length us \<and>
    (\<forall>b. unat (bucket_count (ds_histogram state) b) =
       length (filter (\<lambda>u. b < 8 \<and> (0 < b \<longrightarrow> 10 ^ (b + 2) \<le> unat (su_average_latency_ns u)) \<and>
         (b < 7 \<longrightarrow> unat (su_average_latency_ns u) < 10 ^ (b + 3))) us)) \<and>
    min_ns (ds_histogram state) = Min (set (map su_average_latency_ns us)) \<and> max_ns (ds_histogram state) = Max (set (map su_average_latency_ns us)) \<and>
    unat (average_ns (ds_histogram state)) = sum_list (map (unat \<circ> su_average_latency_ns) us) div length us"
proof -
  let ?xs = "map su_average_latency_ns us" and ?st = "fold merge_update us DashboardState_init :: 'a DashboardState"
  obtain q' where d: "drain_stats_queue q (DashboardState_init :: 'a DashboardState) = Some (q', ?st)" "spsc_contents q' = []"
    using drain_stats_queue_spec [OF assms(1)] us(1) by blast
  have "sq_capacity q < 2 ^ 64" using assms(1) is_pow2_lt by (auto simp: spsc_inv_def)
  then have len: "length us < 2 ^ 64" using spsc_bounded [OF assms(1)] us(1) by simp
  have h: "ds_histogram ?st = recorded ?xs" by (simp add: merge_fold recorded_def DashboardState_init_def)
  have n: "unat (ds_update_count ?st) = length us" using len by (simp add: merge_fold DashboardState_init_def unat_of_nat_u64)
  have b: "unat (bucket_count (recorded ?xs) b) = length (filter (\<lambda>u. b < 8 \<and> (0 < b \<longrightarrow> 10 ^ (b + 2) \<le> unat (su_average_latency_ns u)) \<and>
         (b < 7 \<longrightarrow> unat (su_average_latency_ns u) < 10 ^ (b + 3))) us)" for b
  proof (cases "b < kHistogramBucketCount")
    case True
    then have "unat (bucket_count (recorded ?xs) b) = length (filter (\<lambda>x. bucket_for x = b) ?xs)"
      using of_nat_length_filter [of ?xs] len by (simp add: bucket_count_def recorded_counts)
    then show ?thesis by (simp add: bucket_for_range filter_map comp_def)
  next
    case False
    then have "\<not> b < 8" by (simp add: kHistogramBucketCount_def)
    then show ?thesis using False by (simp add: bucket_count_def)
  qed
  have "unat (of_nat (length us) :: u64) = length us" "unat (of_nat (sum_list (map unat ?xs)) :: u64) = sum_list (map unat ?xs)"
    using len assms(4) by (simp_all add: unat_of_nat_u64 comp_def)
  then have a: "unat (average_ns (recorded ?xs)) = sum_list (map (unat \<circ> su_average_latency_ns) us) div length us"
    using us(2) by (simp add: average_ns_def recorded_totals unat_div word_gt_0 unat_eq_0 [symmetric] comp_def)
  show ?thesis using d merge_fold(3) [OF us(2), of "DashboardState_init :: 'a DashboardState"] n b a recorded_extremes [of ?xs] len us(2)
    unfolding h [symmetric] by (intro exI [of _ q'] exI [of _ ?st]) simp
qed

definition demo_update :: "u64 \<Rightarrow> u64 \<Rightarrow> StatUpdate" where
  "demo_update seen latency = StatUpdate_init\<lparr>su_packets_seen := seen, su_average_latency_ns := latency\<rparr>"

definition demo_stats :: "StatUpdate SPSCQueue" where
  "demo_stats = snd (try_push (demo_update 9 50000) (snd (try_push (demo_update 4 500) (SPSCQueue_init 4 StatUpdate_init))))"

text \<open>The sparkline is a sliding window: after any number of samples below \<open>2^64\<close> it holds the newest sixty of them, oldest first, reads outside
  the window are zero, the newest sample is the last one pushed, and the maximum is that of the window, but never below zero.\<close>

lemma sparkline_window:
  assumes "length xs < 2 ^ 64" and s: "s = fold push_sample xs Sparkline_init"
  shows "map (sample_at s) [0..<sample_count s] = drop (length xs - kSparklineWindowSize) xs \<and>
    (\<forall>i. sample_count s \<le> i \<longrightarrow> sample_at s i = 0) \<and> (xs \<noteq> [] \<longrightarrow> latest s = last xs) \<and>
    max_value s = Max (insert 0 (set (drop (length xs - kSparklineWindowSize) xs)))"
proof -
  have p: "s = pushed xs" by (simp add: s pushed_def)
  have w: "map (sample_at s) [0..<sample_count s] = drop (length xs - kSparklineWindowSize) xs"
    by (rule nth_equalityI) (use sample_at_pushed [OF assms(1)] in \<open>auto simp: p pushed_counts\<close>)
  have "max_value s = Max (insert 0 (sample_at s ` set [0..<sample_count s]))" unfolding max_value_def by (rule fold_max)
  also have "sample_at s ` set [0..<sample_count s] = set (map (sample_at s) [0..<sample_count s])" by (simp only: set_map)
  finally have m: "max_value s = Max (insert 0 (set (drop (length xs - kSparklineWindowSize) xs)))" unfolding w .
  have "\<forall>i. sample_count s \<le> i \<longrightarrow> sample_at s i = 0" by (simp add: sample_at_def)
  then show ?thesis using w m latest_pushed [OF assms(1)] p by blast
qed

end
