(* ===== verification/Xdp_Filter.thy ===== *)
theory Xdp_Filter
  imports Packet_Parser
begin

section \<open>The XDP program (\<open>bpf/xdp_redirect.bpf.c\<close>)\<close>

text \<open>
  The program that the kernel runs on every received frame and that steers IPv4 packets into the AF_XDP socket. The frame is the list of
  bytes from \<open>data\<close> to \<open>data_end\<close>; a read beyond it is \<open>None\<close>. The map of sockets and the redirect helper belong to the kernel
  and are a parameter: whether a queue has a socket, and the verdict of the helper for a queue and a fallback.
\<close>

datatype xdp_action = XDP_ABORTED | XDP_DROP | XDP_PASS | XDP_TX | XDP_REDIRECT

record bpf_env =
  xsks_map_lookup :: "u32 \<Rightarrow> bool"
  bpf_redirect_map :: "u32 \<Rightarrow> xdp_action \<Rightarrow> xdp_action"

definition CHRONOS_STAT_TOTAL :: nat where "CHRONOS_STAT_TOTAL = 0"
definition CHRONOS_STAT_REDIRECT :: nat where "CHRONOS_STAT_REDIRECT = 1"
definition CHRONOS_STAT_PASS :: nat where "CHRONOS_STAT_PASS = 2"
definition CHRONOS_STAT_DROP :: nat where "CHRONOS_STAT_DROP = 3"

text \<open>The counters of one processor: a map of four entries.\<close>

definition packet_count_init :: "u64 list" where
  "packet_count_init = replicate 4 0"

definition bump_stat :: "nat \<Rightarrow> u64 list \<Rightarrow> u64 list" where
  "bump_stat index packet_count = (if index < length packet_count then packet_count[index := packet_count ! index + 1] else packet_count)"

definition ETH_P_IP :: u16 where "ETH_P_IP = 0x0800"
definition ETHHDR_SIZE :: nat where "ETHHDR_SIZE = 14"
definition IPHDR_SIZE :: nat where "IPHDR_SIZE = 20"

text \<open>A 16-bit field as the little-endian processor loads it, and the conversion to network order there.\<close>

definition load16 :: "bytes \<Rightarrow> nat \<Rightarrow> u16 option" where
  "load16 data offset = do { b0 \<leftarrow> rd data offset; b1 \<leftarrow> rd data (offset + 1); Some (be16 b1 b0) }"

definition bpf_htons :: "u16 \<Rightarrow> u16" where
  "bpf_htons v = be16 (byte_of 0 v) (byte_of 1 v)"

definition xdp_chronos_redirect :: "bpf_env \<Rightarrow> bytes \<Rightarrow> u32 \<Rightarrow> u64 list \<Rightarrow> (xdp_action \<times> u64 list) option" where
  "xdp_chronos_redirect env data rx_queue_index st =
     (if ETHHDR_SIZE > length data then Some (XDP_DROP, bump_stat CHRONOS_STAT_DROP st)
      else do {
        let st = bump_stat CHRONOS_STAT_TOTAL st;
        h_proto \<leftarrow> load16 data 12;
        if h_proto \<noteq> bpf_htons ETH_P_IP then Some (XDP_PASS, bump_stat CHRONOS_STAT_PASS st)
        else if ETHHDR_SIZE + IPHDR_SIZE > length data then Some (XDP_DROP, bump_stat CHRONOS_STAT_DROP st)
        else do {
          version_ihl \<leftarrow> rd data ETHHDR_SIZE;
          if version_ihl AND 0x0F < 5 then Some (XDP_DROP, bump_stat CHRONOS_STAT_DROP st)
          else if xsks_map_lookup env rx_queue_index
          then Some (bpf_redirect_map env rx_queue_index XDP_PASS, bump_stat CHRONOS_STAT_REDIRECT st)
          else Some (XDP_PASS, bump_stat CHRONOS_STAT_PASS st)
        }
      })"

subsection \<open>The verdict\<close>

lemmas filter_sizes = ETHHDR_SIZE_def IPHDR_SIZE_def

lemma be16_swap: "be16 b1 b0 = bpf_htons v \<longleftrightarrow> be16 b0 b1 = v"
proof -
  have inj: "be16 a b = be16 c d \<longleftrightarrow> a = c \<and> b = d" for a b c d by (metis byte_of_be16)
  have "v = be16 (byte_of 1 v) (byte_of 0 v)" by simp
  then show ?thesis unfolding bpf_htons_def by (metis inj)
qed

definition is_ipv4 :: "bytes \<Rightarrow> bool" where
  "is_ipv4 data \<longleftrightarrow> 14 \<le> length data \<and> be16 (data ! 12) (data ! 13) = ETH_P_IP"

definition ipv4_header_ok :: "bytes \<Rightarrow> bool" where
  "ipv4_header_ok data \<longleftrightarrow> 34 \<le> length data \<and> 5 \<le> data ! 14 AND 0x0F"

datatype verdict_class = Runt | BadHeader | Other | Unbound | Redirected

definition classify :: "bpf_env \<Rightarrow> u32 \<Rightarrow> bytes \<Rightarrow> verdict_class" where
  "classify env q data =
     (if length data < 14 then Runt
      else if \<not> is_ipv4 data then Other
      else if \<not> ipv4_header_ok data then BadHeader
      else if xsks_map_lookup env q then Redirected else Unbound)"

lemma xdp_verdict:
  "xdp_chronos_redirect env data q st = Some (case classify env q data of
      Runt \<Rightarrow> (XDP_DROP, bump_stat CHRONOS_STAT_DROP st)
    | BadHeader \<Rightarrow> (XDP_DROP, bump_stat CHRONOS_STAT_DROP (bump_stat CHRONOS_STAT_TOTAL st))
    | Other \<Rightarrow> (XDP_PASS, bump_stat CHRONOS_STAT_PASS (bump_stat CHRONOS_STAT_TOTAL st))
    | Unbound \<Rightarrow> (XDP_PASS, bump_stat CHRONOS_STAT_PASS (bump_stat CHRONOS_STAT_TOTAL st))
    | Redirected \<Rightarrow> (bpf_redirect_map env q XDP_PASS, bump_stat CHRONOS_STAT_REDIRECT (bump_stat CHRONOS_STAT_TOTAL st)))"
  by (auto simp: xdp_chronos_redirect_def classify_def is_ipv4_def ipv4_header_ok_def filter_sizes load16_def be16_swap Let_def not_le not_less)

text \<open>The program on one frame after the other.\<close>

fun xdp_run :: "bpf_env \<Rightarrow> (bytes \<times> u32) list \<Rightarrow> u64 list \<Rightarrow> u64 list option" where
  "xdp_run env [] st = Some st"
| "xdp_run env ((data, q) # frames) st = do { r \<leftarrow> xdp_chronos_redirect env data q st; xdp_run env frames (snd r) }"

definition class_count :: "bpf_env \<Rightarrow> (bytes \<times> u32) list \<Rightarrow> verdict_class set \<Rightarrow> nat" where
  "class_count env frames cs = length (filter (\<lambda>(data, q). classify env q data \<in> cs) frames)"

lemma class_count_simps [simp]:
  "class_count env [] cs = 0"
  "class_count env ((data, q) # frames) cs = (if classify env q data \<in> cs then 1 else 0) + class_count env frames cs"
  by (simp_all add: class_count_def)

lemmas stat_indices = CHRONOS_STAT_TOTAL_def CHRONOS_STAT_REDIRECT_def CHRONOS_STAT_PASS_def CHRONOS_STAT_DROP_def

lemma xdp_run_counts:
  "\<exists>t' r' p' d'. xdp_run env frames [t, r, p, d] = Some [t', r', p', d'] \<and>
    t' = t + of_nat (class_count env frames {BadHeader, Other, Unbound, Redirected}) \<and> r' = r + of_nat (class_count env frames {Redirected}) \<and>
    p' = p + of_nat (class_count env frames {Other, Unbound}) \<and> d' = d + of_nat (class_count env frames {Runt, BadHeader})"
proof (induction frames arbitrary: t r p d)
  case (Cons f frames)
  obtain data q where f: "f = (data, q)" by fastforce
  show ?case using Cons by (cases "classify env q data") (fastforce simp: f xdp_verdict bump_stat_def stat_indices algebra_simps)+
qed simp

subsection \<open>Properties\<close>

text \<open>C31: The XDP program and the packet parser agree: every frame that the parser of the data plane accepts and that arrives on a queue with
  a socket is handed to the redirect helper, with \<open>XDP_PASS\<close> as fallback, and counted as redirected. No packet the chaos engine could
  act on goes past it or is dropped in the kernel.\<close>

theorem xdp_filter_admits_parseable:
  assumes "parse_packet (Some data) (length data) = Some v" "view_ok v" "xsks_map_lookup env q"
  shows "xdp_chronos_redirect env data q st =
    Some (bpf_redirect_map env q XDP_PASS, bump_stat CHRONOS_STAT_REDIRECT (bump_stat CHRONOS_STAT_TOTAL st))"
proof -
  have "ipv4_layout data (length data) v \<and> transport_layout data v"
    using parse_packet_ok [OF assms(1) _ order_refl] assms(2) by (simp add: view_ok_def)
  then have a: "accepted data (length data)" using layout_accepted by blast
  then have "is_ipv4 data" by (simp add: accepted_def is_ipv4_def ETH_P_IP_def kEtherTypeIPv4_def)
  moreover have "ipv4_header_ok data"
    using a by (simp add: accepted_def ipv4_header_ok_def ipv4_ihl_words_def word_le_nat_alt Let_def)
  ultimately have "classify env q data = Redirected" using assms(3) by (simp add: classify_def is_ipv4_def)
  then show ?thesis by (simp add: xdp_verdict)
qed

definition demo_env :: bpf_env where
  "demo_env = \<lparr>xsks_map_lookup = (\<lambda>q. q = 0), bpf_redirect_map = (\<lambda>q fallback. if q = 0 then XDP_REDIRECT else fallback)\<rparr>"

theorem xdp_filter_admits_parseable_witness:
  "xdp_chronos_redirect demo_env (wire_frame demo_fields demo_tcp []) 0 packet_count_init = Some (XDP_REDIRECT, [1, 1, 0, 0])"
proof -
  let ?F = "wire_frame demo_fields demo_tcp []"
  obtain v where "parse_packet (Some ?F) (length ?F) = Some v" "view_ok v"
    using wire_frame_parses [OF demo_ok(1,2,4), of "[]"] by blast
  from xdp_filter_admits_parseable [OF this, of demo_env 0 packet_count_init] show ?thesis
    by (simp add: demo_env_def packet_count_init_def bump_stat_def stat_indices numeral_eq_Suc)
qed

text \<open>C32: The counters of the XDP program over any sequence of frames on one processor: no read goes beyond a frame, the redirect and pass counters are exact, and what is
  redirected, passed and dropped adds up to the total plus the frames shorter than an Ethernet header, which are counted as dropped but not
  in the total.\<close>

theorem xdp_counters_exact:
  "\<exists>total redirected passed dropped. xdp_run env frames packet_count_init = Some [total, redirected, passed, dropped] \<and>
    redirected = of_nat (length (filter (\<lambda>(data, q). is_ipv4 data \<and> ipv4_header_ok data \<and> xsks_map_lookup env q) frames)) \<and>
    dropped = of_nat (length (filter (\<lambda>(data, q). length data < 14 \<or> is_ipv4 data \<and> \<not> ipv4_header_ok data) frames)) \<and>
    total = of_nat (length (filter (\<lambda>(data, q). 14 \<le> length data) frames)) \<and>
    redirected + passed + dropped = total + of_nat (length (filter (\<lambda>(data, q). length data < 14) frames))"
proof -
  obtain t r p d where run: "xdp_run env frames packet_count_init = Some [t, r, p, d]"
    "t = of_nat (class_count env frames {BadHeader, Other, Unbound, Redirected})" "r = of_nat (class_count env frames {Redirected})"
    "p = of_nat (class_count env frames {Other, Unbound})" "d = of_nat (class_count env frames {Runt, BadHeader})"
    using xdp_run_counts [of env frames 0 0 0 0] by (auto simp: packet_count_init_def numeral_eq_Suc)
  have c: "classify env q data \<in> {Redirected} \<longleftrightarrow> is_ipv4 data \<and> ipv4_header_ok data \<and> xsks_map_lookup env q"
    "classify env q data \<in> {Runt, BadHeader} \<longleftrightarrow> length data < 14 \<or> is_ipv4 data \<and> \<not> ipv4_header_ok data"
    "classify env q data \<in> {BadHeader, Other, Unbound, Redirected} \<longleftrightarrow> 14 \<le> length data"
    "classify env q data \<in> {Runt} \<longleftrightarrow> length data < 14" for q data
    by (auto simp: classify_def is_ipv4_def)
  have "class_count env frames {Redirected} + class_count env frames {Other, Unbound} + class_count env frames {Runt, BadHeader} =
      class_count env frames {BadHeader, Other, Unbound, Redirected} + class_count env frames {Runt}"
    by (induction frames) auto
  then have "r + p + d = t + of_nat (class_count env frames {Runt})" unfolding run(2-) by (simp flip: of_nat_add)
  then show ?thesis using run unfolding class_count_def c by blast
qed

end
