(* ===== verification/Libxdp_Socket.thy ===== *)
theory Libxdp_Socket
  imports Socket_Manager "HOL-Library.Monad_Syntax"
begin

section \<open>The AF_XDP socket on libxdp (\<open>include/chronosx/libxdp_socket.hpp\<close>)\<close>

text \<open>
  The socket of the live mode. libxdp and the operating system are a parameter: a record of functions on an arbitrary world, which
  also holds the four rings that libxdp manages. Objects of libxdp and the packet memory are numbers, a null pointer is
  \<open>None\<close>. Creating an object may fail. What the properties need of libxdp are the laws of its rings and what
  creating and deleting does to the set of objects alive; both are hypotheses.

  An operation is \<open>None\<close> if it would access a span outside its bounds.
\<close>

record xsk_umem_config =
  xu_fill_size :: u32
  xu_comp_size :: u32
  xu_frame_size :: u32
  xu_frame_headroom :: u32
  xu_flags :: u32

record xsk_socket_config =
  xs_rx_size :: u32
  xs_tx_size :: u32
  xs_libxdp_flags :: u32
  xs_xdp_flags :: u32
  xs_bind_flags :: u16

record 'w xsk_lib =
  lib_mmap :: "u64 \<Rightarrow> 'w \<Rightarrow> nat option \<times> 'w"
  lib_munmap :: "nat \<Rightarrow> u64 \<Rightarrow> 'w \<Rightarrow> 'w"
  lib_umem_create :: "nat \<Rightarrow> u64 \<Rightarrow> xsk_umem_config \<Rightarrow> 'w \<Rightarrow> nat option \<times> 'w"
  lib_umem_delete :: "nat \<Rightarrow> 'w \<Rightarrow> 'w"
  lib_socket_create :: "string \<Rightarrow> u32 \<Rightarrow> nat \<Rightarrow> xsk_socket_config \<Rightarrow> 'w \<Rightarrow> nat option \<times> 'w"
  lib_socket_delete :: "nat \<Rightarrow> 'w \<Rightarrow> 'w"
  lib_fill_reserve :: "u32 \<Rightarrow> 'w \<Rightarrow> (u32 \<times> u32) \<times> 'w"
  lib_fill_addr :: "u32 \<Rightarrow> u64 \<Rightarrow> 'w \<Rightarrow> 'w"
  lib_fill_submit :: "u32 \<Rightarrow> 'w \<Rightarrow> 'w"
  lib_tx_reserve :: "u32 \<Rightarrow> 'w \<Rightarrow> (u32 \<times> u32) \<times> 'w"
  lib_tx_desc :: "u32 \<Rightarrow> TxDescriptor \<Rightarrow> 'w \<Rightarrow> 'w"
  lib_tx_submit :: "u32 \<Rightarrow> 'w \<Rightarrow> 'w"
  lib_comp_peek :: "u32 \<Rightarrow> 'w \<Rightarrow> (u32 \<times> u32) \<times> 'w"
  lib_comp_addr :: "u32 \<Rightarrow> 'w \<Rightarrow> u64"
  lib_comp_release :: "u32 \<Rightarrow> 'w \<Rightarrow> 'w"
  lib_rx_peek :: "u32 \<Rightarrow> 'w \<Rightarrow> (u32 \<times> u32) \<times> 'w"
  lib_rx_desc :: "u32 \<Rightarrow> 'w \<Rightarrow> RxDescriptor"
  lib_rx_release :: "u32 \<Rightarrow> 'w \<Rightarrow> 'w"
  lib_sendto :: "nat \<Rightarrow> 'w \<Rightarrow> (int \<times> int) \<times> 'w"

record LibxdpSocket =
  lx_umem :: "nat option"
  lx_socket :: "nat option"
  lx_umem_area :: "nat option"
  lx_umem_size :: u64
  lx_tx_kick_count :: u64
  lx_initialized :: bool

definition LibxdpSocket_init :: LibxdpSocket where
  "LibxdpSocket_init = \<lparr>lx_umem = None, lx_socket = None, lx_umem_area = None, lx_umem_size = 0, lx_tx_kick_count = 0, lx_initialized = False\<rparr>"

subsection \<open>Creating and deleting\<close>

definition libxdp_shutdown :: "'w xsk_lib \<Rightarrow> LibxdpSocket \<times> 'w \<Rightarrow> LibxdpSocket \<times> 'w" where
  "libxdp_shutdown lib sw =
     (let (s, w) = sw;
          (s, w) = (case lx_socket s of None \<Rightarrow> (s, w) | Some x \<Rightarrow> (s\<lparr>lx_socket := None\<rparr>, lib_socket_delete lib x w));
          (s, w) = (case lx_umem s of None \<Rightarrow> (s, w) | Some u \<Rightarrow> (s\<lparr>lx_umem := None\<rparr>, lib_umem_delete lib u w));
          (s, w) = (case lx_umem_area s of None \<Rightarrow> (s, w)
                    | Some a \<Rightarrow> (s\<lparr>lx_umem_area := None, lx_umem_size := 0\<rparr>, lib_munmap lib a (lx_umem_size s) w))
      in (s\<lparr>lx_initialized := False\<rparr>, w))"

definition libxdp_init :: "'w xsk_lib \<Rightarrow> string option \<Rightarrow> UmemConfig \<Rightarrow> SocketConfig \<Rightarrow> LibxdpSocket \<times> 'w
    \<Rightarrow> SocketStatus \<times> LibxdpSocket \<times> 'w" where
  "libxdp_init lib interface_name umem_config socket_config sw =
     (let (s, w) = sw in
      if lx_initialized s then (SocketAlreadyInitialized, s, w)
      else if interface_name = None \<or> \<not> umem_config_valid umem_config \<or> \<not> socket_config_valid socket_config then (InvalidConfig, s, w)
      else
        let s = s\<lparr>lx_umem_size := total_bytes umem_config\<rparr>;
            (area, w) = lib_mmap lib (lx_umem_size s) w in
        case area of
          None \<Rightarrow> (UmemAllocationFailed, s\<lparr>lx_umem_area := None\<rparr>, w)
        | Some a \<Rightarrow>
            let s = s\<lparr>lx_umem_area := Some a\<rparr>;
                xumem_config = \<lparr>xu_fill_size = of_nat (uc_fill_ring_size umem_config), xu_comp_size = of_nat (uc_completion_ring_size umem_config),
                  xu_frame_size = of_nat (uc_frame_size umem_config), xu_frame_headroom = 0, xu_flags = 0\<rparr>;
                (umem, w) = lib_umem_create lib a (lx_umem_size s) xumem_config w in
            case umem of
              None \<Rightarrow> (UmemCreateFailed, libxdp_shutdown lib (s, w))
            | Some u \<Rightarrow>
                let s = s\<lparr>lx_umem := Some u\<rparr>;
                    xsocket_config = \<lparr>xs_rx_size = of_nat (sc_rx_ring_size socket_config), xs_tx_size = of_nat (sc_tx_ring_size socket_config),
                      xs_libxdp_flags = 0, xs_xdp_flags = sc_xdp_flags socket_config, xs_bind_flags = ucast (sc_bind_flags socket_config)\<rparr>;
                    (sock, w) = lib_socket_create lib (the interface_name) (sc_queue_id socket_config) u xsocket_config w in
                case sock of
                  None \<Rightarrow> (SocketCreateFailed, libxdp_shutdown lib (s, w))
                | Some x \<Rightarrow> (SocketOk, s\<lparr>lx_socket := Some x, lx_initialized := True\<rparr>, w))"

subsection \<open>The rings\<close>

text \<open>The loops that store the entries of a batch at consecutive indices, and the ones that read them.\<close>

fun store_batch :: "(u32 \<Rightarrow> 'a \<Rightarrow> 'w \<Rightarrow> 'w) \<Rightarrow> u32 \<Rightarrow> 'a list \<Rightarrow> nat \<Rightarrow> 'w \<Rightarrow> 'w option" where
  "store_batch store index xs 0 w = Some w"
| "store_batch store index xs (Suc n) w = do {
     w \<leftarrow> store_batch store index xs n w;
     x \<leftarrow> rd xs n;
     Some (store (index + of_nat n) x w)
   }"

definition load_batch :: "(u32 \<Rightarrow> 'w \<Rightarrow> 'a) \<Rightarrow> u32 \<Rightarrow> nat \<Rightarrow> nat \<Rightarrow> 'w \<Rightarrow> 'a list option" where
  "load_batch load index n out_size w = (if n \<le> out_size then Some (map (\<lambda>offset. load (index + of_nat offset) w) [0..<n]) else None)"

definition libxdp_refill :: "'w xsk_lib \<Rightarrow> u64 list \<Rightarrow> 'w \<Rightarrow> (BatchResult \<times> 'w) option" where
  "libxdp_refill lib addresses w =
     (let requested = of_nat (length addresses);
          ((reserved, index), w) = lib_fill_reserve lib requested w in do {
        w \<leftarrow> store_batch (lib_fill_addr lib) index addresses (unat reserved) w;
        let w = (if reserved > 0 then lib_fill_submit lib reserved w else w);
        Some (\<lparr>ba_count = unat reserved, ba_status = (if reserved = requested then SocketOk else SocketRingFull)\<rparr>, w)
      })"

definition libxdp_drain_completions :: "'w xsk_lib \<Rightarrow> nat \<Rightarrow> 'w \<Rightarrow> (u64 list \<times> BatchResult \<times> 'w) option" where
  "libxdp_drain_completions lib out_size w =
     (let ((available, index), w) = lib_comp_peek lib (of_nat out_size) w in do {
        items \<leftarrow> load_batch (lib_comp_addr lib) index (unat available) out_size w;
        let w = (if available > 0 then lib_comp_release lib available w else w);
        Some (items, \<lparr>ba_count = unat available, ba_status = (if unat available = out_size then SocketOk else SocketRingEmpty)\<rparr>, w)
      })"

definition libxdp_consume_rx :: "'w xsk_lib \<Rightarrow> nat \<Rightarrow> 'w \<Rightarrow> (RxDescriptor list \<times> BatchResult \<times> 'w) option" where
  "libxdp_consume_rx lib out_size w =
     (let ((available, index), w) = lib_rx_peek lib (of_nat out_size) w in do {
        items \<leftarrow> load_batch (lib_rx_desc lib) index (unat available) out_size w;
        let w = (if available > 0 then lib_rx_release lib available w else w);
        Some (items, \<lparr>ba_count = unat available, ba_status = (if unat available = out_size then SocketOk else SocketRingEmpty)\<rparr>, w)
      })"

definition libxdp_submit_tx :: "'w xsk_lib \<Rightarrow> TxDescriptor list \<Rightarrow> 'w \<Rightarrow> (BatchResult \<times> 'w) option" where
  "libxdp_submit_tx lib descriptors w =
     (let requested = of_nat (length descriptors);
          ((reserved, index), w) = lib_tx_reserve lib requested w in do {
        w \<leftarrow> store_batch (lib_tx_desc lib) index descriptors (unat reserved) w;
        let w = (if reserved > 0 then lib_tx_submit lib reserved w else w);
        Some (\<lparr>ba_count = unat reserved, ba_status = (if reserved = requested then SocketOk else SocketRingFull)\<rparr>, w)
      })"

definition E_AGAIN :: int where "E_AGAIN = 11"
definition E_BUSY :: int where "E_BUSY = 16"
definition E_NOBUFS :: int where "E_NOBUFS = 105"

definition libxdp_kick_tx :: "'w xsk_lib \<Rightarrow> LibxdpSocket \<times> 'w \<Rightarrow> SocketStatus \<times> LibxdpSocket \<times> 'w" where
  "libxdp_kick_tx lib sw = (case sw of (s, w) \<Rightarrow>
     (case lx_socket s of
        None \<Rightarrow> (SocketNotInitialized, s, w)
      | Some x \<Rightarrow>
          let ((result, errno), w) = lib_sendto lib x w in
          if result < 0 \<and> errno \<noteq> E_AGAIN \<and> errno \<noteq> E_BUSY \<and> errno \<noteq> E_NOBUFS then (KickFailed, s, w)
          else (SocketOk, s\<lparr>lx_tx_kick_count := lx_tx_kick_count s + 1\<rparr>, w)))"

subsection \<open>What libxdp promises\<close>

text \<open>
  A producer ring: the published entries, the room, the slots by index and the index of the next entry. Reserving is all or nothing and returns that
  index; slots within the room are independent; submitting publishes the slots from there on.
\<close>

definition producer_laws :: "(u32 \<Rightarrow> 'w \<Rightarrow> (u32 \<times> u32) \<times> 'w) \<Rightarrow> (u32 \<Rightarrow> 'a \<Rightarrow> 'w \<Rightarrow> 'w) \<Rightarrow> (u32 \<Rightarrow> 'w \<Rightarrow> 'w) \<Rightarrow>
    ('w \<Rightarrow> 'a list) \<Rightarrow> ('w \<Rightarrow> nat) \<Rightarrow> ('w \<Rightarrow> u32 \<Rightarrow> 'a) \<Rightarrow> ('w \<Rightarrow> u32) \<Rightarrow> bool" where
  "producer_laws reserve store submit queue room slots head \<longleftrightarrow>
     (\<forall>n w. fst (fst (reserve n w)) = (if unat n \<le> room w then n else 0) \<and> (unat n \<le> room w \<longrightarrow> snd (fst (reserve n w)) = head w) \<and>
        queue (snd (reserve n w)) = queue w \<and> room (snd (reserve n w)) = room w \<and> head (snd (reserve n w)) = head w) \<and>
     (\<forall>k x w. k < room w \<longrightarrow> slots (store (head w + of_nat k) x w) (head w + of_nat k) = x \<and>
        (\<forall>j < room w. j \<noteq> k \<longrightarrow> slots (store (head w + of_nat k) x w) (head w + of_nat j) = slots w (head w + of_nat j)) \<and>
        queue (store (head w + of_nat k) x w) = queue w \<and> room (store (head w + of_nat k) x w) = room w \<and>
        head (store (head w + of_nat k) x w) = head w) \<and>
     (\<forall>n w. unat n \<le> room w \<longrightarrow> queue (submit n w) = queue w @ map (\<lambda>k. slots w (head w + of_nat k)) [0..<unat n] \<and>
        room (submit n w) = room w - unat n)"

text \<open>A consumer ring: looking ahead shows the oldest entries at consecutive indices, releasing removes them.\<close>

definition consumer_laws :: "(u32 \<Rightarrow> 'w \<Rightarrow> (u32 \<times> u32) \<times> 'w) \<Rightarrow> (u32 \<Rightarrow> 'w \<Rightarrow> 'a) \<Rightarrow> (u32 \<Rightarrow> 'w \<Rightarrow> 'w) \<Rightarrow> ('w \<Rightarrow> 'a list) \<Rightarrow> bool" where
  "consumer_laws peek load discard queue \<longleftrightarrow>
     (\<forall>n w. unat (fst (fst (peek n w))) = min (unat n) (length (queue w)) \<and> queue (snd (peek n w)) = queue w \<and>
        (\<forall>k < unat (fst (fst (peek n w))). load (snd (fst (peek n w)) + of_nat k) (snd (peek n w)) = queue w ! k)) \<and>
     (\<forall>n w. queue (discard n w) = drop (unat n) (queue w))"

lemma store_batch_spec:
  assumes laws: "producer_laws reserve store submit queue room slots head" and "n \<le> length xs" "n \<le> room w"
  shows "\<exists>w'. store_batch store (head w) xs n w = Some w' \<and> queue w' = queue w \<and> room w' = room w \<and> head w' = head w \<and>
    (\<forall>k < n. slots w' (head w + of_nat k) = xs ! k)"
  using assms(2,3)
proof (induction n)
  case (Suc n)
  then obtain w' where w': "store_batch store (head w) xs n w = Some w'" "queue w' = queue w" "room w' = room w" "head w' = head w"
    "\<forall>k < n. slots w' (head w + of_nat k) = xs ! k" by auto
  let ?w = "store (head w' + of_nat n) (xs ! n) w'"
  have n: "n < room w'" using Suc.prems(2) w'(3) by simp
  have l: "slots ?w (head w' + of_nat n) = xs ! n" "\<And>j. j < room w' \<Longrightarrow> j \<noteq> n \<Longrightarrow> slots ?w (head w' + of_nat j) = slots w' (head w' + of_nat j)"
    "queue ?w = queue w'" "room ?w = room w'" "head ?w = head w'"
    using laws n unfolding producer_laws_def by blast+
  have "slots ?w (head w + of_nat k) = xs ! k" if "k < Suc n" for k
    using l(1) l(2) [of k] w'(4,5) n that by (cases "k = n") auto
  then show ?case using w' l(3-5) Suc.prems(1) by simp
qed simp

lemma unat_of_nat_u32: "n < 2 ^ 32 \<Longrightarrow> unat (of_nat n :: u32) = n"
  by (simp add: unat_of_nat)

text \<open>What \<open>refill\<close> and \<open>submit_tx\<close> share.\<close>

definition produce_batch :: "(u32 \<Rightarrow> 'w \<Rightarrow> (u32 \<times> u32) \<times> 'w) \<Rightarrow> (u32 \<Rightarrow> 'a \<Rightarrow> 'w \<Rightarrow> 'w) \<Rightarrow> (u32 \<Rightarrow> 'w \<Rightarrow> 'w) \<Rightarrow> 'a list \<Rightarrow> 'w \<Rightarrow> (BatchResult \<times> 'w) option" where
  "produce_batch reserve store submit xs w =
     (let requested = of_nat (length xs); ((reserved, index), w) = reserve requested w in do {
        w \<leftarrow> store_batch store index xs (unat reserved) w;
        let w = (if reserved > 0 then submit reserved w else w);
        Some (\<lparr>ba_count = unat reserved, ba_status = (if reserved = requested then SocketOk else SocketRingFull)\<rparr>, w)
      })"

lemma produce_batch_spec:
  assumes laws: "producer_laws reserve store submit queue room slots head" and len: "length xs < 2 ^ 32"
  shows "\<exists>w'. produce_batch reserve store submit xs w =
      Some (if length xs \<le> room w then \<lparr>ba_count = length xs, ba_status = SocketOk\<rparr> else \<lparr>ba_count = 0, ba_status = SocketRingFull\<rparr>, w') \<and>
    queue w' = queue w @ (if length xs \<le> room w then xs else []) \<and> room w' = room w - (if length xs \<le> room w then length xs else 0)"
proof -
  let ?n = "of_nat (length xs) :: u32"
  note u = unat_of_nat_u32 [OF len]
  obtain k i w1 where r: "reserve ?n w = ((k, i), w1)" by (metis prod.collapse)
  have l: "k = (if length xs \<le> room w then ?n else 0)" "length xs \<le> room w \<Longrightarrow> i = head w" "queue w1 = queue w" "room w1 = room w" "head w1 = head w"
    using laws r u unfolding producer_laws_def by (metis fst_conv snd_conv)+
  show ?thesis
  proof (cases "length xs \<le> room w")
    case True
    then obtain w2 where w2: "store_batch store (head w1) xs (length xs) w1 = Some w2" "queue w2 = queue w" "room w2 = room w" "head w2 = head w"
      "\<forall>k < length xs. slots w2 (head w + of_nat k) = xs ! k"
      using store_batch_spec [OF laws, of "length xs" xs w1] l(3-5) by auto
    have "map (\<lambda>k. slots w2 (head w2 + of_nat k)) [0..<length xs] = xs" using w2(4,5) by (intro nth_equalityI) simp_all
    then have s: "queue (submit ?n w2) = queue w @ xs" "room (submit ?n w2) = room w - length xs"
      using laws w2(2,3) True u unfolding producer_laws_def by metis+
    show ?thesis
    proof (cases "xs = []")
      case True
      then show ?thesis using r l by (simp add: produce_batch_def)
    next
      case False
      then have "?n > 0" using u by (metis length_greater_0_conv unat_gt_0 word_gt_0)
      then show ?thesis using True r l(1,2,5) w2(1) s u by (simp add: produce_batch_def)
    qed
  next
    case False
    then have "?n \<noteq> 0" using u by (metis le0 unat_0)
    then show ?thesis using False r l by (simp add: produce_batch_def)
  qed
qed

text \<open>What \<open>drain_completions\<close> and \<open>consume_rx\<close> share.\<close>

definition consume_batch :: "(u32 \<Rightarrow> 'w \<Rightarrow> (u32 \<times> u32) \<times> 'w) \<Rightarrow> (u32 \<Rightarrow> 'w \<Rightarrow> 'a) \<Rightarrow> (u32 \<Rightarrow> 'w \<Rightarrow> 'w) \<Rightarrow> nat \<Rightarrow> 'w \<Rightarrow> ('a list \<times> BatchResult \<times> 'w) option" where
  "consume_batch peek load discard out_size w =
     (let ((available, index), w) = peek (of_nat out_size) w in do {
        items \<leftarrow> load_batch load index (unat available) out_size w;
        let w = (if available > 0 then discard available w else w);
        Some (items, \<lparr>ba_count = unat available, ba_status = (if unat available = out_size then SocketOk else SocketRingEmpty)\<rparr>, w)
      })"

lemma consume_batch_spec:
  assumes laws: "consumer_laws peek load discard queue" and len: "out_size < 2 ^ 32"
  shows "\<exists>w'. consume_batch peek load discard out_size w = Some (take out_size (queue w),
      \<lparr>ba_count = min out_size (length (queue w)), ba_status = (if out_size \<le> length (queue w) then SocketOk else SocketRingEmpty)\<rparr>, w') \<and>
    queue w' = drop out_size (queue w)"
proof -
  let ?n = "of_nat out_size :: u32" and ?m = "min out_size (length (queue w))"
  obtain k i w1 where p: "peek ?n w = ((k, i), w1)" by (metis prod.collapse)
  have l: "unat k = ?m" "queue w1 = queue w" "\<And>j. j < unat k \<Longrightarrow> load (i + of_nat j) w1 = queue w ! j" "queue (discard k w1) = drop (unat k) (queue w1)"
    using laws p unat_of_nat_u32 [OF len] unfolding consumer_laws_def by (metis fst_conv snd_conv)+
  have items: "map (\<lambda>j. load (i + of_nat j) w1) [0..<unat k] = take out_size (queue w)"
    using l(1,3) by (intro nth_equalityI) simp_all
  have "queue (if k > 0 then discard k w1 else w1) = drop out_size (queue w)"
  proof (cases "k > 0")
    case True
    then show ?thesis using l by (simp add: min_def)
  next
    case False
    then have "?m = 0" using l(1) by (simp add: word_gt_0)
    then show ?thesis using False l(2) by (auto simp: min_def split: if_splits)
  qed
  then show ?thesis using p items l(1) by (simp add: consume_batch_def load_batch_def min_def)
qed

lemmas libxdp_batches = libxdp_refill_def [folded produce_batch_def] libxdp_submit_tx_def [folded produce_batch_def]
  libxdp_drain_completions_def [folded consume_batch_def] libxdp_consume_rx_def [folded consume_batch_def]

text \<open>The objects alive, and what creating and deleting does to them.\<close>

datatype xsk_object = Area nat | Umem nat | Xsk nat

definition object_laws :: "'w xsk_lib \<Rightarrow> ('w \<Rightarrow> xsk_object set) \<Rightarrow> bool" where
  "object_laws lib alive \<longleftrightarrow>
     (\<forall>n w. case lib_mmap lib n w of (None, w') \<Rightarrow> alive w' = alive w | (Some a, w') \<Rightarrow> Area a \<notin> alive w \<and> alive w' = insert (Area a) (alive w)) \<and>
     (\<forall>a n c w. case lib_umem_create lib a n c w of (None, w') \<Rightarrow> alive w' = alive w
        | (Some u, w') \<Rightarrow> Umem u \<notin> alive w \<and> alive w' = insert (Umem u) (alive w)) \<and>
     (\<forall>i q u c w. case lib_socket_create lib i q u c w of (None, w') \<Rightarrow> alive w' = alive w
        | (Some x, w') \<Rightarrow> Xsk x \<notin> alive w \<and> alive w' = insert (Xsk x) (alive w)) \<and>
     (\<forall>a n w. alive (lib_munmap lib a n w) = alive w - {Area a}) \<and> (\<forall>u w. alive (lib_umem_delete lib u w) = alive w - {Umem u}) \<and>
     (\<forall>x w. alive (lib_socket_delete lib x w) = alive w - {Xsk x})"

definition owned_objects :: "LibxdpSocket \<Rightarrow> xsk_object set" where
  "owned_objects s = Area ` set_option (lx_umem_area s) \<union> Umem ` set_option (lx_umem s) \<union> Xsk ` set_option (lx_socket s)"

lemma shutdown_effect:
  assumes "object_laws lib alive" "libxdp_shutdown lib (s, w) = (s', w')"
  shows "alive w' = alive w - owned_objects s" "owned_objects s' = {}" "\<not> lx_initialized s'"
  using assms by (auto simp: libxdp_shutdown_def object_laws_def owned_objects_def Let_def split: option.splits)

lemma object_lawsD:
  assumes "object_laws lib alive"
  shows "lib_mmap lib n w = (None, w') \<Longrightarrow> alive w' = alive w"
    "lib_mmap lib n w = (Some a, w') \<Longrightarrow> Area a \<notin> alive w \<and> alive w' = insert (Area a) (alive w)"
    "lib_umem_create lib a n c w = (None, w') \<Longrightarrow> alive w' = alive w"
    "lib_umem_create lib a n c w = (Some u, w') \<Longrightarrow> Umem u \<notin> alive w \<and> alive w' = insert (Umem u) (alive w)"
    "lib_socket_create lib i q u c' w = (None, w') \<Longrightarrow> alive w' = alive w"
    "lib_socket_create lib i q u c' w = (Some x, w') \<Longrightarrow> Xsk x \<notin> alive w \<and> alive w' = insert (Xsk x) (alive w)"
  using assms [unfolded object_laws_def, THEN conjunct1, THEN spec [of _ n], THEN spec [of _ w]]
    assms [unfolded object_laws_def, THEN conjunct2, THEN conjunct1, THEN spec [of _ a], THEN spec [of _ n], THEN spec [of _ c], THEN spec [of _ w]]
    assms [unfolded object_laws_def, THEN conjunct2, THEN conjunct2, THEN conjunct1,
      THEN spec [of _ i], THEN spec [of _ q], THEN spec [of _ u], THEN spec [of _ c'], THEN spec [of _ w]]
  by simp_all

text \<open>The four ways out of \<open>init\<close> once the configuration is accepted.\<close>

lemma libxdp_init_exits:
  assumes "libxdp_init lib name uc sc (s, w) = (status, s', w')" "\<not> lx_initialized s" "name \<noteq> None" "umem_config_valid uc" "socket_config_valid sc"
  obtains (no_memory) w1 n where "lib_mmap lib n w = (None, w1)" "status = UmemAllocationFailed"
      "s' = s\<lparr>lx_umem_size := n, lx_umem_area := None\<rparr>" "w' = w1"
  | (no_umem) a n c w1 w2 where "lib_mmap lib n w = (Some a, w1)" "lib_umem_create lib a n c w1 = (None, w2)" "status = UmemCreateFailed"
      "libxdp_shutdown lib (s\<lparr>lx_umem_size := n, lx_umem_area := Some a\<rparr>, w2) = (s', w')"
  | (no_socket) a n c w1 u w2 i q c' w3 where "lib_mmap lib n w = (Some a, w1)" "lib_umem_create lib a n c w1 = (Some u, w2)"
      "lib_socket_create lib i q u c' w2 = (None, w3)" "status = SocketCreateFailed"
      "libxdp_shutdown lib (s\<lparr>lx_umem_size := n, lx_umem_area := Some a, lx_umem := Some u\<rparr>, w3) = (s', w')"
  | (created) a n c w1 u w2 i q c' x where "lib_mmap lib n w = (Some a, w1)" "lib_umem_create lib a n c w1 = (Some u, w2)"
      "lib_socket_create lib i q u c' w2 = (Some x, w')" "status = SocketOk"
      "s' = s\<lparr>lx_umem_size := n, lx_umem_area := Some a, lx_umem := Some u, lx_socket := Some x, lx_initialized := True\<rparr>"
proof -
  let ?n = "total_bytes uc"
  obtain name' where n: "name = Some name'" using assms(3) by auto
  note init = assms(1) [unfolded libxdp_init_def, simplified Let_def case_prod_conv n assms(2,4,5) LibxdpSocket.simps option.sel option.distinct simp_thms if_False]
  obtain area w1 where 1: "lib_mmap lib ?n w = (area, w1)" by fastforce
  show thesis
  proof (cases area)
    case None
    then show ?thesis using no_memory [of ?n w1] init 1 by simp
  next
    case a: (Some a)
    let ?c = "\<lparr>xu_fill_size = of_nat (uc_fill_ring_size uc), xu_comp_size = of_nat (uc_completion_ring_size uc),
                  xu_frame_size = of_nat (uc_frame_size uc), xu_frame_headroom = 0, xu_flags = 0\<rparr>"
    obtain umem w2 where 2: "lib_umem_create lib a ?n ?c w1 = (umem, w2)" by fastforce
    show ?thesis
    proof (cases umem)
      case None
      then show ?thesis using no_umem [of ?n a w1 ?c w2] init 1 2 a by simp
    next
      case u: (Some u)
      let ?c' = "\<lparr>xs_rx_size = of_nat (sc_rx_ring_size sc), xs_tx_size = of_nat (sc_tx_ring_size sc),
                      xs_libxdp_flags = 0, xs_xdp_flags = sc_xdp_flags sc, xs_bind_flags = ucast (sc_bind_flags sc)\<rparr>"
      obtain sock w3 where 3: "lib_socket_create lib name' (sc_queue_id sc) u ?c' w2 = (sock, w3)" by fastforce
      show ?thesis
      proof (cases sock)
        case None
        then show ?thesis using no_socket [of ?n a w1 ?c u w2 name' "sc_queue_id sc" ?c' w3] init 1 2 3 a u by simp
      next
        case (Some x)
        then show ?thesis using created [of ?n a w1 ?c u w2 name' "sc_queue_id sc" ?c' x] init 1 2 3 a u by simp
      qed
    qed
  qed
qed

subsection \<open>Properties\<close>



subsection \<open>Witnesses: a libxdp on lists\<close>

record list_world =
  lw_alive :: "xsk_object set"
  lw_next :: nat
  lw_fill :: "u64 list"
  lw_fill_slots :: "u32 \<Rightarrow> u64"
  lw_fill_head :: u32
  lw_tx :: "TxDescriptor list"
  lw_tx_slots :: "u32 \<Rightarrow> TxDescriptor"
  lw_tx_head :: u32
  lw_comp :: "u64 list"
  lw_rx :: "RxDescriptor list"

definition list_lib :: "list_world xsk_lib" where
  "list_lib = \<lparr>
     lib_mmap = (\<lambda>n w. if Area (lw_next w) \<in> lw_alive w then (None, w)
        else (Some (lw_next w), w\<lparr>lw_alive := insert (Area (lw_next w)) (lw_alive w), lw_next := lw_next w + 1\<rparr>)),
     lib_munmap = (\<lambda>a n w. w\<lparr>lw_alive := lw_alive w - {Area a}\<rparr>),
     lib_umem_create = (\<lambda>a n c w. (None, w)),
     lib_umem_delete = (\<lambda>u w. w\<lparr>lw_alive := lw_alive w - {Umem u}\<rparr>),
     lib_socket_create = (\<lambda>i q u c w. (None, w)),
     lib_socket_delete = (\<lambda>x w. w\<lparr>lw_alive := lw_alive w - {Xsk x}\<rparr>),
     lib_fill_reserve = (\<lambda>n w. ((if unat n \<le> 2 - length (lw_fill w) then n else 0, lw_fill_head w), w)),
     lib_fill_addr = (\<lambda>i x w. w\<lparr>lw_fill_slots := (lw_fill_slots w)(i := x)\<rparr>),
     lib_fill_submit = (\<lambda>n w. w\<lparr>lw_fill := lw_fill w @ map (\<lambda>k. lw_fill_slots w (lw_fill_head w + of_nat k)) [0..<unat n],
        lw_fill_head := lw_fill_head w + n\<rparr>),
     lib_tx_reserve = (\<lambda>n w. ((if unat n \<le> 2 - length (lw_tx w) then n else 0, lw_tx_head w), w)),
     lib_tx_desc = (\<lambda>i x w. w\<lparr>lw_tx_slots := (lw_tx_slots w)(i := x)\<rparr>),
     lib_tx_submit = (\<lambda>n w. w\<lparr>lw_tx := lw_tx w @ map (\<lambda>k. lw_tx_slots w (lw_tx_head w + of_nat k)) [0..<unat n],
        lw_tx_head := lw_tx_head w + n\<rparr>),
     lib_comp_peek = (\<lambda>n w. ((of_nat (min (unat n) (length (lw_comp w))), 0), w)),
     lib_comp_addr = (\<lambda>i w. lw_comp w ! unat i),
     lib_comp_release = (\<lambda>n w. w\<lparr>lw_comp := drop (unat n) (lw_comp w)\<rparr>),
     lib_rx_peek = (\<lambda>n w. ((of_nat (min (unat n) (length (lw_rx w))), 0), w)),
     lib_rx_desc = (\<lambda>i w. lw_rx w ! unat i),
     lib_rx_release = (\<lambda>n w. w\<lparr>lw_rx := drop (unat n) (lw_rx w)\<rparr>),
     lib_sendto = (\<lambda>x w. ((0, 0), w))\<rparr>"

definition list_world_init :: list_world where
  "list_world_init = \<lparr>lw_alive = {}, lw_next = 0, lw_fill = [], lw_fill_slots = (\<lambda>_. 0), lw_fill_head = -1, lw_tx = [],
     lw_tx_slots = (\<lambda>_. demo_tx), lw_tx_head = 0, lw_comp = [4096, 0], lw_rx = []\<rparr>"

lemma offset_inj: "j < 2 ^ 32 \<Longrightarrow> k < 2 ^ 32 \<Longrightarrow> (h + of_nat j :: u32) = h + of_nat k \<longleftrightarrow> j = k"
  using unat_of_nat_u32 [of j] unat_of_nat_u32 [of k] by (metis add_left_cancel)

lemma small_offset: "j < 2 - m \<Longrightarrow> k < 2 - m \<Longrightarrow> (of_nat j :: u32) = of_nat k \<longleftrightarrow> j = k" for j k m :: nat
  using offset_inj [of j k 0] by simp

lemma unat_less_2_32: "unat (v :: u32) < 2 ^ 32"
  using unsigned_less [of v] by simp

lemma unat_min_u32: "unat (of_nat (min (unat n) m) :: u32) = min (unat n) m" for n :: u32
  by (intro unat_of_nat_u32 le_less_trans [OF min.cobounded1 unat_less_2_32])

lemma unat_below_u32: "k < unat n \<Longrightarrow> unat (of_nat k :: u32) = k" for n :: u32
  by (intro unat_of_nat_u32) (rule less_trans [OF _ unat_less_2_32])

lemma list_lib_fill:
  "producer_laws (lib_fill_reserve list_lib) (lib_fill_addr list_lib) (lib_fill_submit list_lib) lw_fill (\<lambda>w. 2 - length (lw_fill w)) lw_fill_slots lw_fill_head"
  unfolding producer_laws_def by (intro conjI allI impI) (simp_all add: list_lib_def small_offset)

lemma list_lib_tx:
  "producer_laws (lib_tx_reserve list_lib) (lib_tx_desc list_lib) (lib_tx_submit list_lib) lw_tx (\<lambda>w. 2 - length (lw_tx w)) lw_tx_slots lw_tx_head"
  unfolding producer_laws_def by (intro conjI allI impI) (simp_all add: list_lib_def small_offset)

lemma list_lib_comp: "consumer_laws (lib_comp_peek list_lib) (lib_comp_addr list_lib) (lib_comp_release list_lib) lw_comp"
  unfolding consumer_laws_def by (intro conjI allI impI) (auto simp: list_lib_def unat_min_u32 dest: unat_below_u32)

lemma list_lib_rx: "consumer_laws (lib_rx_peek list_lib) (lib_rx_desc list_lib) (lib_rx_release list_lib) lw_rx"
  unfolding consumer_laws_def by (intro conjI allI impI) (auto simp: list_lib_def unat_min_u32 dest: unat_below_u32)

lemma list_lib_objects: "object_laws list_lib lw_alive"
  by (simp add: object_laws_def list_lib_def)



end
