(* ===== verification/Live_Mode.thy ===== *)
theory Live_Mode
  imports Libxdp_Socket Frame_Lifecycle
begin

section \<open>The live mode (\<open>run_live\<close> in \<open>src/main.cpp\<close>)\<close>

text \<open>
  The main loop on a real network card: the libxdp socket, the frame allocator and the data plane. The packet memory is shared with the
  kernel and belongs to the world, as does the flag that a signal clears. The model covers the initial filling of the fill ring,
  one round of the loop and the loop itself, and the code around it; the lines it prints are left out. A result \<open>None\<close> is an access out of bounds, or a loop that does not end.
\<close>

record 'w live_env =
  le_lib :: "'w xsk_lib"
  le_area :: "'w \<Rightarrow> bytes"
  le_set_area :: "bytes \<Rightarrow> 'w \<Rightarrow> 'w"
  le_running :: "'w \<Rightarrow> bool"

definition XDP_FLAGS_SKB_MODE :: u32 where "XDP_FLAGS_SKB_MODE = 2"
definition XDP_COPY :: u32 where "XDP_COPY = 2"

definition live_umem_config :: UmemConfig where
  "live_umem_config = \<lparr>uc_frame_size = kDefaultFrameSizeBytes, uc_frame_count = kDefaultFrameCount, uc_fill_ring_size = kDefaultFillRingSize,
     uc_completion_ring_size = kDefaultCompletionRingSize\<rparr>"

definition live_socket_config :: "u32 \<Rightarrow> SocketConfig" where
  "live_socket_config queue_id = \<lparr>sc_queue_id = queue_id, sc_xdp_flags = XDP_FLAGS_SKB_MODE, sc_rx_ring_size = kDefaultRxRingSize,
     sc_tx_ring_size = kDefaultTxRingSize, sc_interface_index = 0, sc_bind_flags = XDP_COPY\<rparr>"

subsection \<open>Filling the fill ring\<close>

fun live_allocate :: "nat \<Rightarrow> FrameAllocator \<Rightarrow> FrameHandle list \<times> FrameAllocator" where
  "live_allocate 0 a = ([], a)"
| "live_allocate (Suc n) a =
     (let (allocation, a) = allocate FillRing a in
      if \<not> allocation_ok allocation then ([], a)
      else let (frames, a) = live_allocate n a in (fa_frame allocation # frames, a))"

partial_function (option) live_fill :: "'w xsk_lib \<Rightarrow> nat \<Rightarrow> nat \<Rightarrow> FrameAllocator \<Rightarrow> 'w \<Rightarrow> (nat \<times> FrameAllocator \<times> 'w) option" where
  "live_fill lib frame_count filled a w =
     (if filled < frame_count then
        let request = (if frame_count - filled < kDataPlaneBatchSize then frame_count - filled else kDataPlaneBatchSize);
            allocated = live_allocate request a in do {
          r \<leftarrow> libxdp_refill lib (map fh_address (fst allocated)) w;
          if ba_count (fst r) = 0 then Some (filled, snd allocated, snd r)
          else live_fill lib frame_count (filled + ba_count (fst r)) (snd allocated) (snd r)
        }
      else Some (filled, a, w))"

subsection \<open>One round\<close>

record 'w live =
  lv_socket :: LibxdpSocket
  lv_world :: 'w
  lv_allocator :: FrameAllocator
  lv_wheel :: TimingWheel
  lv_tx :: "ProcessedFrame list"
  lv_recycle :: "ProcessedFrame list"
  lv_packets_seen :: u64
  lv_packets_dropped :: u64
  lv_tx_submitted :: u64
  lv_completed :: u64

fun each :: "('a \<Rightarrow> 's \<Rightarrow> 's option) \<Rightarrow> 'a list \<Rightarrow> 's \<Rightarrow> 's option" where
  "each f [] s = Some s"
| "each f (x # xs) s = do { s \<leftarrow> f x s; each f xs s }"

text \<open>The condition and the refill that the loops over completions and recycled frames share; the flag says whether the frame was moved.\<close>

definition live_refill :: "'w live_env \<Rightarrow> FrameOwner \<Rightarrow> u64 \<Rightarrow> 'w live \<Rightarrow> (bool \<times> 'w live) option" where
  "live_refill env owner address l =
     (let frame = handle_from_address (lv_allocator l) address in
      if \<not> allocation_ok frame then Some (False, l)
      else
        let (status, a) = transition (fa_frame frame) owner FillRing (lv_allocator l); l = l\<lparr>lv_allocator := a\<rparr> in
        if status \<noteq> FrameOk then Some (False, l)
        else do { r \<leftarrow> libxdp_refill (le_lib env) [fh_address (fa_frame frame)] (lv_world l); Some (True, l\<lparr>lv_world := snd r\<rparr>) })"

definition live_complete :: "'w live_env \<Rightarrow> u64 \<Rightarrow> 'w live \<Rightarrow> 'w live option" where
  "live_complete env address l = do {
     r \<leftarrow> live_refill env TxRing address l;
     Some (if fst r then (snd r)\<lparr>lv_completed := lv_completed (snd r) + 1\<rparr> else snd r)
   }"

definition live_recycle :: "'w live_env \<Rightarrow> ProcessedFrame \<Rightarrow> 'w live \<Rightarrow> 'w live option" where
  "live_recycle env frame l = do { r \<leftarrow> live_refill env DataPlane (pf_frame_address frame) l; Some (snd r) }"

definition live_take_over :: "RxDescriptor \<Rightarrow> PacketDescriptor list \<times> FrameAllocator \<Rightarrow> PacketDescriptor list \<times> FrameAllocator" where
  "live_take_over rx da = (case da of (descriptors, a) \<Rightarrow>
     let frame = handle_from_address a (rx_address rx) in
     if \<not> allocation_ok frame then (descriptors, a)
     else
       let owner = owner_of a (fh_index (fa_frame frame));
           (status, a) = transition (fa_frame frame) owner DataPlane a in
       if status \<noteq> FrameOk then (descriptors, a)
       else (descriptors @ [\<lparr>pd_frame_address = rx_address rx, pd_frame_length = rx_length rx, pd_options = rx_options rx\<rparr>], a))"

definition live_submit :: "'w live_env \<Rightarrow> ProcessedFrame \<Rightarrow> 'w live \<Rightarrow> 'w live option" where
  "live_submit env frame l =
     (let handle = handle_from_address (lv_allocator l) (pf_frame_address frame) in
      if \<not> allocation_ok handle then Some l
      else
        let (status, a) = transition (fa_frame handle) DataPlane TxRing (lv_allocator l); l = l\<lparr>lv_allocator := a\<rparr> in
        if status \<noteq> FrameOk then Some l
        else do {
          r \<leftarrow> libxdp_submit_tx (le_lib env) [\<lparr>tx_address = pf_frame_address frame, tx_length = pf_frame_length frame, tx_options = 0\<rparr>] (lv_world l);
          let l = l\<lparr>lv_world := snd r\<rparr>;
          if ba_count (fst r) = 1 then
            let k = libxdp_kick_tx (le_lib env) (lv_socket l, lv_world l) in
            Some (l\<lparr>lv_tx_submitted := lv_tx_submitted l + 1, lv_socket := fst (snd k), lv_world := snd (snd k)\<rparr>)
          else Some l
        })"

text \<open>The call of the data plane: the live mode passes no rules.\<close>

definition live_batch :: "'w live_env \<Rightarrow> PacketDescriptor list \<Rightarrow> 'w live \<Rightarrow> dp_state option" where
  "live_batch env descriptors l =
     process_packet_batch (map_option (\<lambda>_. le_area env (lv_world l)) (lx_umem_area (lv_socket l))) (unat (lx_umem_size (lv_socket l)))
       descriptors [] (lv_wheel l) (lv_tx l) (lv_recycle l) kDefaultTimingWheelTickNs"

text \<open>What a round does with the descriptors of the frames it has taken over.\<close>

definition live_process :: "'w live_env \<Rightarrow> PacketDescriptor list \<Rightarrow> 'w live \<Rightarrow> 'w live option" where
  "live_process env descriptors l = do {
     batch \<leftarrow> live_batch env descriptors l;
     let l = l\<lparr>lv_world := (case dp_umem batch of None \<Rightarrow> lv_world l | Some area \<Rightarrow> le_set_area env area (lv_world l)),
       lv_wheel := dp_wheel batch, lv_tx := dp_tx batch, lv_recycle := dp_recycle batch,
       lv_packets_seen := lv_packets_seen l + bs_packets_seen (br_stats (dp_result batch)),
       lv_packets_dropped := lv_packets_dropped l + bs_packets_dropped (br_stats (dp_result batch))\<rparr>;
     l \<leftarrow> each (live_recycle env) (take (br_recycle_count (dp_result batch)) (lv_recycle l)) l;
     each (live_submit env) (take (br_tx_count (dp_result batch)) (lv_tx l)) l
   }"

definition live_round :: "'w live_env \<Rightarrow> 'w live \<Rightarrow> 'w live option" where
  "live_round env l = do {
     c \<leftarrow> libxdp_drain_completions (le_lib env) kDataPlaneBatchSize (lv_world l);
     l \<leftarrow> each (live_complete env) (take (ba_count (fst (snd c))) (fst c)) (l\<lparr>lv_world := snd (snd c)\<rparr>);
     x \<leftarrow> libxdp_consume_rx (le_lib env) kDataPlaneBatchSize (lv_world l);
     let l = l\<lparr>lv_world := snd (snd x)\<rparr>;
     if ba_count (fst (snd x)) = 0 then Some l
     else
       let taken = fold live_take_over (take (ba_count (fst (snd x))) (fst x)) ([], lv_allocator l)
       in live_process env (fst taken) (l\<lparr>lv_allocator := snd taken\<rparr>)
   }"

partial_function (option) live_loop :: "'w live_env \<Rightarrow> 'w live \<Rightarrow> 'w live option" where
  "live_loop env l = (if le_running env (lv_world l) then do { l \<leftarrow> live_round env l; live_loop env l } else Some l)"

definition live_start :: "LibxdpSocket \<Rightarrow> FrameAllocator \<Rightarrow> 'w \<Rightarrow> 'w live" where
  "live_start s a w = \<lparr>lv_socket = s, lv_world = w, lv_allocator = a, lv_wheel = TimingWheel_init 1024 64,
     lv_tx = replicate kDataPlaneBatchSize ProcessedFrame_init, lv_recycle = replicate kDataPlaneBatchSize ProcessedFrame_init,
     lv_packets_seen = 0, lv_packets_dropped = 0, lv_tx_submitted = 0, lv_completed = 0\<rparr>"

text \<open>The whole function: the status of \<open>init\<close> if it fails, and the final state of the loop, whose counters are printed.\<close>

definition run_live :: "'w live_env \<Rightarrow> string option \<Rightarrow> u32 \<Rightarrow> 'w \<Rightarrow> (SocketStatus \<times> 'w live option) option" where
  "run_live env interface_name queue_id w =
     (case libxdp_init (le_lib env) interface_name live_umem_config (live_socket_config queue_id) (LibxdpSocket_init, w) of
        (status, s, w) \<Rightarrow>
          if status \<noteq> SocketOk then Some (status, None)
          else do {
            f \<leftarrow> live_fill (le_lib env) kDefaultFrameCount 0 (FrameAllocator_init kDefaultFrameCount kDefaultFrameSizeBytes) w;
            l \<leftarrow> live_loop env (live_start s (fst (snd f)) (snd (snd f)));
            Some (SocketOk, Some l)
          })"

subsection \<open>The loop is memory safe\<close>

text \<open>libxdp never grants more than was asked for.\<close>

definition lib_bounded :: "'w xsk_lib \<Rightarrow> bool" where
  "lib_bounded lib \<longleftrightarrow> (\<forall>n w. fst (fst (lib_fill_reserve lib n w)) \<le> n \<and> fst (fst (lib_tx_reserve lib n w)) \<le> n \<and>
     fst (fst (lib_comp_peek lib n w)) \<le> n \<and> fst (fst (lib_rx_peek lib n w)) \<le> n)"

lemma store_batch_total: "n \<le> length xs \<Longrightarrow> \<exists>w'. store_batch store index xs n w = Some w'"
  by (induction n) auto

lemma produce_batch_total:
  assumes "\<And>n w. fst (fst (reserve n w)) \<le> n" "length xs < 2 ^ 32"
  shows "\<exists>r. produce_batch reserve store submit xs w = Some r"
proof -
  obtain k i w1 where r: "reserve (of_nat (length xs)) w = ((k, i), w1)" by (metis prod.collapse)
  have "unat k \<le> length xs" using assms(1) [of "of_nat (length xs)" w] r unat_of_nat_u32 [OF assms(2)] by (simp add: word_le_nat_alt)
  from store_batch_total [OF this, of store i w1] show ?thesis using r by (auto simp: produce_batch_def)
qed

lemma consume_batch_total:
  assumes "\<And>n w. fst (fst (peek n w)) \<le> n" "n < 2 ^ 32"
  shows "\<exists>items st w'. consume_batch peek load discard n w = Some (items, st, w') \<and> ba_count st = length items \<and> length items \<le> n"
proof -
  obtain k i w1 where r: "peek (of_nat n) w = ((k, i), w1)" by (metis prod.collapse)
  have "unat k \<le> n" using assms(1) [of "of_nat n" w] r unat_of_nat_u32 [OF assms(2)] by (simp add: word_le_nat_alt)
  then show ?thesis using r by (auto simp: consume_batch_def load_batch_def)
qed

lemma batch_size_u32: "kDataPlaneBatchSize < 2 ^ 32"
  by (simp add: kDataPlaneBatchSize_def)

lemma libxdp_total:
  assumes "lib_bounded lib"
  shows "\<exists>r. libxdp_refill lib [x] w = Some r" "\<exists>r. libxdp_submit_tx lib [d] w = Some r"
    "\<exists>items st w'. libxdp_drain_completions lib kDataPlaneBatchSize w = Some (items, st, w') \<and> ba_count st = length items \<and> length items \<le> kDataPlaneBatchSize"
    "\<exists>items st w'. libxdp_consume_rx lib kDataPlaneBatchSize w = Some (items, st, w') \<and> ba_count st = length items \<and> length items \<le> kDataPlaneBatchSize"
  using assms unfolding libxdp_batches lib_bounded_def
  by (intro produce_batch_total consume_batch_total batch_size_u32; simp)+

definition live_inv :: "'w live_env \<Rightarrow> 'w live \<Rightarrow> bool" where
  "live_inv env l \<longleftrightarrow> wheel_inv (lv_wheel l) \<and> (\<forall>w. unat (lx_umem_size (lv_socket l)) \<le> length (le_area env w))"

lemma live_inv_simps [simp]:
  "live_inv env (l\<lparr>lv_world := w\<rparr>) = live_inv env l" "live_inv env (l\<lparr>lv_allocator := a\<rparr>) = live_inv env l"
  "live_inv env (l\<lparr>lv_completed := n\<rparr>) = live_inv env l" "live_inv env (l\<lparr>lv_tx_submitted := n\<rparr>) = live_inv env l"
  by (simp_all add: live_inv_def)

lemma each_total:
  assumes "\<And>x s. x \<in> set xs \<Longrightarrow> I s \<Longrightarrow> \<exists>s'. f x s = Some s' \<and> I s'" "I s"
  shows "\<exists>s'. each f xs s = Some s' \<and> I s'"
  using assms by (induction xs arbitrary: s) (auto, fastforce)

lemma live_refill_total:
  assumes "lib_bounded (le_lib env)" "live_inv env l"
  shows "\<exists>b l'. live_refill env owner x l = Some (b, l') \<and> live_inv env l' \<and> lv_wheel l' = lv_wheel l"
proof -
  let ?h = "fa_frame (handle_from_address (lv_allocator l) x)"
  obtain r where "libxdp_refill (le_lib env) [fh_address ?h] (lv_world l) = Some r" using libxdp_total(1) [OF assms(1)] by blast
  then show ?thesis using assms(2) by (auto simp: live_refill_def Let_def case_prod_beta)
qed

lemma live_complete_total:
  "lib_bounded (le_lib env) \<Longrightarrow> live_inv env l \<Longrightarrow> \<exists>l'. live_complete env x l = Some l' \<and> live_inv env l' \<and> lv_wheel l' = lv_wheel l"
  using live_refill_total [of env l TxRing x] by (auto simp: live_complete_def)

lemma live_recycle_total:
  "lib_bounded (le_lib env) \<Longrightarrow> live_inv env l \<Longrightarrow> \<exists>l'. live_recycle env f l = Some l' \<and> live_inv env l' \<and> lv_wheel l' = lv_wheel l"
  using live_refill_total [of env l DataPlane "pf_frame_address f"] by (auto simp: live_recycle_def)

lemma kick_keeps_size: "lx_umem_size (fst (snd (libxdp_kick_tx lib (s, w)))) = lx_umem_size s"
  by (simp add: libxdp_kick_tx_def case_prod_beta Let_def split: option.splits)

lemma live_submit_total:
  assumes "lib_bounded (le_lib env)" "live_inv env l"
  shows "\<exists>l'. live_submit env f l = Some l' \<and> live_inv env l' \<and> lv_wheel l' = lv_wheel l"
proof -
  let ?d = "\<lparr>tx_address = pf_frame_address f, tx_length = pf_frame_length f, tx_options = 0\<rparr>"
  obtain r where "libxdp_submit_tx (le_lib env) [?d] (lv_world l) = Some r" using libxdp_total(2) [OF assms(1)] by blast
  then show ?thesis using assms(2) by (simp add: live_submit_def Let_def case_prod_beta live_inv_def kick_keeps_size)
qed

text \<open>Without rules every packet passes, and nothing is put into the wheel.\<close>

definition chaos :: "dp_state \<Rightarrow> TimingWheel \<times> u64 \<times> u64" where
  "chaos s = (dp_wheel s, bs_packets_delayed (br_stats (dp_result s)), bs_packets_corrupted (br_stats (dp_result s)))"

lemma pass_no_action [simp]: "\<not> should_drop pass_decision" "\<not> should_delay pass_decision" "\<not> should_corrupt pass_decision"
  by (simp_all add: should_drop_def should_delay_def should_corrupt_def pass_decision_def Pass_def Drop_def Delay_def Corrupt_def)

lemma chaos_drop [simp]: "chaos (drop_frame p s) = chaos s"
  by (simp add: chaos_def drop_frame_def recycle_frame_def append_recycle_def)

lemma chaos_emit [simp]: "chaos (emit_frame p s) = chaos s"
  by (simp add: emit_frame_def Let_def) (simp add: chaos_def)

lemma no_rules_packet:
  assumes "process_packet n [] tick_ns d s = Some s'"
  shows "chaos s' = chaos s"
proof -
  let ?s = "upd_stats (count_seen (pd_frame_length d)) s"
  obtain v where v: "parse_packet (if dp_umem ?s \<noteq> None \<and> descriptor_within_umem d n
      then map_option (drop (unat (pd_frame_address d))) (dp_umem ?s) else None) (unat (pd_frame_length d)) = Some v"
    using assms unfolding process_packet_def Let_def by (auto split: bind_splits)
  have dec: "(if view_ok v then decide_packet_fast v [] else pass_decision) = pass_decision" by simp
  have "process_packet n [] tick_ns d s = Some s' \<Longrightarrow> ?thesis"
    unfolding process_packet_def Let_def v dec bind.bind_lunit
    by (auto simp: forward_frame_def Let_def split: option.splits if_splits bind_splits) (simp_all add: chaos_def)
  then show ?thesis using assms .
qed

lemma no_rules_loop: "process_loop n [] tick_ns ds s = Some s' \<Longrightarrow> chaos s' = chaos s"
  by (induction ds arbitrary: s) (auto dest: no_rules_packet split: bind_splits)

lemma no_rules_batch:
  assumes "process_packet_batch m n ds [] w tx rc tick_ns = Some batch"
  shows "dp_wheel batch = w" "bs_packets_delayed (br_stats (dp_result batch)) = 0" "bs_packets_corrupted (br_stats (dp_result batch)) = 0"
  using no_rules_loop [OF assms [unfolded process_packet_batch_start]]
  by (simp_all add: chaos_def batch_start_def DataPlaneBatchResult_init_def DataPlaneBatchStats_init_def)

lemma live_batch_total:
  assumes "live_inv env l"
  shows "\<exists>batch. live_batch env ds l = Some batch"
proof -
  let ?m = "map_option (\<lambda>_. le_area env (lv_world l)) (lx_umem_area (lv_socket l))"
  let ?s = "batch_start ?m (lv_wheel l) (lv_tx l) (lv_recycle l)"
  have "mem_ok (unat (lx_umem_size (lv_socket l))) ?s"
    using assms by (intro batch_start_mem) (simp add: live_inv_def split: option.splits)
  moreover have "dp_ok ?s" using assms by (intro batch_start_ok) (simp add: live_inv_def)
  ultimately show ?thesis unfolding live_batch_def process_packet_batch_start using process_loop_spec by blast
qed

lemma live_process_total:
  assumes lib: "lib_bounded (le_lib env)" and inv: "live_inv env l"
  shows "\<exists>l'. live_process env ds l = Some l' \<and> live_inv env l' \<and> lv_wheel l' = lv_wheel l"
proof -
  obtain batch where b: "live_batch env ds l = Some batch" using live_batch_total [OF inv] by blast
  define l1 where "l1 = l\<lparr>lv_world := (case dp_umem batch of None \<Rightarrow> lv_world l | Some area \<Rightarrow> le_set_area env area (lv_world l)),
       lv_wheel := dp_wheel batch, lv_tx := dp_tx batch, lv_recycle := dp_recycle batch,
       lv_packets_seen := lv_packets_seen l + bs_packets_seen (br_stats (dp_result batch)),
       lv_packets_dropped := lv_packets_dropped l + bs_packets_dropped (br_stats (dp_result batch))\<rparr>"
  let ?I = "\<lambda>l'. live_inv env l' \<and> lv_wheel l' = lv_wheel l"
  have "?I l1" using inv no_rules_batch(1) [OF b [unfolded live_batch_def]] by (simp add: l1_def live_inv_def)
  then obtain l2 where l2: "each (live_recycle env) (take (br_recycle_count (dp_result batch)) (lv_recycle l1)) l1 = Some l2" "?I l2"
    using each_total [of _ ?I "live_recycle env" l1] live_recycle_total [OF lib] by metis
  then obtain l3 where l3: "each (live_submit env) (take (br_tx_count (dp_result batch)) (lv_tx l2)) l2 = Some l3" "?I l3"
    using each_total [of _ ?I "live_submit env" l2] live_submit_total [OF lib] by metis
  show ?thesis using b l2(1) l3 by (simp add: live_process_def l1_def)
qed

lemma live_round_total:
  assumes lib: "lib_bounded (le_lib env)" and inv: "live_inv env l"
  shows "\<exists>l'. live_round env l = Some l' \<and> live_inv env l' \<and> lv_wheel l' = lv_wheel l"
proof -
  let ?I = "\<lambda>l'. live_inv env l' \<and> lv_wheel l' = lv_wheel l"
  obtain cs st w where c: "libxdp_drain_completions (le_lib env) kDataPlaneBatchSize (lv_world l) = Some (cs, st, w)"
    using libxdp_total(3) [OF lib] by blast
  have "?I (l\<lparr>lv_world := w\<rparr>)" using inv by simp
  then obtain l1 where l1: "each (live_complete env) (take (ba_count st) cs) (l\<lparr>lv_world := w\<rparr>) = Some l1" "?I l1"
    using each_total [of _ ?I "live_complete env" "l\<lparr>lv_world := w\<rparr>"] live_complete_total [OF lib] by metis
  obtain rx st' w' where x: "libxdp_consume_rx (le_lib env) kDataPlaneBatchSize (lv_world l1) = Some (rx, st', w')"
    using libxdp_total(4) [OF lib] by blast
  let ?t = "fold live_take_over (take (ba_count st') rx) ([], lv_allocator l1)"
  let ?l = "l1\<lparr>lv_world := w', lv_allocator := snd ?t\<rparr>"
  have "live_inv env ?l" "lv_wheel ?l = lv_wheel l" using l1(2) by simp_all
  then obtain l2 where "live_process env (fst ?t) ?l = Some l2" "?I l2" using live_process_total [OF lib] by metis
  then show ?thesis using c l1 x by (simp add: live_round_def Let_def)
qed

fun live_rounds :: "'w live_env \<Rightarrow> nat \<Rightarrow> 'w live \<Rightarrow> 'w live option" where
  "live_rounds env 0 l = Some l"
| "live_rounds env (Suc n) l = do { l \<leftarrow> live_round env l; live_rounds env n l }"

lemma live_rounds_total:
  assumes "lib_bounded (le_lib env)" "live_inv env l"
  shows "\<exists>l'. live_rounds env n l = Some l' \<and> live_inv env l' \<and> lv_wheel l' = lv_wheel l"
  using assms(2)
proof (induction n arbitrary: l)
  case (Suc n)
  obtain l1 where 1: "live_round env l = Some l1" "live_inv env l1" "lv_wheel l1 = lv_wheel l" using live_round_total [OF assms(1) Suc.prems] by blast
  then show ?case using Suc.IH [OF 1(2)] by simp
qed simp

lemma live_loop_rounds:
  assumes "live_rounds env n l = Some l'" "\<not> le_running env (lv_world l')"
    and "\<And>m l1. m < n \<Longrightarrow> live_rounds env m l = Some l1 \<Longrightarrow> le_running env (lv_world l1)"
  shows "live_loop env l = Some l'"
  using assms
proof (induction n arbitrary: l)
  case 0
  then show ?case by (subst live_loop.simps) simp
next
  case (Suc n)
  obtain l1 where 1: "live_round env l = Some l1" "live_rounds env n l1 = Some l'" using Suc.prems(1) by (auto split: bind_splits)
  have "live_loop env l1 = Some l'"
    by (rule Suc.IH [OF 1(2) Suc.prems(2)]) (use Suc.prems(3) [of "Suc _"] 1(1) in simp)
  then show ?case using Suc.prems(3) [of 0 l] 1(1) by (subst live_loop.simps) simp
qed

subsection \<open>Filling the ring loses frames when there are more frames than entries\<close>

lemma live_allocate_spec:
  assumes "pool_inv a" "n \<le> fr_free_count a"
  shows "\<exists>hs a'. live_allocate n a = (hs, a') \<and> length hs = n \<and> pool_inv a' \<and> fr_free_count a' = fr_free_count a - n \<and>
    owned a' FillRing = owned a FillRing + mset (map fh_address hs)"
  using assms
proof (induction n arbitrary: a)
  case (Suc n)
  have o: "FillRing \<noteq> Free" and f: "fr_free_count a \<noteq> 0" using Suc.prems(2) by simp_all
  obtain k a1 where k: "allocate FillRing a = (\<lparr>fa_frame = make_handle a k, fa_status = FrameOk\<rparr>, a1)" "unat k < fr_FrameCount a" "owner_of a k = Free"
    "owner_of a1 = (owner_of a)(k := FillRing)" "pool_inv a1" "fr_free_count a1 = fr_free_count a - 1" "fr_FrameCount a1 = fr_FrameCount a"
    "fr_FrameSize a1 = fr_FrameSize a"
    by (rule allocate_takes [OF Suc.prems(1) o f])
  have "owned a1 FillRing = add_mset (frame_address a k) (owned a FillRing)"
    using owned_move(2) [OF pool_invD(1) [OF Suc.prems(1)] k(7,8,2,3,4)] by simp
  moreover have "n \<le> fr_free_count a1" using Suc.prems(2) k(6) by simp
  from Suc.IH [OF k(5) this] obtain hs a' where "live_allocate n a1 = (hs, a')" "length hs = n" "pool_inv a'" "fr_free_count a' = fr_free_count a1 - n"
    "owned a' FillRing = owned a1 FillRing + mset (map fh_address hs)" by blast
  ultimately show ?case using k(1,6) by (simp add: allocation_ok_def frame_address_def)
qed simp

lemma live_fill_spec:
  assumes laws: "producer_laws (lib_fill_reserve lib) (lib_fill_addr lib) (lib_fill_submit lib) queue room slots head"
    and "pool_inv a" "filled + fr_free_count a = n" "room w = kDataPlaneBatchSize * q" "room w < fr_free_count a"
  shows "\<exists>a' w' lost. live_fill lib n filled a w = Some (filled + room w, a', w') \<and>
    length (queue w') = length (queue w) + room w \<and> owned a' FillRing + mset (queue w) = owned a FillRing + mset (queue w') + lost \<and>
    size lost = min kDataPlaneBatchSize (fr_free_count a - room w)"
  using assms(2-)
proof (induction q arbitrary: filled a w)
  case 0
  let ?k = "min kDataPlaneBatchSize (fr_free_count a)"
  obtain hs a' where al: "live_allocate ?k a = (hs, a')" "length hs = ?k" "owned a' FillRing = owned a FillRing + mset (map fh_address hs)"
    using live_allocate_spec [OF 0(1), of ?k] by auto
  have k: "0 < ?k" "?k < 2 ^ 32" using 0(4) by (simp_all add: kDataPlaneBatchSize_def)
  obtain w' where w': "libxdp_refill lib (map fh_address hs) w = Some (\<lparr>ba_count = 0, ba_status = SocketRingFull\<rparr>, w')" "queue w' = queue w"
    using produce_batch_spec [OF laws, of "map fh_address hs" w] k al(2) 0(3) unfolding libxdp_batches by auto
  have "(if n - filled < kDataPlaneBatchSize then n - filled else kDataPlaneBatchSize) = ?k" "filled < n" using 0(2,4) by auto
  then have "live_fill lib n filled a w = Some (filled, a', w')" using al(1) w'(1) by (subst live_fill.simps) simp
  then show ?case using w'(2) al(2,3) 0(3)
    by (intro exI [of _ a'] exI [of _ w'] exI [of _ "mset (map fh_address hs)"]) simp
next
  case (Suc q)
  let ?k = kDataPlaneBatchSize
  have room: "?k \<le> room w" "?k < fr_free_count a" "0 < ?k" "?k < 2 ^ 32" using Suc.prems(3,4) by (simp_all add: kDataPlaneBatchSize_def)
  obtain hs a1 where al: "live_allocate ?k a = (hs, a1)" "length hs = ?k" "pool_inv a1" "fr_free_count a1 = fr_free_count a - ?k"
    "owned a1 FillRing = owned a FillRing + mset (map fh_address hs)"
    using live_allocate_spec [OF Suc.prems(1), of ?k] room by auto
  obtain w1 where w1: "libxdp_refill lib (map fh_address hs) w = Some (\<lparr>ba_count = ?k, ba_status = SocketOk\<rparr>, w1)"
    "queue w1 = queue w @ map fh_address hs" "room w1 = room w - ?k"
    using produce_batch_spec [OF laws, of "map fh_address hs" w] room al(2) unfolding libxdp_batches by auto
  have "(if n - filled < ?k then n - filled else ?k) = ?k" "filled < n" using Suc.prems(2) room by auto
  then have step: "live_fill lib n filled a w = live_fill lib n (filled + ?k) a1 w1" using al(1) w1(1) room(3) by (subst live_fill.simps) simp
  have "filled + ?k + fr_free_count a1 = n" "room w1 = ?k * q" "room w1 < fr_free_count a1" using Suc.prems al(4) w1(3) room by simp_all
  from Suc.IH [OF al(3) this] obtain a' w' lost where "live_fill lib n (filled + ?k) a1 w1 = Some (filled + ?k + room w1, a', w')"
    "length (queue w') = length (queue w1) + room w1" "owned a' FillRing + mset (queue w1) = owned a1 FillRing + mset (queue w') + lost"
    "size lost = min ?k (fr_free_count a1 - room w1)" by blast
  moreover have "filled + ?k + room w1 = filled + room w" "fr_free_count a1 - room w1 = fr_free_count a - room w" using w1(3) al(4) room by simp_all
  ultimately show ?case using step w1(2,3) al(2,5) room by (intro exI [of _ a'] exI [of _ w'] exI [of _ lost]) (simp add: ac_simps)
qed

lemma live_start_inv:
  assumes "\<forall>w. unat (lx_umem_size s) \<le> length (le_area env w)"
  shows "live_inv env (live_start s a w)"
proof -
  have "is_pow2 1024" by (rule is_pow2I [of _ 10]) simp_all
  then show ?thesis using assms by (simp add: live_inv_def live_start_def wheel_inv_init)
qed

subsection \<open>Properties\<close>


text \<open>C36: The live mode does no chaos: it calls the data plane with an empty list of rules. However many rounds it runs and whatever descriptors it
  then hands to the data plane, the timing wheel is empty and stays empty, and no packet is delayed or corrupted.\<close>

theorem live_mode_applies_no_rules:
  assumes "live_rounds env n (live_start s a w) = Some l" "lib_bounded (le_lib env)" "\<forall>w. unat (lx_umem_size s) \<le> length (le_area env w)"
  shows "\<exists>batch. live_batch env ds l = Some batch \<and> wheel_pending (lv_wheel l) = {#} \<and> dp_wheel batch = lv_wheel l \<and>
    bs_packets_delayed (br_stats (dp_result batch)) = 0 \<and> bs_packets_corrupted (br_stats (dp_result batch)) = 0"
proof -
  from live_rounds_total [OF assms(2) live_start_inv [OF assms(3), of a w], of n] have l: "lv_wheel l = TimingWheel_init 1024 64" "live_inv env l"
    using assms(1) by (auto simp: live_start_def)
  obtain batch where b: "live_batch env ds l = Some batch" using live_batch_total [OF l(2)] by blast
  then show ?thesis using no_rules_batch [OF b [unfolded live_batch_def]] l(1) by simp
qed


subsection \<open>Witnesses\<close>

definition list_env :: "list_world live_env" where
  "list_env = \<lparr>le_lib = list_lib, le_area = (\<lambda>_. replicate 4096 0), le_set_area = (\<lambda>_ w. w), le_running = (\<lambda>w. lw_comp w \<noteq> [])\<rparr>"

definition list_socket :: LibxdpSocket where
  "list_socket = LibxdpSocket_init\<lparr>lx_umem_area := Some 0, lx_umem_size := 4096, lx_initialized := True\<rparr>"

lemma list_env_ok: "lib_bounded (le_lib list_env)" "\<forall>w. unat (lx_umem_size list_socket) \<le> length (le_area list_env w)"
proof -
  have "of_nat (min (unat n) m) \<le> n" for n :: u32 and m by (simp add: word_le_nat_alt unat_min_u32)
  then show "lib_bounded (le_lib list_env)" by (simp add: lib_bounded_def list_env_def list_lib_def)
  show "\<forall>w. unat (lx_umem_size list_socket) \<le> length (le_area list_env w)" by (simp add: list_env_def list_socket_def)
qed


theorem live_mode_applies_no_rules_witness:
  "\<exists>l batch. live_rounds list_env 3 (live_start list_socket (FrameAllocator_init 1 4096) list_world_init) = Some l \<and>
     live_batch list_env [\<lparr>pd_frame_address = 0, pd_frame_length = 64, pd_options = 0\<rparr>] l = Some batch \<and>
     bs_packets_delayed (br_stats (dp_result batch)) = 0"
proof -
  let ?l = "live_start list_socket (FrameAllocator_init 1 4096) list_world_init"
  from live_rounds_total [OF list_env_ok(1) live_start_inv [OF list_env_ok(2)], of 3] obtain l where l: "live_rounds list_env 3 ?l = Some l" by blast
  from live_mode_applies_no_rules [OF l list_env_ok, of "[\<lparr>pd_frame_address = 0, pd_frame_length = 64, pd_options = 0\<rparr>]"]
  show ?thesis using l by blast
qed


end
