(* ===== verification/Demo_Mode.thy ===== *)
theory Demo_Mode
  imports Control_Plane Af_Xdp_Runtime
begin

section \<open>The demonstration mode (\<open>run_demo\<close> in \<open>src/main.cpp\<close>)\<close>

text \<open>
  What the program does without arguments: it installs two rules through the control protocol, builds four packets in frames of the allocator and
  hands them to the data plane. The model has the packet builder and the run up to the result of the batch; the figures that are printed are those of this result.
\<close>

unbundle bit_operations_syntax

subsection \<open>Building a packet\<close>

definition memset :: "bytes \<Rightarrow> nat \<Rightarrow> u8 \<Rightarrow> nat \<Rightarrow> bytes option" where
  "memset m base v n = (if base + n \<le> length m then Some (take base m @ replicate n v @ drop (base + n) m) else None)"

text \<open>Assignments to elements of the array at \<open>base\<close>, in order.\<close>

fun assign_all :: "bytes \<Rightarrow> nat \<Rightarrow> (nat \<times> u8) list \<Rightarrow> bytes option" where
  "assign_all m base [] = Some m"
| "assign_all m base ((i, v) # ws) = do { m \<leftarrow> wr m (base + i) v; assign_all m base ws }"

definition build_test_packet :: "bytes \<Rightarrow> nat \<Rightarrow> u16 \<Rightarrow> nat \<Rightarrow> bytes option" where
  "build_test_packet m frame dst_port payload_size = do {
     let total_frame = kEthernetHeaderBytes + kIPv4BaseHeaderBytes + kTCPBaseHeaderBytes + payload_size;
     m \<leftarrow> memset m frame 0 total_frame;
     m \<leftarrow> assign_all m frame [(12, 0x08), (13, 0x00)];
     let ip = frame + kEthernetHeaderBytes;
     let total_len = (of_nat (kIPv4BaseHeaderBytes + kTCPBaseHeaderBytes + payload_size) :: u16);
     m \<leftarrow> assign_all m ip [(0, 0x45), (2, ucast (drop_bit 8 total_len)), (3, ucast (total_len AND 0xFF)), (8, 64), (9, kIPv4ProtocolTCP)];
     let tcp = ip + kIPv4BaseHeaderBytes;
     m \<leftarrow> assign_all m tcp [(0, ucast (drop_bit 8 (12345 :: u32))), (1, ucast (12345 AND 0xFF :: u32)), (2, ucast (drop_bit 8 dst_port)),
       (3, ucast (dst_port AND 0xFF)), (12, 0x50)];
     let payload = tcp + kTCPBaseHeaderBytes;
     assign_all m payload (map (\<lambda>i. (i, of_nat i AND 0xFF)) [0..<payload_size])
   }"

text \<open>The bytes of the finished packet.\<close>

definition test_packet :: "u16 \<Rightarrow> nat \<Rightarrow> bytes" where
  "test_packet dst_port n =
     replicate 12 0 @ [0x08, 0x00] @
     [0x45, 0] @ be16_bytes (of_nat (40 + n)) @ [0, 0, 0, 0, 64, 6, 0, 0] @ replicate 8 0 @
     be16_bytes 12345 @ be16_bytes dst_port @ replicate 8 0 @ [0x50] @ replicate 7 0 @ map of_nat [0..<n]"

lemma length_test_packet [simp]: "length (test_packet port n) = 54 + n"
  by (simp add: test_packet_def)

lemma assign_all_append: "assign_all B k ws = Some B' \<Longrightarrow> assign_all (A @ B @ C) (length A + k) ws = Some (A @ B' @ C)"
  by (induction ws arbitrary: B) (auto simp: bind_eq_Some_conv wr_eq_Some_iff list_update_append add.assoc)

lemma assign_all_upt:
  "j + k \<le> n \<Longrightarrow> assign_all (H @ map f [0..<j] @ replicate (n - j) v) (length H) (map (\<lambda>i. (i, f i)) [j..<j + k]) =
     Some (H @ map f [0..<j + k] @ replicate (n - (j + k)) v)"
proof (induction k arbitrary: j)
  case (Suc k)
  then have r: "replicate (n - j) v = v # replicate (n - Suc j) v" by (metis Suc_diff_Suc add_Suc_right Suc_le_lessD less_le_trans le_add1 add.commute replicate_Suc)
  have "[j..<j + Suc k] = j # [Suc j..<Suc j + k]" by (simp add: upt_conv_Cons del: upt_Suc)
  then show ?case using Suc.IH [of "Suc j"] Suc.prems
    by (simp add: r list_update_append nth_append del: upt_Suc) (simp add: list_update_append)
qed simp

lemma byte_of_ucast: "byte_of 1 (w :: u16) = ucast (drop_bit 8 w)" "byte_of 0 (w :: u16) = ucast (w AND 0xFF)"
proof -
  have m: "(0xFF :: u16) = mask 8" by (simp add: mask_eq_exp_minus_1)
  show "byte_of 1 w = ucast (drop_bit 8 w)" by (simp add: byte_of_def)
  show "byte_of 0 w = ucast (w AND 0xFF)" unfolding m by (rule bit_word_eqI) (simp add: bit_simps)
qed

lemma update_replicate: "i < n \<Longrightarrow> (replicate n v)[i := w] = replicate i v @ w # replicate (n - Suc i) v"
  by (induction n arbitrary: i) (auto split: nat.split)

lemma build_test_packet_spec:
  assumes "frame + (54 + n) \<le> length m"
  shows "build_test_packet m frame port n = Some (take frame m @ test_packet port n @ drop (frame + (54 + n)) m)"
proof -
  define A C where "A = take frame m" and "C = drop (frame + (54 + n)) m"
  then have A: "length A = frame" using assms by simp
  define L :: u16 where "L = of_nat (40 + n)"
  let ?eth = "replicate 12 0 @ [0x08, 0]" and ?ip = "[0x45, 0, byte_of 1 L, byte_of 0 L] @ replicate 4 0 @ [64, 6] @ replicate 10 0"
    and ?tcp = "[byte_of 1 (12345 :: u16), byte_of 0 (12345 :: u16), byte_of 1 port, byte_of 0 port] @ replicate 8 0 @ [0x50] @ replicate 7 0"
  have m0: "memset m frame 0 (54 + n) = Some (A @ (replicate 54 0 @ replicate n 0) @ C)"
    using assms by (simp add: memset_def A_def C_def replicate_add)
  have m1: "assign_all (replicate 54 0 @ replicate n 0) 0 [(12, 0x08), (13, 0)] = Some (?eth @ replicate 40 0 @ replicate n 0)"
    by (simp add: list_update_append update_replicate)
  have m2: "assign_all (?eth @ replicate 40 0 @ replicate n 0) 14 [(0, 0x45), (2, byte_of 1 L), (3, byte_of 0 L), (8, 64), (9, 6)] =
      Some (?eth @ ?ip @ replicate 20 0 @ replicate n 0)"
    using replicate_add [of 10 20 "0 :: u8"] by (simp add: list_update_append update_replicate)
  have m3: "assign_all (?eth @ ?ip @ replicate 20 0 @ replicate n 0) 34
        [(0, byte_of 1 (12345 :: u16)), (1, byte_of 0 (12345 :: u16)), (2, byte_of 1 port), (3, byte_of 0 port), (12, 0x50)] =
      Some (?eth @ ?ip @ ?tcp @ replicate n 0)"
    by (simp add: list_update_append update_replicate)
  have m4: "assign_all (?eth @ ?ip @ ?tcp @ replicate n 0) 54 (map (\<lambda>i. (i, of_nat i)) [0..<n]) = Some (test_packet port n)"
    using assign_all_upt [of 0 n n "?eth @ ?ip @ ?tcp" of_nat 0]
    by (simp add: test_packet_def L_def be16_bytes_def) (simp add: numeral_eq_Suc)
  have bytes: "ucast (drop_bit 8 (12345 :: u32)) = byte_of 1 (12345 :: u16)" "ucast (12345 AND 0xFF :: u32) = byte_of 0 (12345 :: u16)"
    by (simp_all add: byte_of_def)
  have "(0xFF :: u8) = - 1" by simp
  then have b8: "of_nat i AND (0xFF :: u8) = of_nat i" for i by (simp only: and.right_neutral)
  have payload: "map (\<lambda>i. (i, of_nat i AND (0xFF :: u8))) [0..<n] = map (\<lambda>i. (i, of_nat i)) [0..<n]" by (simp only: b8)
  have sizes: "kEthernetHeaderBytes + kIPv4BaseHeaderBytes + kTCPBaseHeaderBytes + n = 54 + n" "frame + kEthernetHeaderBytes = frame + 14"
      "frame + 14 + kIPv4BaseHeaderBytes = frame + 34" "frame + 34 + kTCPBaseHeaderBytes = frame + 54"
      "of_nat (kIPv4BaseHeaderBytes + kTCPBaseHeaderBytes + n) = L"
    by (simp_all add: kEthernetHeaderBytes_def kIPv4BaseHeaderBytes_def kTCPBaseHeaderBytes_def L_def)
  note lifted = assign_all_append [OF m1, of A C, unfolded A add_0_right] assign_all_append [OF m2, of A C, unfolded A]
    assign_all_append [OF m3, of A C, unfolded A] assign_all_append [OF m4, of A C, unfolded A]
  show ?thesis
    unfolding build_test_packet_def Let_def sizes bytes payload byte_of_ucast [symmetric] kIPv4ProtocolTCP_def A_def [symmetric] C_def [symmetric]
    by (simp only: m0 lifted Option.bind.simps)
qed

subsection \<open>The packet parses\<close>

definition test_view :: "bytes \<Rightarrow> u16 \<Rightarrow> nat \<Rightarrow> PacketView" where
  "test_view data dst_port n = \<lparr>pv_data = Some data, pv_frame_length = 54 + n, pv_status = ParseOk, pv_ether_type = kEtherTypeIPv4,
     pv_ipv4_protocol = kIPv4ProtocolTCP, pv_ipv4_header_length = 20, pv_ipv4_total_length = 40 + n, pv_src_ip = 0, pv_dst_ip = 0,
     pv_l3_offset = 14, pv_l4_offset = 34, pv_payload_offset = 54, pv_payload_length = n, pv_tcp_header_length = 20,
     pv_src_port = 12345, pv_dst_port = dst_port\<rparr>"

lemma parse_test_packet:
  assumes "40 + n < 65536"
  shows "parse_packet (Some (test_packet port n @ rest)) (54 + n) = Some (test_view (test_packet port n @ rest) port n)"
proof -
  define F where "F = test_packet port n @ rest"
  define L :: u16 where "L = of_nat (40 + n)"
  have L: "unat L = 40 + n" using unat_be16_of_nat [OF assms] by (simp only: L_def)
  have len: "54 + n \<le> length F" by (simp add: F_def)
  have at: "F ! 12 = 8" "F ! 13 = 0" "F ! 14 = 0x45" "F ! 16 = byte_of 1 L" "F ! 17 = byte_of 0 L" "F ! 20 = 0" "F ! 21 = 0" "F ! 23 = 6"
      "F ! 26 = 0" "F ! 27 = 0" "F ! 28 = 0" "F ! 29 = 0" "F ! 30 = 0" "F ! 31 = 0" "F ! 32 = 0" "F ! 33 = 0"
      "F ! 34 = byte_of 1 (12345 :: u16)" "F ! 35 = byte_of 0 (12345 :: u16)" "F ! 36 = byte_of 1 port" "F ! 37 = byte_of 0 port" "F ! 46 = 0x50"
    by (simp_all add: F_def test_packet_def nth_append be16_bytes_def L_def)
  have "ipv4_version 0x45 = 4" "ipv4_ihl_words 0x45 = 5" "tcp_data_offset_words 0x50 = 5" "be16 8 0 = kEtherTypeIPv4" "be16 0 0 = 0" "be32 0 0 0 0 = 0"
    by (simp_all add: ipv4_version_def ipv4_ihl_words_def tcp_data_offset_words_def be16_def be32_def kEtherTypeIPv4_def)
  then show ?thesis unfolding F_def [symmetric]
    using len L by (simp add: parse_packet_def parse_ipv4_def parse_l4_def parse_tcp_def Let_def at kEthernetHeaderBytes_def kIPv4BaseHeaderBytes_def
      kTCPBaseHeaderBytes_def kIPv4ProtocolTCP_def test_view_def PacketView_init_def)
qed

subsection \<open>The run\<close>

definition kDemoBatchSize :: nat where "kDemoBatchSize = 4"
definition kDemoFrameCount :: nat where "kDemoFrameCount = 16"
definition kDemoTimingSlots :: nat where "kDemoTimingSlots = 64"
definition kDemoMaxFramesPerSlot :: nat where "kDemoMaxFramesPerSlot = 16"

definition demo_drop_rule :: ChaosRule where
  "demo_drop_rule = \<lparr>cr_seed = 0xBEEF, cr_delay_ns = 0, cr_id = 1, cr_src_ip = 0, cr_dst_ip = 0, cr_src_port = 0, cr_dst_port = 8080,
     cr_probability = kProbabilityScale, cr_protocol = kIPv4ProtocolTCP, cr_action = Drop, cr_enabled = 1, cr_reserved = (0, 0, 0)\<rparr>"

definition demo_delay_rule :: ChaosRule where
  "demo_delay_rule = \<lparr>cr_seed = 0xCAFE, cr_delay_ns = 100000, cr_id = 2, cr_src_ip = 0, cr_dst_ip = 0, cr_src_port = 0, cr_dst_port = 9090,
     cr_probability = kProbabilityScale div 2, cr_protocol = kIPv4ProtocolTCP, cr_action = Delay, cr_enabled = 1, cr_reserved = (0, 0, 0)\<rparr>"

definition install_rule :: "padding \<Rightarrow> ChaosRule \<Rightarrow> ControlPlaneCore \<Rightarrow> ControlPlaneCore option" where
  "install_rule pad rule core = do {
     let header = MessageHeader_init\<lparr>mh_opcode := OpAddRule, mh_sequence := cr_id rule\<rparr>;
     enc \<leftarrow> encode_message header (rule_bytes rule) (replicate 512 0);
     r \<leftarrow> handle_request pad (take (er_bytes_written (fst enc)) (snd enc)) (replicate 512 0) core;
     Some (snd (snd r))
   }"

fun demo_allocate :: "nat \<Rightarrow> FrameAllocator \<Rightarrow> FrameHandle list" where
  "demo_allocate 0 a = []"
| "demo_allocate (Suc n) a = (let (alloc, a) = allocate DataPlane a in fa_frame alloc # demo_allocate n a)"

definition demo_ports :: "u16 list" where
  "demo_ports = [8080, 9090, 443, 8080]"

fun demo_packets :: "(FrameHandle \<times> u16) list \<Rightarrow> bytes \<Rightarrow> (PacketDescriptor list \<times> bytes) option" where
  "demo_packets [] umem = Some ([], umem)"
| "demo_packets ((h, port) # ps) umem = do {
     let payload_size = 32;
     let frame_len = of_nat (kEthernetHeaderBytes + kIPv4BaseHeaderBytes + kTCPBaseHeaderBytes + payload_size);
     umem \<leftarrow> build_test_packet umem (unat (fh_address h)) port payload_size;
     (rx, umem) \<leftarrow> demo_packets ps umem;
     Some (\<lparr>pd_frame_address = fh_address h, pd_frame_length = frame_len, pd_options = 0\<rparr> # rx, umem)
   }"

definition run_demo :: "padding \<Rightarrow> (ControlPlaneCore \<times> dp_state) option" where
  "run_demo pad = do {
     core \<leftarrow> install_rule pad demo_drop_rule ControlPlaneCore_init;
     core \<leftarrow> install_rule pad demo_delay_rule core;
     let handles = demo_allocate kDemoBatchSize (FrameAllocator_init kDemoFrameCount kDefaultFrameSizeBytes);
     (rx, umem) \<leftarrow> demo_packets (zip handles demo_ports) (replicate (kDemoFrameCount * kDefaultFrameSizeBytes) 0);
     result \<leftarrow> process_packet_batch_unbounded (Some umem) rx (table_rules (rule_table (control core)))
       (TimingWheel_init kDemoTimingSlots kDemoMaxFramesPerSlot) (replicate kDemoBatchSize ProcessedFrame_init)
       (replicate kDemoBatchSize ProcessedFrame_init) kDefaultTimingWheelTickNs;
     Some (core, result)
   }"

lemma install_rule_spec:
  assumes "core_inv (control core)" "length (core_rules (control core)) < rule_capacity (rule_table (control core))"
  shows "\<exists>core'. install_rule pad rule core = Some core' \<and> core_inv (control core') \<and>
    rule_capacity (rule_table (control core')) = rule_capacity (rule_table (control core)) \<and>
    core_rules (control core') = core_rules (control core) @ [rule] \<and> current_rules core' = core_rules (control core')"
proof -
  let ?h = "MessageHeader_init\<lparr>mh_opcode := OpAddRule, mh_sequence := cr_id rule\<rparr>"
  let ?request = "message_bytes ?h (rule_bytes rule)"
  have enc: "encode_message ?h (rule_bytes rule) (replicate 512 0) =
      Some (\<lparr>er_status = ProtocolOk, er_bytes_written = 64\<rparr>, ?request @ drop 64 (replicate 512 0))"
    using encode_message_ok [of "rule_bytes rule" "replicate 512 0" ?h] by (simp add: kMaxControlPayloadBytes_def)
  obtain out c' where c': "handle pad ?request (replicate 512 0) (control core) =
      Some (\<lparr>cp_status = ProtocolOk, cp_opcode = OpPong, cp_bytes_written = 24\<rparr>, out, c')"
    "core_inv c'" "rule_capacity (rule_table c') = rule_capacity (rule_table (control core))" "core_rules c' = core_rules (control core) @ [rule]"
    using add_rule_handled [OF assms, of "replicate 512 0" ?h "rule_bytes rule" rule pad] by auto
  have "peek_request_opcode ?request = Some OpAddRule"
    by (simp add: peek_request_opcode_def message_bytes_def header_bytes_def be16_bytes_def normalized_def)
  then show ?thesis
    using c' by (simp add: install_rule_def Let_def enc handle_request_def is_rule_mutating_request_def publish_rules_def current_rules_def core_rules_def)
qed

lemma demo_handles:
  "map fh_address (demo_allocate kDemoBatchSize (FrameAllocator_init kDemoFrameCount kDefaultFrameSizeBytes)) = [0, 4096, 8192, 12288]"
  by code_simp

text \<open>The memory has a test packet for a port at an address.\<close>

definition holds_packet :: "bytes \<Rightarrow> nat \<Rightarrow> u16 \<Rightarrow> bool" where
  "holds_packet m a port \<longleftrightarrow> a + 86 \<le> length m \<and> take 86 (drop a m) = test_packet port 32"

lemma holds_packet_cong:
  assumes "holds_packet m a port" "length m' = length m" "\<forall>i < length m. a \<le> i \<and> i < a + 86 \<longrightarrow> m' ! i = m ! i"
  shows "holds_packet m' a port"
proof -
  have "take 86 (drop a m') = take 86 (drop a m)" using assms(2,3) by (intro nth_equalityI) auto
  then show ?thesis using assms by (simp add: holds_packet_def)
qed

lemma build_holds:
  assumes "a + 86 \<le> length m"
  shows "\<exists>m'. build_test_packet m a port 32 = Some m' \<and> length m' = length m \<and> holds_packet m' a port \<and>
    (\<forall>b q. holds_packet m b q \<and> (b + 86 \<le> a \<or> a + 86 \<le> b) \<longrightarrow> holds_packet m' b q)"
proof -
  let ?m = "take a m @ test_packet port 32 @ drop (a + 86) m"
  have b: "build_test_packet m a port 32 = Some ?m" using build_test_packet_spec [of a 32 m port] assms by simp
  have len: "length ?m = length m" using assms by simp
  have "holds_packet ?m a port" using assms by (simp add: holds_packet_def)
  moreover have "holds_packet ?m b q" if h: "holds_packet m b q" "b + 86 \<le> a \<or> a + 86 \<le> b" for b q
    using h(2) assms by (intro holds_packet_cong [OF h(1) len]) (auto simp: nth_append)
  ultimately show ?thesis using b len by blast
qed

lemma demo_decisions:
  "decide_packet_fast (test_view data 8080 32) [demo_drop_rule, demo_delay_rule] = applied_decision demo_drop_rule 0 0"
  "decide_packet_fast (test_view data 443 32) [demo_drop_rule, demo_delay_rule] = pass_decision"
  "decide_packet_fast (test_view data 9090 32) [demo_drop_rule, demo_delay_rule] = pass_from_rule demo_delay_rule 15256313151335287177 7177"
proof -
  have hash: "stable_flow_hash demo_delay_rule (test_view data 9090 32) = 15256313151335287177"
  proof -
    have "stable_flow_hash demo_delay_rule (test_view data 9090 32) = stable_flow_hash demo_delay_rule (test_view [] 9090 32)"
      by (simp add: stable_flow_hash_def test_view_def)
    also have "\<dots> = 15256313151335287177" by code_simp
    finally show ?thesis .
  qed
  note unfolded = rule_matches_packet_def rule_is_enabled_def view_ok_def demo_drop_rule_def demo_delay_rule_def decide_for_rule_fast_def Let_def
    clamp_probability_def kProbabilityScale_def PacketAction_defs
  show "decide_packet_fast (test_view data 8080 32) [demo_drop_rule, demo_delay_rule] = applied_decision demo_drop_rule 0 0"
    by (simp add: unfolded test_view_def)
  show "decide_packet_fast (test_view data 443 32) [demo_drop_rule, demo_delay_rule] = pass_decision"
    by (simp add: unfolded test_view_def)
  have "rule_matches_packet demo_delay_rule (test_view data 9090 32)" "\<not> rule_matches_packet demo_drop_rule (test_view data 9090 32)"
    by (simp_all add: unfolded test_view_def)
  then show "decide_packet_fast (test_view data 9090 32) [demo_drop_rule, demo_delay_rule] = pass_from_rule demo_delay_rule 15256313151335287177 7177"
    by (simp add: decide_for_rule_fast_def hash Let_def) (simp add: demo_delay_rule_def kProbabilityScale_def clamp_probability_def PacketAction_defs)
qed

text \<open>One test packet in the loop of the data plane, when the decision is to drop or to pass it.\<close>

lemma process_test_packet:
  assumes m: "dp_umem s = Some m" "holds_packet m (unat a) port" "length m < 2 ^ 64 - 1"
    and dec: "decide_packet_fast (test_view (drop (unat a) m) port 32) rules = dec" "\<not> should_delay dec" "\<not> should_corrupt dec"
    and d: "d = \<lparr>pd_frame_address = a, pd_frame_length = 86, pd_options = 0\<rparr>"
    and p: "p = \<lparr>pf_frame_address = a, pf_frame_length = 86, pf_rule_id = cd_rule_id dec, pf_action = cd_action dec\<rparr>"
  shows "\<exists>m'. process_packet (2 ^ 64 - 1) rules tick_ns d s =
      Some (if should_drop dec then drop_frame p (upd_stats (count_seen 86) s) else emit_frame p ((upd_stats (count_seen 86) s)\<lparr>dp_umem := Some m'\<rparr>)) \<and>
    length m' = length m \<and> (\<forall>i < length m. i < unat a \<or> unat a + 86 \<le> i \<longrightarrow> m' ! i = m ! i)"
proof -
  let ?v = "test_view (drop (unat a) m) port 32"
  have bound: "unat a + 86 \<le> length m" using m(2) by (simp add: holds_packet_def)
  have "drop (unat a) m = test_packet port 32 @ drop 86 (drop (unat a) m)"
    using m(2) append_take_drop_id [of 86 "drop (unat a) m"] by (simp add: holds_packet_def)
  then have v: "parse_packet (Some (drop (unat a) m)) 86 = Some ?v"
    using parse_test_packet [of 32 port "drop 86 (drop (unat a) m)"] by simp
  then have parse: "parse_packet (Some (drop (unat (pd_frame_address d)) m)) (unat (pd_frame_length d)) = Some ?v" by (simp add: d)
  have within: "descriptor_within_umem d (2 ^ 64 - 1)" using bound m(3) by (simp add: within_umem_iff d)
  have ok: "view_ok ?v" by (simp add: view_ok_def test_view_def)
  note pp = process_packet_valid [OF m(1) within parse, of rules tick_ns]
  have at: "view_at (unat a) m ?v" using parsed_view_at [OF v ok] bound by simp
  show ?thesis
  proof (cases "should_drop dec")
    case True
    then show ?thesis using pp ok dec(1) by (auto simp: Let_def d p)
  next
    case False
    let ?m = "forwarded_memory (unat a) ?v dec m"
    have "forward_frame m (unat a) d ?v dec p s1 = Some (emit_frame p (s1\<lparr>dp_umem := Some ?m\<rparr>))" for s1
      using forward_frame_spec [OF at, of d dec p s1] bound dec(3) by (simp add: d)
    then have "process_packet (2 ^ 64 - 1) rules tick_ns d s = Some (emit_frame p ((upd_stats (count_seen 86) s)\<lparr>dp_umem := Some ?m\<rparr>))"
      using pp ok dec False by (simp add: Let_def d p)
    moreover have "\<forall>i < length m. i < unat a \<or> unat a + 86 \<le> i \<longrightarrow> ?m ! i = m ! i"
      using forwarded_memory_outside [OF at, of _ dec] by (auto simp: test_view_def)
    ultimately show ?thesis using False by (intro exI [of _ ?m]) simp
  qed
qed

abbreviation test_descriptor :: "u64 \<Rightarrow> PacketDescriptor" where
  "test_descriptor a \<equiv> \<lparr>pd_frame_address = a, pd_frame_length = 86, pd_options = 0\<rparr>"

lemma demo_packets_spec:
  assumes "\<forall>(h, port) \<in> set ps. unat (fh_address h) + 86 \<le> length m"
    and "sorted_wrt (\<lambda>a b. a + 86 \<le> b) (map (\<lambda>(h, port). unat (fh_address h)) ps)"
  shows "\<exists>m'. demo_packets ps m = Some (map (\<lambda>(h, port). test_descriptor (fh_address h)) ps, m') \<and> length m' = length m \<and>
    (\<forall>(h, port) \<in> set ps. holds_packet m' (unat (fh_address h)) port) \<and>
    (\<forall>b q. holds_packet m b q \<and> (\<forall>(h, port) \<in> set ps. b + 86 \<le> unat (fh_address h)) \<longrightarrow> holds_packet m' b q)"
  using assms
proof (induction ps arbitrary: m)
  case (Cons hp ps)
  obtain h port where hp: "hp = (h, port)" by fastforce
  obtain m1 where m1: "build_test_packet m (unat (fh_address h)) port 32 = Some m1" "length m1 = length m" "holds_packet m1 (unat (fh_address h)) port"
      "\<And>b q. holds_packet m b q \<Longrightarrow> b + 86 \<le> unat (fh_address h) \<Longrightarrow> holds_packet m1 b q"
    using build_holds [of "unat (fh_address h)" m port] Cons.prems(1) hp by auto
  obtain m2 where m2: "demo_packets ps m1 = Some (map (\<lambda>(h, port). test_descriptor (fh_address h)) ps, m2)" "length m2 = length m1"
      "\<forall>(h, port) \<in> set ps. holds_packet m2 (unat (fh_address h)) port"
      "\<And>b q. holds_packet m1 b q \<Longrightarrow> (\<forall>(h, port) \<in> set ps. b + 86 \<le> unat (fh_address h)) \<Longrightarrow> holds_packet m2 b q"
    using Cons.IH [of m1] Cons.prems m1(2) by auto
  have "\<forall>(h', port') \<in> set ps. unat (fh_address h) + 86 \<le> unat (fh_address h')" using Cons.prems(2) hp by auto
  then have "holds_packet m2 (unat (fh_address h)) port" using m1(3) m2(4) by blast
  then show ?case using m1 m2 hp
    by (auto simp: kEthernetHeaderBytes_def kIPv4BaseHeaderBytes_def kTCPBaseHeaderBytes_def)
qed simp

lemma demo_loop:
  assumes m: "holds_packet m 0 8080" "holds_packet m 4096 9090" "holds_packet m 8192 443" "holds_packet m 12288 8080" "length m < 2 ^ 64 - 1"
    and s: "dp_umem s = Some m"
    and p: "p1 = \<lparr>pf_frame_address = 0, pf_frame_length = 86, pf_rule_id = 1, pf_action = Drop\<rparr>"
      "p2 = \<lparr>pf_frame_address = 4096, pf_frame_length = 86, pf_rule_id = 2, pf_action = Pass\<rparr>"
      "p3 = \<lparr>pf_frame_address = 8192, pf_frame_length = 86, pf_rule_id = 0, pf_action = Pass\<rparr>"
      "p4 = \<lparr>pf_frame_address = 12288, pf_frame_length = 86, pf_rule_id = 1, pf_action = Drop\<rparr>"
  shows "\<exists>m2 m3. process_loop (2 ^ 64 - 1) [demo_drop_rule, demo_delay_rule] tick_ns (map test_descriptor [0, 4096, 8192, 12288]) s =
    Some (drop_frame p4 (upd_stats (count_seen 86) (emit_frame p3 ((upd_stats (count_seen 86) (emit_frame p2 ((upd_stats (count_seen 86)
      (drop_frame p1 (upd_stats (count_seen 86) s)))\<lparr>dp_umem := Some m2\<rparr>)))\<lparr>dp_umem := Some m3\<rparr>))))"
proof -
  let ?rules = "[demo_drop_rule, demo_delay_rule]"
  let ?s1 = "drop_frame p1 (upd_stats (count_seen 86) s)"
  note actions = should_drop_def should_delay_def should_corrupt_def applied_decision_def pass_from_rule_def pass_decision_def
    demo_drop_rule_def demo_delay_rule_def PacketAction_defs
  have s1: "process_packet (2 ^ 64 - 1) ?rules tick_ns (test_descriptor 0) s = Some ?s1"
    using process_test_packet [OF s _ m(5) demo_decisions(1) _ _ refl refl, of 0 tick_ns] m(1) by (auto simp: actions p)
  have u1: "dp_umem ?s1 = Some m" using s by simp
  obtain m2 where s2: "process_packet (2 ^ 64 - 1) ?rules tick_ns (test_descriptor 4096) ?s1 =
      Some (emit_frame p2 ((upd_stats (count_seen 86) ?s1)\<lparr>dp_umem := Some m2\<rparr>))" "length m2 = length m"
      "\<forall>i < length m. i < 4096 \<or> 4182 \<le> i \<longrightarrow> m2 ! i = m ! i"
    using process_test_packet [OF u1 _ m(5) demo_decisions(3) _ _ refl refl, of 4096 tick_ns] m(2) by (auto simp: actions p)
  let ?s2 = "emit_frame p2 ((upd_stats (count_seen 86) ?s1)\<lparr>dp_umem := Some m2\<rparr>)"
  have h2: "holds_packet m2 8192 443" "holds_packet m2 12288 8080" using s2(3) by (intro holds_packet_cong [OF _ s2(2)] m; simp)+
  have u2: "dp_umem ?s2 = Some m2" "length m2 < 2 ^ 64 - 1" using m(5) s2(2) by simp_all
  obtain m3 where s3: "process_packet (2 ^ 64 - 1) ?rules tick_ns (test_descriptor 8192) ?s2 =
      Some (emit_frame p3 ((upd_stats (count_seen 86) ?s2)\<lparr>dp_umem := Some m3\<rparr>))" "length m3 = length m2"
      "\<forall>i < length m2. i < 8192 \<or> 8278 \<le> i \<longrightarrow> m3 ! i = m2 ! i"
    using process_test_packet [OF u2(1) _ u2(2) demo_decisions(2) _ _ refl refl, of 8192 tick_ns] h2(1) by (auto simp: actions p)
  let ?s3 = "emit_frame p3 ((upd_stats (count_seen 86) ?s2)\<lparr>dp_umem := Some m3\<rparr>)"
  have h3: "holds_packet m3 12288 8080" using s3(3) by (intro holds_packet_cong [OF h2(2) s3(2)]) simp
  have u3: "dp_umem ?s3 = Some m3" "length m3 < 2 ^ 64 - 1" using u2(2) s3(2) by simp_all
  have "process_packet (2 ^ 64 - 1) ?rules tick_ns (test_descriptor 12288) ?s3 = Some (drop_frame p4 (upd_stats (count_seen 86) ?s3))"
    using process_test_packet [OF u3(1) _ u3(2) demo_decisions(1) _ _ refl refl, of 12288 tick_ns] h3 by (auto simp: actions p)
  then show ?thesis using s1 s2(1) s3(1) by (intro exI [of _ m2] exI [of _ m3]) simp
qed

text \<open>C40: The packet builder writes a packet that the parser accepts: wherever the frame lies in the memory and whatever the memory held, exactly the bytes of the
  frame change, and the parser finds in them a TCP segment from port 12345 to the given port with the given payload length, for all
  lengths that the 16-bit length field of the header can express.\<close>

theorem build_test_packet_parses:
  assumes "frame + (54 + n) \<le> length m" "40 + n < 65536"
  shows "\<exists>m' v. build_test_packet m frame port n = Some m' \<and> length m' = length m \<and>
    (\<forall>i < length m. i < frame \<or> frame + (54 + n) \<le> i \<longrightarrow> m' ! i = m ! i) \<and>
    parse_packet (Some (drop frame m')) (54 + n) = Some v \<and> view_ok v \<and> is_tcp v \<and> pv_src_port v = 12345 \<and> pv_dst_port v = port \<and>
    map_option (take n) (payload_data v) = Some (map of_nat [0..<n])"
proof -
  let ?m = "take frame m @ test_packet port n @ drop (frame + (54 + n)) m" and ?rest = "drop (frame + (54 + n)) m"
  have frame: "drop frame ?m = test_packet port n @ ?rest" using assms(1) by simp
  have outside: "\<forall>i < length m. i < frame \<or> frame + (54 + n) \<le> i \<longrightarrow> ?m ! i = m ! i" using assms(1) by (auto simp: nth_append)
  have tail: "drop 54 (test_packet port n) = map of_nat [0..<n]" by (simp add: test_packet_def be16_bytes_def)
  let ?v = "test_view (test_packet port n @ ?rest) port n"
  have "view_ok ?v" "is_tcp ?v" "pv_src_port ?v = 12345" "pv_dst_port ?v = port"
    by (simp_all add: view_ok_def is_tcp_def is_ipv4_def test_view_def)
  moreover have "map_option (take n) (payload_data ?v) = Some (map of_nat [0..<n])"
    by (simp add: payload_data_def view_ok_def test_view_def tail)
  ultimately show ?thesis
    using build_test_packet_spec [OF assms(1), of port] parse_test_packet [OF assms(2), of port ?rest] frame outside assms(1)
    by (intro exI [of _ ?m] exI [of _ ?v]) simp
qed

theorem build_test_packet_parses_witness:
  "\<exists>m' v. build_test_packet (replicate 100 7) 3 8080 32 = Some m' \<and> parse_packet (Some (drop 3 m')) 86 = Some v \<and> pv_dst_port v = 8080"
  using build_test_packet_parses [of 3 32 "replicate 100 7" 8080] by auto

text \<open>The demonstration does what it announces. Both rules reach the rule table unchanged through the control protocol; of the four packets, the two to
  port 8080 are dropped and their frames recycled, the packet to port 443 passes, and so does the one to port 9090, whose roll (7177)
  is above the probability of the delay rule; nothing is malformed, delayed or corrupted.\<close>

lemma run_demo_outcome:
  "\<exists>core s. run_demo pad = Some (core, s) \<and> table_rules (rule_table (control core)) = [demo_drop_rule, demo_delay_rule] \<and>
     br_stats (dp_result s) = DataPlaneBatchStats_init\<lparr>bs_packets_seen := 4, bs_packets_dropped := 2, bs_tx_frames := 2,
       bs_recycle_frames := 2, bs_bytes_seen := 344\<rparr> \<and>
     map pf_frame_address (take (br_tx_count (dp_result s)) (dp_tx s)) = [4096, 8192] \<and>
     map pf_frame_address (take (br_recycle_count (dp_result s)) (dp_recycle s)) = [0, 12288]"
proof -
  have init: "core_inv (control ControlPlaneCore_init)" "core_rules (control ControlPlaneCore_init) = []"
      "rule_capacity (rule_table (control ControlPlaneCore_init)) = 128"
    by (simp_all add: ControlPlaneCore_init_def ControlCore_init_def core_inv_def core_rules_def kDefaultMaxRules_def)
  obtain c1 where c1: "install_rule pad demo_drop_rule ControlPlaneCore_init = Some c1" "core_inv (control c1)"
      "rule_capacity (rule_table (control c1)) = 128" "core_rules (control c1) = [demo_drop_rule]"
    using install_rule_spec [OF init(1), of pad demo_drop_rule] init by auto
  obtain core where core: "install_rule pad demo_delay_rule c1 = Some core" "core_rules (control core) = [demo_drop_rule, demo_delay_rule]"
    using install_rule_spec [OF c1(2), of pad demo_delay_rule] c1(3,4) by auto
  obtain h1 h2 h3 h4 where h: "demo_allocate kDemoBatchSize (FrameAllocator_init kDemoFrameCount kDefaultFrameSizeBytes) = [h1, h2, h3, h4]"
      "fh_address h1 = 0" "fh_address h2 = 4096" "fh_address h3 = 8192" "fh_address h4 = 12288"
    using demo_handles by (auto simp: map_eq_Cons_conv)
  define m :: bytes where "m = replicate (kDemoFrameCount * kDefaultFrameSizeBytes) 0"
  have len: "length m = 65536" by (simp add: m_def kDemoFrameCount_def kDefaultFrameSizeBytes_def)
  obtain m' where m': "demo_packets (zip [h1, h2, h3, h4] demo_ports) m = Some (map test_descriptor [0, 4096, 8192, 12288], m')" "length m' = 65536"
      "holds_packet m' 0 8080" "holds_packet m' 4096 9090" "holds_packet m' 8192 443" "holds_packet m' 12288 8080"
    using demo_packets_spec [of "zip [h1, h2, h3, h4] demo_ports" m] by (auto simp: demo_ports_def h len)
  let ?p = "ProcessedFrame_init" and ?wheel = "TimingWheel_init kDemoTimingSlots kDemoMaxFramesPerSlot"
  have four: "replicate kDemoBatchSize ?p = [?p, ?p, ?p, ?p]" by (simp add: kDemoBatchSize_def numeral_eq_Suc)
  define s where "s = \<lparr>dp_umem = Some m', dp_wheel = ?wheel, dp_tx = [?p, ?p, ?p, ?p], dp_recycle = [?p, ?p, ?p, ?p], dp_result = DataPlaneBatchResult_init\<rparr>"
  obtain s' where loop: "process_loop (2 ^ 64 - 1) [demo_drop_rule, demo_delay_rule] kDefaultTimingWheelTickNs (map test_descriptor [0, 4096, 8192, 12288]) s = Some s'"
      "br_stats (dp_result s') = DataPlaneBatchStats_init\<lparr>bs_packets_seen := 4, bs_packets_dropped := 2, bs_tx_frames := 2,
         bs_recycle_frames := 2, bs_bytes_seen := 344\<rparr>"
      "map pf_frame_address (take (br_tx_count (dp_result s')) (dp_tx s')) = [4096, 8192]"
      "map pf_frame_address (take (br_recycle_count (dp_result s')) (dp_recycle s')) = [0, 12288]"
    using demo_loop [OF m'(3-6) _ _ refl refl refl refl, of s kDefaultTimingWheelTickNs] m'(2)
    by (auto simp: s_def drop_frame_def recycle_frame_def append_recycle_def emit_frame_def Let_def DataPlaneBatchResult_init_def DataPlaneBatchStats_init_def)
  have "run_demo pad = Some (core, s')"
    using loop(1) c1(1) core m'(1) by (simp add: run_demo_def Let_def h(1) m_def [symmetric] process_packet_batch_unbounded_def process_packet_batch_def
      core_rules_def four s_def [symmetric] del: process_loop.simps)
  then show ?thesis using loop(2-) core(2) by (simp add: core_rules_def)
qed

end
