(* ===== verification/Server_Mode.thy ===== *)
theory Server_Mode
  imports Control_Server
begin

section \<open>The server mode (\<open>run_server\<close> in \<open>src/main.cpp\<close>)\<close>

text \<open>
  The control server as the program runs it: a core and a server of its own, and a local running flag that stays true. The destructor of the server shuts it down
  on both ways out. The lines it prints are left out.
\<close>

definition run_server :: "'w os \<Rightarrow> padding \<Rightarrow> u16 \<Rightarrow> 'w \<Rightarrow> (ControlPlaneStatus \<times> 'w) option" where
  "run_server os pad port w =
     (case server_init os (ControlPlaneConfig_init\<lparr>cf_port := port\<rparr>) ControlPlaneServer_init w of (status, s, w) \<Rightarrow>
        if status \<noteq> CpOk then do { (s, w) \<leftarrow> shutdown os s w; Some (status, w) }
        else do {
          (s, core, w) \<leftarrow> run os pad (\<lambda>_. True) (s, ControlPlaneCore_init, w);
          (s, w) \<leftarrow> shutdown os s w;
          Some (status, w)
        })"

lemma run_returns:
  assumes "run os pad running st = Some st'"
  shows "\<not> running (snd (snd st')) \<or> (\<exists>st1. run_once os pad 100 st1 = Some (ShutdownRequested, st'))"
proof (rule run.raw_induct [where P = "\<lambda>os pad running st st'. \<not> running (snd (snd st')) \<or>
    (\<exists>st1. run_once os pad 100 st1 = Some (ShutdownRequested, st'))", OF _ assms])
  fix loop :: "'a os \<Rightarrow> padding \<Rightarrow> ('a \<Rightarrow> bool) \<Rightarrow> 'a server_state \<Rightarrow> 'a server_state option" and os pad running st y
  assume IH: "\<And>os pad running st y. loop os pad running st = Some y \<Longrightarrow>
      \<not> running (snd (snd y)) \<or> (\<exists>st1. run_once os pad 100 st1 = Some (ShutdownRequested, y))"
    and body: "(if running (snd (snd st)) then run_once os pad 100 st \<bind> (\<lambda>r. if fst r = ShutdownRequested then Some (snd r) else loop os pad running (snd r))
      else Some st) = Some y"
  show "\<not> running (snd (snd y)) \<or> (\<exists>st1. run_once os pad 100 st1 = Some (ShutdownRequested, y))"
  proof (cases "running (snd (snd st))")
    case True
    then obtain r where "run_once os pad 100 st = Some r" "(if fst r = ShutdownRequested then Some (snd r) else loop os pad running (snd r)) = Some y"
      using body by (simp only: if_True bind_eq_Some_conv) blast
    then show ?thesis using IH [of os pad running "snd r" y] by (cases "fst r = ShutdownRequested") (simp_all, metis prod.collapse)
  qed (use body in simp)
qed

text \<open>Once the server has started, the function returns only after a round has reported the shutdown event, and in this program nothing raises it.\<close>

lemma run_server_returns:
  assumes "run_server os pad port w = Some (CpOk, w')"
  shows "\<exists>st st'. run_once os pad 100 st = Some (ShutdownRequested, st')"
proof -
  obtain status s w1 where i: "server_init os (ControlPlaneConfig_init\<lparr>cf_port := port\<rparr>) ControlPlaneServer_init w = (status, s, w1)" by (metis prod_cases3)
  then obtain st where "run os pad (\<lambda>_. True) (s, ControlPlaneCore_init, w1) = Some st"
    using assms by (auto simp: run_server_def bind_eq_Some_conv split: if_splits)
  then show ?thesis using run_returns by blast
qed

end
