(* ===== verification/Control_Client.thy ===== *)
theory Control_Client
  imports Control_Core
begin

section \<open>The Python client (\<open>tools/chronos_client.py\<close>)\<close>

text \<open>
  The command line client of the control plane: its own checksum, the encoding of requests, the reading of replies and the commands. Python's integers are \<open>int\<close>; packing a number that does not fit raises an exception, here \<open>None\<close>. The socket is a
  parameter: one function that sends and one that receives, either of which may fail. Parsing the command line and printing are left out.
\<close>

unbundle bit_operations_syntax

datatype client_error = StructError | SocketError | ConnectionError | HeaderTooShort | ReplyCrcMismatch

definition PROTOCOL_MAGIC :: int where "PROTOCOL_MAGIC = 0x4358"
definition PROTOCOL_VERSION :: int where "PROTOCOL_VERSION = 1"
definition HEADER_SIZE :: nat where "HEADER_SIZE = 24"
definition OP_PING :: int where "OP_PING = 0x01"
definition OP_GET_STATS :: int where "OP_GET_STATS = 0x10"
definition OP_STATS_RESPONSE :: int where "OP_STATS_RESPONSE = 0x11"
definition OP_ADD_RULE :: int where "OP_ADD_RULE = 0x20"
definition OP_CLEAR_RULES :: int where "OP_CLEAR_RULES = 0x22"
definition OP_LIST_RULES :: int where "OP_LIST_RULES = 0x23"
definition OP_RULES_RESPONSE :: int where "OP_RULES_RESPONSE = 0x24"

subsection \<open>Numbers in the formats of \<open>struct\<close>\<close>

text \<open>\<open>struct.pack\<close>, \<open>struct.pack_into\<close> and \<open>struct.unpack_from\<close> for one unsigned big-endian number of \<open>n\<close> bytes.\<close>

definition struct_pack :: "nat \<Rightarrow> int \<Rightarrow> bytes option" where
  "struct_pack n v = (if 0 \<le> v \<and> v < 256 ^ n then Some (map (\<lambda>k. of_int (v div 256 ^ (n - 1 - k))) [0..<n]) else None)"

definition pack_into :: "nat \<Rightarrow> int \<Rightarrow> nat \<Rightarrow> bytes \<Rightarrow> bytes option" where
  "pack_into n v offset buf =
     (if offset + n \<le> length buf then map_option (\<lambda>bs. take offset buf @ bs @ drop (offset + n) buf) (struct_pack n v) else None)"

definition unpack_from :: "nat \<Rightarrow> bytes \<Rightarrow> nat \<Rightarrow> int" where
  "unpack_from n data offset = foldl (\<lambda>v b. 256 * v + uint b) 0 (take n (drop offset data))"

subsection \<open>Checksum, requests and replies\<close>

definition client_crc_step :: "int \<Rightarrow> int" where
  "client_crc_step crc = (if crc AND 1 \<noteq> 0 then drop_bit 1 crc XOR 0xEDB88320 else drop_bit 1 crc)"

definition crc32_table :: "int list" where
  "crc32_table = map (\<lambda>i. (client_crc_step ^^ 8) (int i) AND 0xFFFFFFFF) [0..<256]"

definition compute_crc32 :: "bytes \<Rightarrow> int" where
  "compute_crc32 data =
     foldl (\<lambda>crc byte. crc32_table ! nat ((crc XOR uint byte) AND 0xFF) XOR drop_bit 8 crc) 0xFFFFFFFF data XOR 0xFFFFFFFF"

definition client_encode_message :: "int \<Rightarrow> int \<Rightarrow> bytes \<Rightarrow> bytes option" where
  "client_encode_message opcode sequence payload = do {
     buf \<leftarrow> pack_into 2 PROTOCOL_MAGIC 0 (replicate HEADER_SIZE 0);
     buf \<leftarrow> pack_into 1 PROTOCOL_VERSION 2 buf;
     buf \<leftarrow> pack_into 1 opcode 3 buf;
     buf \<leftarrow> pack_into 4 sequence 4 buf;
     buf \<leftarrow> pack_into 4 (int (length payload)) 8 buf;
     buf \<leftarrow> pack_into 4 0 12 buf;
     let crc = compute_crc32 (buf @ payload);
     buf \<leftarrow> pack_into 4 crc 12 buf;
     Some (buf @ payload)
   }"

definition client_decode_header :: "bytes \<Rightarrow> (int \<times> int \<times> int \<times> int \<times> int \<times> int) option" where
  "client_decode_header data =
     (if length data < HEADER_SIZE then None
      else Some (unpack_from 2 data 0, uint (data ! 2), uint (data ! 3), unpack_from 4 data 4, unpack_from 4 data 8, unpack_from 4 data 12))"

definition verify_message_crc :: "bytes \<Rightarrow> bytes \<Rightarrow> bool" where
  "verify_message_crc header payload =
     (if length header \<noteq> HEADER_SIZE then False
      else let expected = unpack_from 4 header 12 in
        case pack_into 4 0 12 header of None \<Rightarrow> False | Some buf \<Rightarrow> compute_crc32 (buf @ payload) = expected)"

function recv_exact :: "(nat \<Rightarrow> 'w \<Rightarrow> bytes option \<times> 'w) \<Rightarrow> nat \<Rightarrow> bytes \<Rightarrow> 'w \<Rightarrow> (client_error + bytes) \<times> 'w" where
  "recv_exact recv nbytes data w =
     (if length data < nbytes then
        case recv (nbytes - length data) w of
          (None, w) \<Rightarrow> (Inl SocketError, w)
        | (Some chunk, w) \<Rightarrow> if chunk = [] then (Inl ConnectionError, w) else recv_exact recv nbytes (data @ chunk) w
      else (Inr data, w))"
  by pat_completeness auto
termination
  by (relation "measure (\<lambda>(recv, nbytes, data, w). nbytes - length data)") (auto intro!: diff_less_mono2)

declare recv_exact.simps [simp del]

definition send_message :: "(bytes \<Rightarrow> 'w \<Rightarrow> bool \<times> 'w) \<Rightarrow> (nat \<Rightarrow> 'w \<Rightarrow> bytes option \<times> 'w) \<Rightarrow> int \<Rightarrow> int \<Rightarrow> bytes \<Rightarrow> 'w \<Rightarrow>
    (client_error + int \<times> int \<times> bytes) \<times> 'w" where
  "send_message sendall recv opcode sequence payload w =
     (case client_encode_message opcode sequence payload of
        None \<Rightarrow> (Inl StructError, w)
      | Some request \<Rightarrow>
          let (ok, w) = sendall request w in
          if \<not> ok then (Inl SocketError, w)
          else case recv_exact recv HEADER_SIZE [] w of
            (Inl e, w) \<Rightarrow> (Inl e, w)
          | (Inr header, w) \<Rightarrow>
              (case client_decode_header header of
                 None \<Rightarrow> (Inl HeaderTooShort, w)
               | Some (magic, version, resp_op, resp_seq, resp_plen, resp_crc) \<Rightarrow>
                   (case (if resp_plen > 0 then recv_exact recv (nat resp_plen) [] w else (Inr [], w)) of
                      (Inl e, w) \<Rightarrow> (Inl e, w)
                    | (Inr resp_payload, w) \<Rightarrow>
                        if \<not> verify_message_crc header resp_payload then (Inl ReplyCrcMismatch, w)
                        else (Inr (resp_op, resp_seq, resp_payload), w))))"

subsection \<open>Commands\<close>

record add_rule_args =
  ar_rule_id :: int
  ar_port :: int
  ar_action :: string
  ar_prob :: int
  ar_seed :: int
  ar_delay :: int

definition ACTION_MAP :: "string \<Rightarrow> int option" where
  "ACTION_MAP = [''pass'' \<mapsto> 0, ''drop'' \<mapsto> 1, ''delay'' \<mapsto> 2, ''corrupt'' \<mapsto> 3]"

definition action_val :: "add_rule_args \<Rightarrow> int" where
  "action_val args = (case ACTION_MAP (ar_action args) of None \<Rightarrow> 0 | Some v \<Rightarrow> v)"

definition pack_rule :: "add_rule_args \<Rightarrow> bytes option" where
  "pack_rule args = do {
     seed \<leftarrow> struct_pack 8 (ar_seed args);
     delay \<leftarrow> struct_pack 8 (ar_delay args);
     rule_id \<leftarrow> struct_pack 4 (ar_rule_id args);
     src_ip \<leftarrow> struct_pack 4 0;
     dst_ip \<leftarrow> struct_pack 4 0;
     src_port \<leftarrow> struct_pack 2 0;
     dst_port \<leftarrow> struct_pack 2 (ar_port args);
     prob \<leftarrow> struct_pack 2 (ar_prob args);
     protocol \<leftarrow> struct_pack 1 6;
     action \<leftarrow> struct_pack 1 (action_val args);
     enabled \<leftarrow> struct_pack 1 1;
     Some (seed @ delay @ rule_id @ src_ip @ dst_ip @ src_port @ dst_port @ prob @ protocol @ action @ enabled @ [0, 0, 0])
   }"

text \<open>The opcode of the reply, by which the command chooses what it prints.\<close>

definition cmd_add_rule :: "(bytes \<Rightarrow> 'w \<Rightarrow> bool \<times> 'w) \<Rightarrow> (nat \<Rightarrow> 'w \<Rightarrow> bytes option \<times> 'w) \<Rightarrow> int \<Rightarrow> add_rule_args \<Rightarrow> 'w \<Rightarrow> (client_error + int) \<times> 'w" where
  "cmd_add_rule sendall recv seq args w =
     (case pack_rule args of
     None \<Rightarrow> (Inl StructError, w)
      | Some payload \<Rightarrow>
          (case send_message sendall recv OP_ADD_RULE seq payload w of
             (Inl e, w) \<Rightarrow> (Inl e, w)
           | (Inr (opcode, _, _), w) \<Rightarrow> (Inr opcode, w)))"

definition cmd_ping :: "(bytes \<Rightarrow> 'w \<Rightarrow> bool \<times> 'w) \<Rightarrow> (nat \<Rightarrow> 'w \<Rightarrow> bytes option \<times> 'w) \<Rightarrow> int \<Rightarrow> 'w \<Rightarrow> (client_error + int) \<times> 'w" where
  "cmd_ping sendall recv seq w =
     (case send_message sendall recv OP_PING seq [] w of
        (Inl e, w) \<Rightarrow> (Inl e, w)
      | (Inr (opcode, _, _), w) \<Rightarrow> (Inr opcode, w))"

definition cmd_clear_rules :: "(bytes \<Rightarrow> 'w \<Rightarrow> bool \<times> 'w) \<Rightarrow> (nat \<Rightarrow> 'w \<Rightarrow> bytes option \<times> 'w) \<Rightarrow> int \<Rightarrow> 'w \<Rightarrow> (client_error + int) \<times> 'w" where
  "cmd_clear_rules sendall recv seq w =
     (case send_message sendall recv OP_CLEAR_RULES seq [] w of
        (Inl e, w) \<Rightarrow> (Inl e, w)
      | (Inr (opcode, _, _), w) \<Rightarrow> (Inr opcode, w))"

text \<open>The identifier, port, action, probability and flag that \<open>cmd_list_rules\<close> prints of each rule.\<close>

definition read_rules :: "bytes \<Rightarrow> (int \<times> int \<times> int \<times> int \<times> int) list" where
  "read_rules payload = map (\<lambda>i. let offset = i * 40 in
     (unpack_from 4 payload (offset + 16), unpack_from 2 payload (offset + 30), unpack_from 1 payload (offset + 35),
      unpack_from 2 payload (offset + 32), unpack_from 1 payload (offset + 36))) [0..<length payload div 40]"

definition cmd_list_rules :: "(bytes \<Rightarrow> 'w \<Rightarrow> bool \<times> 'w) \<Rightarrow> (nat \<Rightarrow> 'w \<Rightarrow> bytes option \<times> 'w) \<Rightarrow> int \<Rightarrow> 'w \<Rightarrow>
    (client_error + (int \<times> int \<times> int \<times> int \<times> int) list option) \<times> 'w" where
  "cmd_list_rules sendall recv seq w =
     (case send_message sendall recv OP_LIST_RULES seq [] w of
        (Inl e, w) \<Rightarrow> (Inl e, w)
      | (Inr (opcode, _, payload), w) \<Rightarrow> (Inr (if opcode = OP_RULES_RESPONSE then Some (read_rules payload) else None), w))"

text \<open>The five counters and the action that \<open>cmd_stats\<close> prints.\<close>

definition read_stats :: "bytes \<Rightarrow> int list \<times> int" where
  "read_stats payload = (map (\<lambda>i. unpack_from 8 payload (8 * i)) [0..<5], uint (payload ! 40))"

definition cmd_stats :: "(bytes \<Rightarrow> 'w \<Rightarrow> bool \<times> 'w) \<Rightarrow> (nat \<Rightarrow> 'w \<Rightarrow> bytes option \<times> 'w) \<Rightarrow> int \<Rightarrow> 'w \<Rightarrow>
    (client_error + (int list \<times> int) option) \<times> 'w" where
  "cmd_stats sendall recv seq w =
     (case send_message sendall recv OP_GET_STATS seq [] w of
        (Inl e, w) \<Rightarrow> (Inl e, w)
      | (Inr (opcode, _, payload), w) \<Rightarrow>
          (Inr (if opcode = OP_STATS_RESPONSE \<and> length payload \<ge> 48 then Some (read_stats payload) else None), w))"

subsection \<open>The checksum and the encoding are those of the server\<close>

lemma byte_of_int:
  assumes "8 * Suc k \<le> LENGTH('a)"
  shows "byte_of k (word_of_int v :: 'a::len word) = of_int (v div 256 ^ k)"
proof (rule bit_word_eqI)
  fix m assume "m < LENGTH(8)"
  moreover have "v div 256 ^ k = drop_bit (8 * k) v" by (simp add: drop_bit_eq_div power_mult)
  ultimately show "bit (byte_of k (word_of_int v :: 'a word)) m = bit (of_int (v div 256 ^ k) :: u8) m"
    using assms by (simp add: bit_simps)
qed

lemma struct_pack_word:
  assumes "0 \<le> v" "v < 256 ^ n" "8 * n = LENGTH('a)"
  shows "struct_pack n v = Some (rev (le_bytes n (word_of_int v :: 'a::len word)))"
proof -
  have "map (\<lambda>k. of_int (v div 256 ^ (n - 1 - k))) [0..<n] = rev (le_bytes n (word_of_int v :: 'a word))"
    using assms(3) by (intro nth_equalityI) (simp_all add: le_bytes_def rev_nth byte_of_int)
  then show ?thesis using assms by (simp add: struct_pack_def)
qed

lemma be_bytes_rev:
  "be16_bytes w = rev (le_bytes 2 w)" "be32_bytes x = rev (le_bytes 4 x)" "[b] = rev (le_bytes 1 b)"
  by (simp_all add: be16_bytes_def be32_bytes_def le_bytes_def upt_rec byte_of_def numeral_2_eq_2 numeral_3_eq_3)

lemma take_bit_32 [simp]: "take_bit 32 (uint (w :: u32)) = uint w"
  by (rule bit_eqI) (auto simp: bit_simps dest: bit_imp_le_length)

lemma client_crc_step_word: "client_crc_step (uint w) = uint (crc_step w)"
proof -
  have "uint w AND 1 = uint (w AND 1)" by (simp add: unsigned_and_eq)
  then have "uint w AND 1 = 0 \<longleftrightarrow> w AND 1 = 0" by (simp add: unsigned_eq_0_iff)
  then show ?thesis by (simp add: client_crc_step_def crc_step_def kCrc32Polynomial_def unsigned_drop_bit_eq unsigned_xor_eq)
qed

lemma client_crc_steps: "(client_crc_step ^^ n) (uint w) = uint ((crc_step ^^ n) w)"
  by (induction n) (simp_all add: client_crc_step_word)

lemma crc32_table_nth: "crc32_table ! unat (b :: u8) = uint (kCrc32Table ! unat b)"
proof -
  have b: "unat b < 256" using unsigned_less [of b] by simp
  have "uint b = uint (ucast b :: u32)" by (rule bit_eqI) (auto simp: bit_simps dest: bit_imp_le_length)
  moreover have "uint w AND 0xFFFFFFFF = uint w" for w :: u32
    using take_bit_32 [of w] by (simp add: take_bit_eq_mask mask_numeral)
  ultimately show ?thesis using b client_crc_steps [of 8 "ucast b"] by (simp add: crc32_table_def crc_table_nth del: funpow.simps)
qed

lemma client_crc_index: "nat ((uint c XOR uint b) AND 0xFF) = unat (ucast ((c XOR ucast b) AND 0xFF) :: u8)" for c :: u32 and b :: u8
proof -
  have m: "(0xFF :: int) = mask 8" "(0xFF :: u32) = mask 8" by (simp_all add: mask_eq_exp_minus_1)
  have "(uint c XOR uint b) AND 0xFF = uint (ucast ((c XOR ucast b) AND 0xFF) :: u8)"
    unfolding m by (rule bit_eqI) (auto simp: bit_simps dest: bit_imp_le_length)
  then show ?thesis by (simp only: unat_eq_nat_uint)
qed

lemma client_crc_fold:
  "foldl (\<lambda>crc byte. crc32_table ! nat ((crc XOR uint byte) AND 0xFF) XOR drop_bit 8 crc) (uint c) data = uint (crc32_update c data)"
proof (induction data arbitrary: c)
  case (Cons b data)
  have x: "uint t XOR drop_bit 8 (uint c) = uint (drop_bit 8 c XOR t)" for t :: u32
    by (simp add: unsigned_drop_bit_eq unsigned_xor_eq xor.commute)
  have "crc32_table ! nat ((uint c XOR uint b) AND 0xFF) XOR drop_bit 8 (uint c) =
      uint (drop_bit 8 c XOR kCrc32Table ! unat (ucast ((c XOR ucast b) AND 0xFF) :: u8))"
    unfolding client_crc_index crc32_table_nth by (rule x)
  then show ?case using Cons.IH by (simp add: Let_def)
qed simp

lemma compute_crc32_word: "compute_crc32 data = uint (crc32 data)"
  using client_crc_fold [of "0xFFFFFFFF" data] by (simp add: compute_crc32_def crc32_def unsigned_xor_eq)

lemma struct_pack_bytes:
  "0 \<le> v \<Longrightarrow> v < 256 \<Longrightarrow> struct_pack 1 v = Some [of_int v]"
  "0 \<le> v \<Longrightarrow> v < 65536 \<Longrightarrow> struct_pack 2 v = Some (be16_bytes (of_int v))"
  "0 \<le> v \<Longrightarrow> v < 4294967296 \<Longrightarrow> struct_pack 4 v = Some (be32_bytes (of_int v))"
  by (simp add: struct_pack_def, simp_all add: struct_pack_word [where 'a = 16] struct_pack_word [where 'a = 32] be_bytes_rev)

lemma struct_pack_uint: "struct_pack 4 (uint (w :: u32)) = Some (be32_bytes w)"
proof -
  have "uint w < 4294967296" using uint_bounded [of w] by simp
  then show ?thesis by (simp add: struct_pack_bytes)
qed

definition client_header :: "int \<Rightarrow> int \<Rightarrow> MessageHeader" where
  "client_header opcode sequence = MessageHeader_init\<lparr>mh_opcode := of_int opcode, mh_sequence := of_int sequence\<rparr>"

lemma be64_bytes_0: "be64_bytes 0 = replicate 8 0"
  by (simp add: be64_bytes_def be32_bytes_def byte_of_def numeral_eq_Suc)

lemma client_encode:
  assumes "0 \<le> opcode" "opcode < 256" "0 \<le> sequence" "sequence < 2 ^ 32" "length payload < 2 ^ 32"
  shows "client_encode_message opcode sequence payload = Some (message_bytes (client_header opcode sequence) payload)"
  using assms
  by (simp add: client_encode_message_def pack_into_def HEADER_SIZE_def PROTOCOL_MAGIC_def PROTOCOL_VERSION_def struct_pack_bytes [simplified One_nat_def] struct_pack_uint
      compute_crc32_word message_bytes_def message_crc_def header_bytes_def normalized_def client_header_def MessageHeader_init_def
      kProtocolMagic_def kProtocolVersion_def be64_bytes_0 be16_bytes_def be32_bytes_def)

lemma uint_byte_of:
  assumes "8 * Suc k \<le> LENGTH('a)"
  shows "uint (byte_of k (w :: 'a::len word)) = (uint w div 256 ^ k) mod 256"
proof -
  have "byte_of k w = of_int (uint w div 256 ^ k)" using byte_of_int [OF assms, of "uint w"] by simp
  then show ?thesis by (simp add: unsigned_of_int take_bit_eq_mod)
qed

lemma base_256:
  assumes "0 \<le> v" "v < (4294967296 :: int)"
  shows "16777216 * (v div 16777216 mod 256) + 65536 * (v div 65536 mod 256) + 256 * (v div 256 mod 256) + v mod 256 = v"
proof -
  define a b c where "a = v div 256" and "b = v div 65536" and "c = v div 16777216"
  have "(256 :: int) * 256 = 65536" "(65536 :: int) * 256 = 16777216" by simp_all
  then have "b = a div 256" "c = b div 256"
    using zdiv_zmult2_eq [of 256 v 256] zdiv_zmult2_eq [of 256 v 65536] by (simp_all only: a_def b_def c_def zero_le_numeral)
  then have "256 * b + a mod 256 = a" "256 * c + b mod 256 = b" by (simp_all only: mult_div_mod_eq)
  moreover have "256 * a + v mod 256 = v" by (simp only: a_def mult_div_mod_eq)
  moreover have "c mod 256 = c" unfolding c_def using assms by (intro mod_pos_pos_trivial; linarith)
  ultimately show ?thesis unfolding a_def [symmetric] b_def [symmetric] c_def [symmetric] by linarith
qed

lemma unpack_be32: "foldl (\<lambda>v b. 256 * v + uint b) 0 (be32_bytes w) = uint w"
  by (simp add: be32_bytes_def uint_byte_of, rule base_256) (use uint_bounded [of w] in simp_all)

lemma client_decode_header_bytes:
  "client_decode_header (header_bytes h crc) =
     Some (unpack_from 2 (header_bytes h crc) 0, uint (mh_version h), uint (mh_opcode h), uint (mh_sequence h), uint (mh_payload_length h), uint crc)"
proof -
  have "unpack_from 4 (header_bytes h crc) 4 = uint (mh_sequence h)" "unpack_from 4 (header_bytes h crc) 8 = uint (mh_payload_length h)"
    "unpack_from 4 (header_bytes h crc) 12 = uint crc"
    using unpack_be32 [of "mh_sequence h"] unpack_be32 [of "mh_payload_length h"] unpack_be32 [of crc]
    by (simp_all add: unpack_from_def header_bytes_def be16_bytes_def be32_bytes_def)
  then show ?thesis by (simp add: client_decode_header_def HEADER_SIZE_def) (simp add: header_bytes_def be16_bytes_def)
qed

lemma verify_header_bytes: "verify_message_crc (header_bytes h crc) payload \<longleftrightarrow> crc32 (header_bytes h 0 @ payload) = crc"
proof -
  have u: "unpack_from 4 (header_bytes h crc) 12 = uint crc"
    using unpack_be32 [of crc] by (simp add: unpack_from_def header_bytes_def be16_bytes_def be32_bytes_def)
  have "pack_into 4 0 12 (header_bytes h crc) = Some (header_bytes h 0)"
    by (simp add: pack_into_def struct_pack_bytes header_bytes_def be16_bytes_def be32_bytes_def)
  then show ?thesis by (simp add: verify_message_crc_def HEADER_SIZE_def u compute_crc32_word word_uint_eq_iff)
qed

subsection \<open>An exchange with the server\<close>

text \<open>What the client relies on of its socket: while bytes are coming in, a receive delivers between one byte and the number asked for, in order.\<close>

definition stream_laws :: "(nat \<Rightarrow> 'w \<Rightarrow> bytes option \<times> 'w) \<Rightarrow> ('w \<Rightarrow> bytes) \<Rightarrow> bool" where
  "stream_laws recv incoming \<longleftrightarrow> (\<forall>n w. 0 < n \<and> incoming w \<noteq> [] \<longrightarrow>
     (\<exists>chunk w'. recv n w = (Some chunk, w') \<and> chunk \<noteq> [] \<and> length chunk \<le> n \<and> incoming w = chunk @ incoming w'))"

lemma recv_exact_stream:
  assumes "stream_laws recv incoming" "incoming w = xs @ rest" "length data + length xs = nbytes"
  shows "\<exists>w'. recv_exact recv nbytes data w = (Inr (data @ xs), w') \<and> incoming w' = rest"
  using assms(2,3)
proof (induction xs arbitrary: data w rule: length_induct)
  case (1 xs)
  show ?case
  proof (cases xs)
    case Nil
    then show ?thesis using "1.prems" by (simp add: recv_exact.simps)
  next
    case (Cons x ys)
    then obtain chunk w1 where c: "recv (length xs) w = (Some chunk, w1)" "chunk \<noteq> []" "length chunk \<le> length xs" "incoming w = chunk @ incoming w1"
      using assms(1) "1.prems"(1) unfolding stream_laws_def by (metis append_is_Nil_conv length_greater_0_conv list.distinct(1))
    have eq: "xs @ rest = chunk @ incoming w1" using c(4) "1.prems"(1) by simp
    have "take (length chunk) xs = chunk" using arg_cong [OF eq, of "take (length chunk)"] c(3) by simp
    then have xs: "chunk @ drop (length chunk) xs = xs" using append_take_drop_id [of "length chunk" xs] by simp
    have in1: "incoming w1 = drop (length chunk) xs @ rest" using arg_cong [OF eq, of "drop (length chunk)"] c(3) by simp
    have shorter: "length (drop (length chunk) xs) < length xs" using c(2) Cons by (cases chunk) auto
    have "\<exists>w'. recv_exact recv nbytes (data @ chunk) w1 = (Inr ((data @ chunk) @ drop (length chunk) xs), w') \<and> incoming w' = rest"
      using "1.IH" [THEN spec, THEN mp, THEN spec, THEN spec, THEN mp, THEN mp, OF shorter in1, of "data @ chunk"] c(3) "1.prems"(2) by simp
    moreover have "recv_exact recv nbytes data w = recv_exact recv nbytes (data @ chunk) w1"
      using c(1,2) "1.prems"(2) Cons by (subst recv_exact.simps) (auto simp flip: "1.prems"(2))
    ultimately show ?thesis using xs by simp
  qed
qed

lemma length_message_header: "length (header_bytes h crc) = 24"
  by (simp add: header_bytes_def)

lemma send_message_exchange:
  assumes "stream_laws recv incoming" "client_encode_message opcode sequence payload = Some request" "sendall request w = (True, ws)"
    "incoming ws = message_bytes h reply @ rest" "length reply < 2 ^ 32"
  shows "\<exists>w'. send_message sendall recv opcode sequence payload w = (Inr (uint (mh_opcode h), uint (mh_sequence h), reply), w') \<and> incoming w' = rest"
proof -
  let ?n = "normalized h (length reply)" and ?crc = "message_crc h reply"
  have "incoming ws = header_bytes ?n ?crc @ reply @ rest" using assms(4) by (simp add: message_bytes_def)
  then obtain w2 where w2: "recv_exact recv HEADER_SIZE [] ws = (Inr (header_bytes ?n ?crc), w2)" "incoming w2 = reply @ rest"
    using recv_exact_stream [OF assms(1), of ws "header_bytes ?n ?crc" "reply @ rest" "[]" HEADER_SIZE] by (auto simp: HEADER_SIZE_def length_message_header)
  obtain w3 where w3: "(if 0 < int (length reply) then recv_exact recv (nat (int (length reply))) [] w2 else (Inr [], w2)) = (Inr reply, w3)"
      "incoming w3 = rest"
    using recv_exact_stream [OF assms(1) w2(2), of "[]" "length reply"] w2(2) by (cases "reply = []") auto
  have len: "uint (of_nat (length reply) :: u32) = int (length reply)" using assms(5) by (simp add: unsigned_of_nat take_bit_nat_eq_self)
  have crc: "verify_message_crc (header_bytes ?n ?crc) reply" by (simp add: verify_header_bytes message_crc_def)
  have fields: "mh_opcode ?n = mh_opcode h" "mh_sequence ?n = mh_sequence h" "mh_payload_length ?n = of_nat (length reply)"
    by (simp_all add: normalized_def)
  show ?thesis
    using assms(2,3) w2(1) w3 crc by (simp add: send_message_def client_decode_header_bytes fields len)
qed

subsection \<open>Rules and statistics are packed in the wrong byte order\<close>

lemma struct_pack_Some:
  assumes "struct_pack n v = Some bs" "8 * n = LENGTH('a)"
  shows "bs = rev (le_bytes n (word_of_int v :: 'a::len word))"
proof -
  have "0 \<le> v" "v < 256 ^ n" using assms(1) by (auto simp: struct_pack_def split: if_splits)
  then show ?thesis using struct_pack_word [OF _ _ assms(2), of v] assms(1) by simp
qed

lemma struct_pack_1: "struct_pack (Suc 0) v = (if 0 \<le> v \<and> v < 256 then Some [of_int v] else None)"
  by (simp add: struct_pack_def)

lemma struct_pack_length: "struct_pack n v = Some bs \<Longrightarrow> length bs = n"
  by (auto simp: struct_pack_def split: if_splits)

text \<open>The server reads every field that the client packs with its bytes reversed.\<close>

lemma pack_rule_read:
  assumes "pack_rule args = Some payload"
  shows "\<exists>r. rule_of_bytes payload = Some r \<and> cr_protocol r = 6 \<and> cr_action r = of_int (action_val args) \<and> cr_enabled r = 1 \<and>
    le_bytes 8 (cr_seed r) = rev (le_bytes 8 (word_of_int (ar_seed args) :: u64)) \<and>
    le_bytes 8 (cr_delay_ns r) = rev (le_bytes 8 (word_of_int (ar_delay args) :: u64)) \<and>
    le_bytes 4 (cr_id r) = rev (le_bytes 4 (word_of_int (ar_rule_id args) :: u32)) \<and>
    le_bytes 2 (cr_dst_port r) = rev (le_bytes 2 (word_of_int (ar_port args) :: u16)) \<and>
    le_bytes 2 (cr_probability r) = rev (le_bytes 2 (word_of_int (ar_prob args) :: u16))"
proof -
  define ips src_port where "ips = be32_bytes 0 @ be32_bytes 0" and "src_port = be16_bytes 0"
  then have lens: "length ips = 8" "length src_port = 2" by simp_all
  obtain seed delay rule_id dst_port prob where p:
      "struct_pack 8 (ar_seed args) = Some seed" "struct_pack 8 (ar_delay args) = Some delay" "struct_pack 4 (ar_rule_id args) = Some rule_id"
      "struct_pack 2 (ar_port args) = Some dst_port" "struct_pack 2 (ar_prob args) = Some prob"
      "payload = seed @ delay @ rule_id @ ips @ src_port @ dst_port @ prob @ [6, of_int (action_val args), 1, 0, 0, 0]"
    using assms by (auto simp: pack_rule_def Let_def Option.bind_eq_Some_conv struct_pack_bytes(2,3) struct_pack_1 ips_def src_port_def split: if_splits)
  have len: "length seed = 8" "length delay = 8" "length rule_id = 4" "length dst_port = 2" "length prob = 2"
    using p by (auto dest: struct_pack_length)
  have "rule_of_bytes payload = Some \<lparr>cr_seed = le_val seed, cr_delay_ns = le_val delay, cr_id = le_val rule_id, cr_src_ip = le_val (take 4 ips),
      cr_dst_ip = le_val (drop 4 ips), cr_src_port = le_val src_port, cr_dst_port = le_val dst_port, cr_probability = le_val prob,
      cr_protocol = 6, cr_action = of_int (action_val args), cr_enabled = 1, cr_reserved = (0, 0, 0)\<rparr>"
    using len lens by (simp add: rule_of_bytes_def p(6) nth_append)
  then show ?thesis using len struct_pack_Some [OF p(1), where 'a = 64] struct_pack_Some [OF p(2), where 'a = 64]
    struct_pack_Some [OF p(3), where 'a = 32] struct_pack_Some [OF p(4), where 'a = 16] struct_pack_Some [OF p(5), where 'a = 16] by simp
qed

lemma struct_pack_snoc:
  assumes "struct_pack n v = Some bs"
  shows "struct_pack (Suc n) (256 * v + uint b) = Some (bs @ [b])"
proof -
  have b: "0 \<le> uint b" "uint b < 256" using uint_bounded [of b] by simp_all
  have v: "0 \<le> v" "v < 256 ^ n" "bs = map (\<lambda>k. of_int (v div 256 ^ (n - 1 - k))) [0..<n]"
    using assms by (auto simp: struct_pack_def split: if_splits)
  have "v + 1 \<le> 256 ^ n" using v(2) by simp
  then have "256 * (v + 1) \<le> 256 * 256 ^ n" by (rule mult_left_mono) simp
  then have "256 * v + uint b < 256 ^ Suc n" using b by simp
  moreover have d: "(256 * v + uint b) div 256 = v" using b by simp
  have "(256 * v + uint b) div 256 ^ (n - k) = v div 256 ^ (n - 1 - k)" if "k < n" for k
  proof -
    have "256 ^ (n - k) = (256 :: int) * 256 ^ (n - 1 - k)" using that by (simp flip: power_Suc)
    then show ?thesis using zdiv_zmult2_eq [of "256 ^ (n - 1 - k)" "256 * v + uint b" 256] d by simp
  qed
  moreover have "(256 :: u8) = 0" by (simp add: word_uint_eq_iff)
  then have "256 * (of_int v :: u8) = 0" by (simp only: mult_zero_left)
  then have "(of_int (256 * v + uint b) :: u8) = b" by simp
  ultimately show ?thesis using v b by (simp add: struct_pack_def)
qed

lemma struct_pack_unpack: "struct_pack (length bs) (foldl (\<lambda>v b. 256 * v + uint b) 0 bs) = Some bs"
  by (induction bs rule: rev_induct) (simp_all add: struct_pack_snoc, simp add: struct_pack_def)

text \<open>The numbers that \<open>cmd_stats\<close> prints are those whose big-endian bytes are the little-endian bytes of the counters.\<close>

lemma read_stats_swapped:
  assumes "i < 5"
  shows "struct_pack 8 (fst (read_stats (stat_bytes pad s)) ! i) =
    Some (le_bytes 8 ([timestamp_cycles s, su_packets_seen s, su_packets_dropped s, su_bytes_seen s, su_average_latency_ns s] ! i))"
proof -
  have "take 8 (drop (8 * i) (stat_bytes pad s)) =
      le_bytes 8 ([timestamp_cycles s, su_packets_seen s, su_packets_dropped s, su_bytes_seen s, su_average_latency_ns s] ! i)"
    using assms by (auto simp: stat_bytes_def less_Suc_eq numeral_eq_Suc)
  then show ?thesis using assms struct_pack_unpack [of "take 8 (drop (8 * i) (stat_bytes pad s))"] by (simp add: read_stats_def unpack_from_def)
qed

lemma le_bytes_inj:
  assumes "LENGTH('a) = 8 * n"
  shows "le_bytes n u = le_bytes n w \<longleftrightarrow> u = (w :: 'a::len word)"
proof
  assume "le_bytes n u = le_bytes n w"
  then have "le_val (le_bytes n u) = (le_val (le_bytes n w) :: 'a word)" by (simp only:)
  then show "u = w" using assms by simp
qed simp

lemma swapped_eq_iff:
  assumes "le_bytes 2 (u :: u16) = rev (le_bytes 2 (word_of_int v :: u16))" "0 \<le> v" "v < 65536"
  shows "u = word_of_int v \<longleftrightarrow> v div 256 = v mod 256"
proof -
  let ?w = "word_of_int v :: u16"
  have "uint ?w = v" using assms(2,3) by (simp add: unsigned_of_int take_bit_int_eq_self)
  then have b: "uint (byte_of 1 ?w) = v div 256 mod 256" "uint (byte_of 0 ?w) = v mod 256"
    using uint_byte_of [of 1 ?w] uint_byte_of [of 0 ?w] by simp_all
  have "u = ?w \<longleftrightarrow> le_bytes 2 u = le_bytes 2 ?w" by (simp add: le_bytes_inj)
  also have "\<dots> \<longleftrightarrow> byte_of 1 ?w = byte_of 0 ?w" using assms(1) by (simp add: le_bytes_def upt_rec eq_commute)
  also have "\<dots> \<longleftrightarrow> uint (byte_of 1 ?w) = uint (byte_of 0 ?w)" by (simp only: word_uint_eq_iff)
  also have "\<dots> \<longleftrightarrow> v div 256 mod 256 = v mod 256" by (simp only: b)
  also have "v div 256 mod 256 = v div 256" using assms(2,3) by (intro mod_pos_pos_trivial; linarith)
  finally show ?thesis .
qed

text \<open>A socket at whose other end the core handles the request: the reply is what comes in next.\<close>

definition connected :: "(bytes \<Rightarrow> 'w \<Rightarrow> bool \<times> 'w) \<Rightarrow> ('w \<Rightarrow> bytes) \<Rightarrow> u8 \<times> u8 \<times> u8 \<times> u8 \<Rightarrow> bytes \<Rightarrow> ControlCore \<Rightarrow> 'w \<Rightarrow> bool" where
  "connected sendall incoming pad response c w \<longleftrightarrow> (\<forall>request resp out c'. handle pad request response c = Some (resp, out, c') \<longrightarrow>
     (\<exists>w1. sendall request w = (True, w1) \<and> incoming w1 = take (cp_bytes_written resp) out))"

text \<open>C38: The client and the server agree on the messages. Whatever opcode, sequence number and payload within the limits the client sends, it encodes
  without an error, with a checksum of its own that the server accepts, and the server decodes the same opcode, sequence number and payload. Whatever
  message the server's encoder produces in reply, and however the network cuts it into pieces, the client receives exactly it, accepts its
  checksum and leaves the following bytes in the stream.\<close>

theorem client_exchange:
  assumes "stream_laws recv incoming" "0 \<le> opcode" "opcode < 256" "0 \<le> sequence" "sequence < 2 ^ 32"
    and "length payload \<le> kMaxControlPayloadBytes" "length reply \<le> kMaxControlPayloadBytes"
    and "\<forall>request. client_encode_message opcode sequence payload = Some request \<longrightarrow>
      (\<exists>w1. sendall request w = (True, w1) \<and> incoming w1 = message_bytes h reply @ rest)"
  shows "\<exists>request d w'. client_encode_message opcode sequence payload = Some request \<and>
    decode_message request = Some d \<and> dr_status d = ProtocolOk \<and> dm_payload (dr_message d) = payload \<and>
    uint (mh_opcode (dm_header (dr_message d))) = opcode \<and> uint (mh_sequence (dm_header (dr_message d))) = sequence \<and>
    send_message sendall recv opcode sequence payload w = (Inr (uint (mh_opcode h), uint (mh_sequence h), reply), w') \<and> incoming w' = rest"
proof -
  let ?h = "client_header opcode sequence"
  have len: "length payload < 2 ^ 32" "length reply < 2 ^ 32" using assms(6,7) by (simp_all add: kMaxControlPayloadBytes_def)
  from client_encode [OF assms(2-5) len(1)] have e: "client_encode_message opcode sequence payload = Some (message_bytes ?h payload)" .
  from assms(8) e obtain w1 where w1: "sendall (message_bytes ?h payload) w = (True, w1)" "incoming w1 = message_bytes h reply @ rest" by blast
  have fields: "uint (mh_opcode ?h) = opcode" "uint (mh_sequence ?h) = sequence"
    using assms(2-5) by (simp_all add: client_header_def unsigned_of_int take_bit_int_eq_self)
  obtain w' where w': "send_message sendall recv opcode sequence payload w = (Inr (uint (mh_opcode h), uint (mh_sequence h), reply), w')" "incoming w' = rest"
    using send_message_exchange [where sendall = sendall and w = w and ws = w1, OF assms(1) e w1 len(2)] by blast
  show ?thesis by (intro exI conjI, rule e, use decode_encoded [OF assms(6), of ?h "[]"] in simp) (simp_all add: normalized_def fields w'(1), simp only: w'(2))
qed

text \<open>C39: The client's \<open>add-rule\<close> reports success and installs another rule than it was told to. The server copies the payload into a
  structure in the byte order of its machine (least significant byte first) while the client packs it most significant byte first. So seed, delay, identifier,
  port and probability arrive with their bytes reversed; the port is right only when its two bytes are equal.\<close>

theorem client_rule_misread:
  assumes "stream_laws recv incoming" "connected sendall incoming pad response c w" "0 \<le> seq" "seq < 2 ^ 32"
    and "core_inv c" "length (core_rules c) < rule_capacity (rule_table c)" "43 \<le> length response" "pack_rule args = Some payload"
  shows "\<exists>w' request resp out c' r. cmd_add_rule sendall recv seq args w = (Inr 2, w') \<and>
    client_encode_message OP_ADD_RULE seq payload = Some request \<and> handle pad request response c = Some (resp, out, c') \<and>
    core_rules c' = core_rules c @ [r] \<and> cr_action r = of_int (action_val args) \<and>
    le_bytes 8 (cr_seed r) = rev (le_bytes 8 (word_of_int (ar_seed args) :: u64)) \<and>
    le_bytes 8 (cr_delay_ns r) = rev (le_bytes 8 (word_of_int (ar_delay args) :: u64)) \<and>
    le_bytes 4 (cr_id r) = rev (le_bytes 4 (word_of_int (ar_rule_id args) :: u32)) \<and>
    le_bytes 2 (cr_probability r) = rev (le_bytes 2 (word_of_int (ar_prob args) :: u16)) \<and>
    le_bytes 2 (cr_dst_port r) = rev (le_bytes 2 (word_of_int (ar_port args) :: u16)) \<and>
    (cr_dst_port r = word_of_int (ar_port args) \<longleftrightarrow> ar_port args div 256 = ar_port args mod 256)"
proof -
  let ?h = "client_header OP_ADD_RULE seq" and ?reply = "response_header OpPong (mh_sequence (client_header OP_ADD_RULE seq))"
  obtain r where r: "rule_of_bytes payload = Some r" "cr_action r = of_int (action_val args)"
    "le_bytes 8 (cr_seed r) = rev (le_bytes 8 (word_of_int (ar_seed args) :: u64))"
    "le_bytes 8 (cr_delay_ns r) = rev (le_bytes 8 (word_of_int (ar_delay args) :: u64))"
    "le_bytes 4 (cr_id r) = rev (le_bytes 4 (word_of_int (ar_rule_id args) :: u32))"
    "le_bytes 2 (cr_probability r) = rev (le_bytes 2 (word_of_int (ar_prob args) :: u16))"
    "le_bytes 2 (cr_dst_port r) = rev (le_bytes 2 (word_of_int (ar_port args) :: u16))"
    using pack_rule_read [OF assms(8)] by blast
  have port: "0 \<le> ar_port args" "ar_port args < 65536"
    using assms(8) by (auto simp: pack_rule_def Option.bind_eq_Some_conv struct_pack_def split: if_splits)
  have "length payload = 40" using r(1) by (simp add: rule_of_bytes_def split: if_splits)
  then have e: "client_encode_message OP_ADD_RULE seq payload = Some (message_bytes ?h payload)"
    using client_encode [of OP_ADD_RULE seq payload] assms(3,4) by (simp add: OP_ADD_RULE_def)
  have op: "mh_opcode ?h = OpAddRule" by (simp add: client_header_def OP_ADD_RULE_def OpAddRule_def)
  obtain out c' where c': "handle pad (message_bytes ?h payload) response c = Some (\<lparr>cp_status = ProtocolOk, cp_opcode = OpPong, cp_bytes_written = 24\<rparr>, out, c')"
      "core_rules c' = core_rules c @ [r]" "take 24 out = message_bytes ?reply []"
    using add_rule_handled [OF assms(5-7) op r(1), of pad] by blast
  obtain w1 where w1: "sendall (message_bytes ?h payload) w = (True, w1)" "incoming w1 = message_bytes ?reply [] @ []"
    using assms(2) c'(1,3) unfolding connected_def by fastforce
  obtain w' where "send_message sendall recv OP_ADD_RULE seq payload w = (Inr (uint (mh_opcode ?reply), uint (mh_sequence ?reply), []), w')"
    using send_message_exchange [where sendall = sendall and w = w and ws = w1, OF assms(1) e w1] by auto
  then have "cmd_add_rule sendall recv seq args w = (Inr 2, w')"
    using assms(8) by (simp add: cmd_add_rule_def response_header_def OpPong_def)
  then show ?thesis using e c'(1,2) r(2-) swapped_eq_iff [OF r(7) port] by blast
qed

text \<open>A network that delivers one byte at a time, and a server at its other end.\<close>

definition byte_recv :: "nat \<Rightarrow> bytes \<Rightarrow> bytes option \<times> bytes" where
  "byte_recv n w = (Some (take 1 w), drop 1 w)"

lemma byte_recv_laws: "stream_laws byte_recv (\<lambda>w. w)"
  by (auto simp: stream_laws_def byte_recv_def Suc_le_eq)

definition answer :: "ControlCore \<Rightarrow> bytes \<Rightarrow> bytes \<Rightarrow> bool \<times> bytes" where
  "answer c request w = (True, case handle (0, 0, 0, 0) request (replicate 200 0) c of None \<Rightarrow> [] | Some (resp, out, _) \<Rightarrow> take (cp_bytes_written resp) out)"

theorem client_exchange_witness:
  "\<exists>w'. send_message (\<lambda>_ _. (True, message_bytes (response_header OpError 7) [1, 2])) byte_recv 0x23 7 [] [] = (Inr (255, 7, [1, 2]), w')"
  using client_exchange [OF byte_recv_laws, of "0x23" 7 "[]" "[1, 2]" "\<lambda>_ _. (True, message_bytes (response_header OpError 7) [1, 2])" "[]" "response_header OpError 7" "[]"]
  by (auto simp: kMaxControlPayloadBytes_def response_header_def OpError_def)

definition default_args :: add_rule_args where
  "default_args = \<lparr>ar_rule_id = 1, ar_port = 8080, ar_action = ''drop'', ar_prob = 10000, ar_seed = 0xBEEF, ar_delay = 0\<rparr>"

theorem client_rule_misread_witness:
  "\<exists>w' request resp out c' r. cmd_add_rule (answer (ControlCore_init 4)) byte_recv 1 default_args [] = (Inr 2, w') \<and>
     handle (0, 0, 0, 0) request (replicate 200 0) (ControlCore_init 4) = Some (resp, out, c') \<and> core_rules c' = [r] \<and> cr_dst_port r = 36895"
proof -
  have conn: "connected (answer (ControlCore_init 4)) (\<lambda>w. w) (0, 0, 0, 0) (replicate 200 0) (ControlCore_init 4) []"
    by (auto simp: connected_def answer_def)
  have "\<exists>payload. pack_rule default_args = Some payload"
    by (simp add: pack_rule_def default_args_def action_val_def ACTION_MAP_def struct_pack_def)
  then obtain payload where p: "pack_rule default_args = Some payload" by blast
  have "le_bytes 2 (u :: u16) = rev (le_bytes 2 (8080 :: u16)) \<Longrightarrow> u = 36895" for u
    using le_bytes_inj [of 2 u 36895] by (simp add: le_bytes_def upt_rec byte_of_def)
  then show ?thesis
    using client_rule_misread [OF byte_recv_laws conn, of 1 default_args payload] p
    by (fastforce simp: core_inv_def core_rules_def ControlCore_init_def default_args_def)
qed

end
