(* ===== verification/Spec2Isabelle.thy ===== *)
theory Spec2Isabelle
  imports Spsc_Concurrent Rule_Publication Control_Server Frame_Loss Delayed_Frames Tui Xdp_Filter Live_Mode Demo_Mode Server_Mode Control_Client
begin

text \<open>
  Chronos-X: a network chaos engine on AF_XDP.

  HEADER
\<close>

end
